(* ===== verification/Drift_Prelude.thy ===== *)
theory Drift_Prelude
  imports Main "HOL-Library.Word" "HOL-Library.AList" "HOL-Library.Multiset"
begin

text \<open>
  Shared material of the development: the machine types of the Rust sources, Rust's
  \<open>Result\<close> as a sum, little-endian byte encodings, saturating arithmetic, and the model of
  \<open>std::collections::HashMap\<close> as an association list with distinct keys. The order of the
  list is the iteration order of the map; Rust leaves that order unspecified, so the lemmas
  quantify over every list with distinct keys, that is over every iteration order.
\<close>

section \<open>Machine types\<close>

unbundle bit_operations_syntax

type_synonym u8 = "8 word"
type_synonym u16 = "16 word"
type_synonym u32 = "32 word"
type_synonym u64 = "64 word"
type_synonym i32 = "32 word" \<comment> \<open>two's complement: \<open>-1\<close> is the word \<open>-1\<close>\<close>
type_synonym bytes = "u8 list"

text \<open>Rules that rewrite wire encodings, and rules about well-formed states.\<close>

named_theorems wire_simps
named_theorems wf_intros

text \<open>Rules that evaluate the encodings on concrete values.\<close>

named_theorems wire_eval

section \<open>Results\<close>

text \<open>\<open>Result<T, E>\<close> is \<open>'e + 'a\<close>: \<open>Inl\<close> is \<open>Err\<close>, \<open>Inr\<close> is \<open>Ok\<close>.\<close>

definition is_ok :: "'e + 'a \<Rightarrow> bool" where
  "is_ok r = (case r of Inl _ \<Rightarrow> False | Inr _ \<Rightarrow> True)"

lemma is_ok_simps [simp]: "is_ok (Inr x)" "\<not> is_ok (Inl e)"
  by (simp_all add: is_ok_def)

text \<open>The question mark operator of Rust: stop at the first error.\<close>

definition try_res :: "'e + 'a \<Rightarrow> ('a \<Rightarrow> 'e + 'b) \<Rightarrow> 'e + 'b" where
  "try_res r f = (case r of Inl e \<Rightarrow> Inl e | Inr x \<Rightarrow> f x)"

lemma try_res_simps [simp]:
  "try_res (Inr x) f = f x" "try_res (Inl e) f = Inl e"
  by (simp_all add: try_res_def)

lemma try_res_eq_Inr [simp]:
  "try_res r f = Inr y \<longleftrightarrow> (\<exists>x. r = Inr x \<and> f x = Inr y)"
  by (cases r) auto

section \<open>Saturating arithmetic\<close>

lemma unat_bound: "unat w < 2 ^ LENGTH('a)" for w :: "'a::len word"
  by (rule unsigned_less)

text \<open>\<open>saturating_add\<close> and \<open>saturating_sub\<close> of Rust's unsigned integers.\<close>

definition sat_add :: "'a::len word \<Rightarrow> 'a word \<Rightarrow> 'a word" where
  "sat_add x y = (if unat x + unat y < 2 ^ LENGTH('a) then x + y else - 1)"

definition sat_sub :: "'a::len word \<Rightarrow> 'a word \<Rightarrow> 'a word" where
  "sat_sub x y = (if x < y then 0 else x - y)"

lemma unat_sat_add:
  "unat (sat_add x y) = min (unat x + unat y) (2 ^ LENGTH('a) - 1)" for x y :: "'a::len word"
  by (auto simp: sat_add_def unat_word_ariths unsigned_minus_1_eq_mask mask_eq_exp_minus_1)

lemma unat_sat_sub: "unat (sat_sub x y) = unat x - unat y"
  by (auto simp: sat_sub_def unat_sub word_less_nat_alt word_le_nat_alt)

lemma sat_add_ge: "x \<le> sat_add x y" for x y :: "'a::len word"
proof -
  have "unat x \<le> 2 ^ LENGTH('a) - 1" using unat_bound [of x] by linarith
  then show ?thesis by (simp add: word_le_nat_alt unat_sat_add)
qed

section \<open>Little-endian encodings\<close>

fun nat_to_le :: "nat \<Rightarrow> nat \<Rightarrow> bytes" where
  "nat_to_le 0 x = []"
| "nat_to_le (Suc n) x = word_of_nat (x mod 256) # nat_to_le n (x div 256)"

fun nat_of_le :: "bytes \<Rightarrow> nat" where
  "nat_of_le [] = 0"
| "nat_of_le (b # bs) = unat b + 256 * nat_of_le bs"

lemma length_nat_to_le [simp, wire_simps]: "length (nat_to_le n x) = n"
  by (induction n arbitrary: x) auto

lemma unat_byte_lt: "unat (b :: u8) < 256"
  using unat_bound [of b] by simp

lemma nat_of_le_to_le: "nat_of_le (nat_to_le n x) = x mod 256 ^ n"
proof (induction n arbitrary: x)
  case 0
  then show ?case by simp
next
  case (Suc n)
  have "unat (word_of_nat (x mod 256) :: u8) = x mod 256"
    by (simp add: unat_of_nat)
  moreover have "x mod 256 ^ Suc n = x mod 256 + 256 * (x div 256 mod 256 ^ n)"
    by (simp add: mod_mult2_eq)
  ultimately show ?case using Suc.IH by simp
qed

lemma nat_to_le_of_le: "length bs = n \<Longrightarrow> nat_to_le n (nat_of_le bs) = bs"
proof (induction bs arbitrary: n)
  case Nil
  then show ?case by simp
next
  case (Cons b bs)
  have "(unat b + 256 * nat_of_le bs) div 256 = nat_of_le bs"
    using unat_byte_lt [of b] by simp
  moreover have "(unat b + 256 * nat_of_le bs) mod 256 = unat b"
    using unat_byte_lt [of b] by simp
  ultimately show ?case using Cons by auto
qed

lemma nat_of_le_bound: "nat_of_le bs < 256 ^ length bs"
proof (induction bs)
  case Nil
  then show ?case by simp
next
  case (Cons b bs)
  then have "nat_of_le bs + 1 \<le> 256 ^ length bs" by simp
  then have "256 * nat_of_le bs + 256 \<le> 256 * 256 ^ length bs" by linarith
  with unat_byte_lt [of b] show ?case by simp
qed

text \<open>\<open>to_le_bytes\<close> and \<open>from_le_bytes\<close> of \<open>u16\<close> and \<open>u32\<close>.\<close>

definition u16_to_le :: "u16 \<Rightarrow> bytes" where
  "u16_to_le w = nat_to_le 2 (unat w)"

definition u16_of_le :: "bytes \<Rightarrow> u16" where
  "u16_of_le bs = word_of_nat (nat_of_le bs)"

definition u32_to_le :: "u32 \<Rightarrow> bytes" where
  "u32_to_le w = nat_to_le 4 (unat w)"

definition u32_of_le :: "bytes \<Rightarrow> u32" where
  "u32_of_le bs = word_of_nat (nat_of_le bs)"

lemma length_u16_to_le [simp, wire_simps]: "length (u16_to_le w) = 2"
  by (simp add: u16_to_le_def)

lemma length_u32_to_le [simp, wire_simps]: "length (u32_to_le w) = 4"
  by (simp add: u32_to_le_def)

lemma u16_le_roundtrip [simp, wire_simps]: "u16_of_le (u16_to_le w) = w"
proof -
  have "unat w < 256 ^ 2" using unat_bound [of w] by simp
  then show ?thesis by (simp add: u16_of_le_def u16_to_le_def nat_of_le_to_le)
qed

lemma u32_le_roundtrip [simp, wire_simps]: "u32_of_le (u32_to_le w) = w"
proof -
  have "unat w < 256 ^ 4" using unat_bound [of w] by simp
  then show ?thesis by (simp add: u32_of_le_def u32_to_le_def nat_of_le_to_le)
qed

lemma u16_le_inverse: "length bs = 2 \<Longrightarrow> u16_to_le (u16_of_le bs) = bs"
  using nat_of_le_bound [of bs] nat_to_le_of_le [of bs 2]
  by (simp add: u16_of_le_def u16_to_le_def unat_of_nat)

lemma u32_le_inverse: "length bs = 4 \<Longrightarrow> u32_to_le (u32_of_le bs) = bs"
  using nat_of_le_bound [of bs] nat_to_le_of_le [of bs 4]
  by (simp add: u32_of_le_def u32_to_le_def unat_of_nat)

lemma u16_to_le_inject [simp]: "u16_to_le v = u16_to_le w \<longleftrightarrow> v = w"
  by (metis u16_le_roundtrip)

lemma u32_to_le_inject [simp]: "u32_to_le v = u32_to_le w \<longleftrightarrow> v = w"
  by (metis u32_le_roundtrip)

lemma unat_u16_of_nat [simp]: "n < 65536 \<Longrightarrow> unat (word_of_nat n :: u16) = n"
  by (simp add: unat_of_nat)

lemma length2_conv: "length xs = 2 \<longleftrightarrow> (\<exists>a b. xs = [a, b])"
  by (auto simp: numeral_2_eq_2 length_Suc_conv)

lemma length4_conv: "length xs = 4 \<longleftrightarrow> (\<exists>a b c d. xs = [a, b, c, d])"
  by (auto simp: numeral_eq_Suc length_Suc_conv)

lemma u16_to_le_eval [wire_eval]:
  "u16_to_le w = [word_of_nat (unat w mod 256), word_of_nat (unat w div 256 mod 256)]"
  by (simp add: u16_to_le_def numeral_2_eq_2)

lemma u32_to_le_eval [wire_eval]:
  "u32_to_le w = [word_of_nat (unat w mod 256), word_of_nat (unat w div 256 mod 256),
     word_of_nat (unat w div 65536 mod 256), word_of_nat (unat w div 16777216 mod 256)]"
proof -
  have four: "(4 :: nat) = Suc (Suc (Suc (Suc 0)))" by simp
  show ?thesis unfolding u32_to_le_def four nat_to_le.simps by (simp flip: div_mult2_eq)
qed

lemma u16_of_le_eval [wire_eval]: "u16_of_le [a, b] = word_of_nat (unat a + 256 * unat b)"
  by (simp add: u16_of_le_def)

lemma u32_of_le_eval [wire_eval]:
  "u32_of_le [a, b, c, d] =
     word_of_nat (unat a + 256 * (unat b + 256 * (unat c + 256 * unat d)))"
  by (simp add: u32_of_le_def)

lemma u16_to_leE:
  obtains a b where "u16_to_le w = [a, b]"
  using length2_conv [of "u16_to_le w"] by auto

lemma u32_to_leE:
  obtains a b c d where "u32_to_le w = [a, b, c, d]"
  using length4_conv [of "u32_to_le w"] by auto

section \<open>Slices\<close>

text \<open>\<open>sub_slice a b xs\<close> is Rust's \<open>&xs[a..b]\<close> for \<open>a \<le> b \<le> xs.len()\<close>.\<close>

definition sub_slice :: "nat \<Rightarrow> nat \<Rightarrow> 'a list \<Rightarrow> 'a list" where
  "sub_slice a b xs = take (b - a) (drop a xs)"

lemma length_sub_slice [wire_simps]: "length (sub_slice a b xs) = min (b - a) (length xs - a)"
  by (auto simp: sub_slice_def)

lemma sub_slice_append: "length xs = a \<Longrightarrow> length ys = b - a \<Longrightarrow> sub_slice a b (xs @ ys @ zs) = ys"
  by (simp add: sub_slice_def)

lemma sub_slice_join:
  "a \<le> b \<Longrightarrow> b \<le> c \<Longrightarrow> sub_slice a b xs @ sub_slice b c xs = sub_slice a c xs"
proof -
  assume le: "a \<le> b" "b \<le> c"
  then have "take (c - a) (drop a xs) = take (b - a) (drop a xs) @ take (c - b) (drop (b - a) (drop a xs))"
    by (metis take_add le_add_diff_inverse Nat.add_diff_assoc2)
  with le show ?thesis by (simp add: sub_slice_def add.commute)
qed

lemma sub_slice_whole: "length xs = b \<Longrightarrow> sub_slice 0 b xs = xs"
  by (simp add: sub_slice_def)

section \<open>Hash maps\<close>

type_synonym ('k, 'v) hmap = "('k \<times> 'v) list"

abbreviation hm_wf :: "('k, 'v) hmap \<Rightarrow> bool" where
  "hm_wf m \<equiv> distinct (map fst m)"

abbreviation hm_get :: "('k, 'v) hmap \<Rightarrow> 'k \<Rightarrow> 'v option" where
  "hm_get m k \<equiv> map_of m k"

abbreviation hm_contains :: "('k, 'v) hmap \<Rightarrow> 'k \<Rightarrow> bool" where
  "hm_contains m k \<equiv> k \<in> set (map fst m)"

abbreviation hm_insert :: "'k \<Rightarrow> 'v \<Rightarrow> ('k, 'v) hmap \<Rightarrow> ('k, 'v) hmap" where
  "hm_insert k v m \<equiv> AList.update k v m"

abbreviation hm_remove :: "'k \<Rightarrow> ('k, 'v) hmap \<Rightarrow> ('k, 'v) hmap" where
  "hm_remove k m \<equiv> AList.delete k m"

abbreviation hm_retain :: "('k \<Rightarrow> 'v \<Rightarrow> bool) \<Rightarrow> ('k, 'v) hmap \<Rightarrow> ('k, 'v) hmap" where
  "hm_retain P m \<equiv> filter (\<lambda>(k, v). P k v) m"

lemma hm_contains_get: "hm_contains m k \<longleftrightarrow> hm_get m k \<noteq> None"
  by (simp add: map_of_eq_None_iff)

lemma hm_get_insert [simp]: "hm_get (hm_insert k v m) = (hm_get m)(k \<mapsto> v)"
  by (rule update_conv')

lemma hm_get_remove [simp]: "hm_get (hm_remove k m) = (hm_get m)(k := None)"
  by (rule delete_conv')

lemma hm_wf_insert [simp, wf_intros]: "hm_wf m \<Longrightarrow> hm_wf (hm_insert k v m)"
  by (rule distinct_update)

lemma hm_wf_remove [simp, wf_intros]: "hm_wf m \<Longrightarrow> hm_wf (hm_remove k m)"
  by (rule distinct_delete)

lemma hm_wf_filter [simp, wf_intros]: "hm_wf m \<Longrightarrow> hm_wf (filter P m)"
  by (rule distinct_map_filter)

lemma hm_get_filter:
  "hm_wf m \<Longrightarrow>
   hm_get (filter P m) k = (case hm_get m k of None \<Rightarrow> None | Some v \<Rightarrow> if P (k, v) then Some v else None)"
  by (induction m) (auto split: option.splits simp: map_of_eq_None_iff image_iff dest: map_of_SomeD)

lemma hm_insert_fresh: "\<not> hm_contains m k \<Longrightarrow> hm_insert k v m = m @ [(k, v)]"
  by (induction m) auto

lemma length_hm_insert_fresh: "\<not> hm_contains m k \<Longrightarrow> length (hm_insert k v m) = Suc (length m)"
  by (simp add: hm_insert_fresh)

lemma length_hm_remove:
  "hm_wf m \<Longrightarrow> length (hm_remove k m) = (if hm_contains m k then length m - 1 else length m)"
  by (induction m) (auto simp: delete_id Suc_pred' dest: length_pos_if_in_set)

lemma set_hm_remove: "set (hm_remove k m) = {p \<in> set m. fst p \<noteq> k}"
  by (auto simp: AList.delete_eq)

section \<open>Decimal text\<close>

text \<open>Decimal digits, as \<open>Display\<close> prints an unsigned integer.\<close>

fun decimal :: "nat \<Rightarrow> string" where
  "decimal n = (if n < 10 then [char_of (48 + n)] else decimal (n div 10) @ [char_of (48 + n mod 10)])"

declare decimal.simps [simp del]

definition is_digit :: "char \<Rightarrow> bool" where
  "is_digit c \<longleftrightarrow> 48 \<le> (of_char c :: nat) \<and> (of_char c :: nat) \<le> 57"

definition decimal_value :: "string \<Rightarrow> nat" where
  "decimal_value s = foldl (\<lambda>n c. n * 10 + (of_char c - 48)) 0 s"

text \<open>\<open>u64::from_str\<close>: an optional plus sign, then digits without overflow.\<close>

definition parse_u64 :: "string \<Rightarrow> u64 option" where
  "parse_u64 s =
     (let ds = (case s of c # cs \<Rightarrow> if c = CHR ''+'' then cs else s | [] \<Rightarrow> [])
      in if ds = [] \<or> \<not> list_all is_digit ds \<or> decimal_value ds \<ge> 2 ^ 64 then None
         else Some (word_of_nat (decimal_value ds)))"

lemma digit_value: "n < 10 \<Longrightarrow> (of_char (char_of (48 + n)) :: nat) = 48 + n"
  by simp

lemma decimal_digits: "list_all is_digit (decimal n) \<and> decimal n \<noteq> [] \<and> hd (decimal n) \<noteq> CHR ''+''"
proof (induction n rule: decimal.induct)
  case (1 n)
  have d: "is_digit (char_of (48 + k))" "char_of (48 + k) \<noteq> CHR ''+''" if "k < 10" for k :: nat
  proof -
    have "of_char (char_of (48 + k) :: char) = 48 + k" using that by (rule digit_value)
    then show "is_digit (char_of (48 + k))" using that by (simp add: is_digit_def)
    have "of_char (char_of (48 + k) :: char) \<noteq> (of_char CHR ''+'' :: nat)" using that by simp
    then show "char_of (48 + k) \<noteq> CHR ''+''" by metis
  qed
  show ?case
  proof (cases "n < 10")
    case True
    then show ?thesis using d [OF True] by (subst (1 2 3) decimal.simps) simp
  next
    case False
    then show ?thesis using "1.IH" [OF False] d [of "n mod 10"] by (subst (1 2 3) decimal.simps) simp
  qed
qed

lemma decimal_value: "decimal_value (decimal n) = n"
proof (induction n rule: decimal.induct)
  case (1 n)
  show ?case
  proof (cases "n < 10")
    case True
    then show ?thesis using digit_value [OF True] by (subst decimal.simps) (simp add: decimal_value_def)
  next
    case False
    have "(of_char (char_of (48 + n mod 10) :: char) :: nat) = 48 + n mod 10" by (rule digit_value) simp
    then show ?thesis using "1.IH" [OF False] False by (subst decimal.simps) (simp add: decimal_value_def)
  qed
qed

lemma parse_u64_decimal: "parse_u64 (decimal (unat w)) = Some w"
proof -
  obtain c cs where d: "decimal (unat w) = c # cs" "c \<noteq> CHR ''+''"
    using decimal_digits [of "unat w"] by (cases "decimal (unat w)") auto
  have "unat w < 2 ^ 64" using unat_bound [of w] by simp
  then show ?thesis
    using decimal_digits [of "unat w"] decimal_value [of "unat w"] d unfolding parse_u64_def Let_def by (simp add: not_le [symmetric])
qed

lemma decimal_inj [simp]: "decimal m = decimal n \<longleftrightarrow> m = n"
  by (metis decimal_value)

end
