(* ===== verification/Drift_Error.thy ===== *)
theory Drift_Error
  imports Drift_Prelude
begin

text \<open>
  The error type and the protocol version of \<open>src/core/src/drift/mod.rs\<close>, and the contract
  that the wire formats of the Drift protocol share: a codec whose decoder inverts its encoder
  on admissible values, and a canonical codec, whose decoder accepts only what its encoder
  produces.
\<close>

section \<open>Drift errors\<close>

datatype drift_error =
    BufferTooShort nat nat \<comment> \<open>need, got\<close>
  | InvalidEnvelopeType u8
  | CiphertextTooLarge nat
  | InvalidVersion u8
  | CrcMismatch
  | DecompressionFailed string
  | InvalidFrameType u8
  | Timeout
  | IoError string

definition DRIFT_VERSION :: u8 where
  "DRIFT_VERSION = 1"

section \<open>The contract of a wire format\<close>

locale wire_codec =
  fixes enc :: "'a \<Rightarrow> 'e + bytes"
    and dec :: "bytes \<Rightarrow> 'e + 'a"
    and admissible :: "'a \<Rightarrow> bool"
  assumes dec_enc_ex: "admissible x \<Longrightarrow> \<exists>bs. enc x = Inr bs \<and> dec bs = Inr x"
begin

lemma dec_enc: "admissible x \<Longrightarrow> enc x = Inr bs \<Longrightarrow> dec bs = Inr x"
  using dec_enc_ex [of x] by auto

lemma enc_total: "admissible x \<Longrightarrow> is_ok (enc x)"
  using dec_enc_ex [of x] by auto

lemma enc_inject:
  assumes "admissible x" and "admissible y" and "enc x = enc y"
  shows "x = y"
  using dec_enc_ex [OF assms(1)] dec_enc_ex [OF assms(2)] assms(3) by auto

end

locale canonical_codec = wire_codec +
  assumes dec_sound: "dec bs = Inr x \<Longrightarrow> admissible x \<and> enc x = Inr bs"
begin

lemma dec_inject: "dec bs = Inr x \<Longrightarrow> dec bs' = Inr x \<Longrightarrow> bs = bs'"
  using dec_sound [of bs x] dec_sound [of bs' x] by simp

lemma enc_dec_iff: "admissible x \<and> enc x = Inr bs \<longleftrightarrow> dec bs = Inr x"
  using dec_sound dec_enc by blast

end

end
