(* ===== verification/Drift_Frame.thy ===== *)
theory Drift_Frame
  imports Drift_Error
begin

text \<open>
  The transport frame of \<open>src/core/src/drift/frame.rs\<close>: a two-byte length, a type byte, the
  payload and a CRC32. The checksum function of the crate \<open>crc32fast\<close> is the parameter
  \<open>crc32\<close> of the definitions; nothing is assumed of it. The asynchronous reader is the byte
  string that arrives before the read deadline together with what follows it: end of stream,
  or silence until the deadline.
\<close>

section \<open>Frame types\<close>

datatype frame_type = Data | SyncReq | SyncResp | Ping | PeerInfo

fun frame_type_as_u8 :: "frame_type \<Rightarrow> u8" where
  "frame_type_as_u8 Data = 0x01"
| "frame_type_as_u8 SyncReq = 0x02"
| "frame_type_as_u8 SyncResp = 0x03"
| "frame_type_as_u8 Ping = 0x04"
| "frame_type_as_u8 PeerInfo = 0x05"

definition frame_type_from_u8 :: "u8 \<Rightarrow> drift_error + frame_type" where
  "frame_type_from_u8 v =
     (if v = 0x01 then Inr Data
      else if v = 0x02 then Inr SyncReq
      else if v = 0x03 then Inr SyncResp
      else if v = 0x04 then Inr Ping
      else if v = 0x05 then Inr PeerInfo
      else Inl (InvalidFrameType v))"

section \<open>Frames and their wire format\<close>

record drift_frame =
  df_frame_type :: frame_type
  df_payload :: bytes

definition FRAME_MAX_PAYLOAD :: nat where
  "FRAME_MAX_PAYLOAD = 65535"

definition TRANSPORT_OVERHEAD :: nat where
  "TRANSPORT_OVERHEAD = 7"

definition U16_MAX :: nat where
  "U16_MAX = 65535"

text \<open>The part of the frame that the checksum covers: length, type and payload.\<close>

definition frame_body :: "drift_frame \<Rightarrow> bytes" where
  "frame_body f =
     u16_to_le (word_of_nat (1 + length (df_payload f)))
       @ [frame_type_as_u8 (df_frame_type f)] @ df_payload f"

definition frame_to_bytes :: "(bytes \<Rightarrow> u32) \<Rightarrow> drift_frame \<Rightarrow> drift_error + bytes" where
  "frame_to_bytes crc32 f =
     (let payload_len = 1 + length (df_payload f) in
      if payload_len > U16_MAX then Inl (BufferTooShort payload_len U16_MAX)
      else let buf = frame_body f in Inr (buf @ u32_to_le (crc32 buf)))"

definition frame_from_bytes :: "(bytes \<Rightarrow> u32) \<Rightarrow> bytes \<Rightarrow> drift_error + drift_frame" where
  "frame_from_bytes crc32 data =
     (if length data < TRANSPORT_OVERHEAD then Inl (BufferTooShort TRANSPORT_OVERHEAD (length data))
      else
        let len = unat (u16_of_le [data ! 0, data ! 1]) in
        if len > FRAME_MAX_PAYLOAD + 1 then Inl (BufferTooShort FRAME_MAX_PAYLOAD len)
        else
          let expected_total = 2 + len + 4 in
          if length data \<noteq> expected_total then Inl (BufferTooShort expected_total (length data))
          else
            let crc_offset = length data - 4;
                data_to_check = take crc_offset data;
                received_crc = u32_of_le [data ! crc_offset, data ! (crc_offset + 1),
                                          data ! (crc_offset + 2), data ! (crc_offset + 3)]
            in if crc32 data_to_check \<noteq> received_crc then Inl CrcMismatch
               else try_res (frame_type_from_u8 (data ! 2))
                      (\<lambda>ft. Inr \<lparr>df_frame_type = ft, df_payload = sub_slice 3 crc_offset data\<rparr>))"

section \<open>Reading a frame from a stream\<close>

datatype stream_end =
    Eof string \<comment> \<open>the peer closed the stream; the text of the I/O error\<close>
  | Stalled \<comment> \<open>nothing more arrives before the deadline\<close>

type_synonym reader = "bytes \<times> stream_end"

fun read_exact :: "nat \<Rightarrow> reader \<Rightarrow> drift_error + (bytes \<times> reader)" where
  "read_exact n (bs, e) =
     (if n \<le> length bs then Inr (take n bs, (drop n bs, e))
      else (case e of Eof msg \<Rightarrow> Inl (IoError msg) | Stalled \<Rightarrow> Inl Timeout))"

definition read_with_timeout ::
  "(bytes \<Rightarrow> u32) \<Rightarrow> reader \<Rightarrow> drift_error + (drift_frame \<times> reader)" where
  "read_with_timeout crc32 reader =
     try_res (read_exact 2 reader) (\<lambda>(len_buf, reader1).
       let len = unat (u16_of_le len_buf) in
       if len > FRAME_MAX_PAYLOAD + 1 then Inl (BufferTooShort FRAME_MAX_PAYLOAD len)
       else try_res (read_exact (len + 4) reader1) (\<lambda>(rest, reader2).
         try_res (frame_from_bytes crc32 (len_buf @ rest)) (\<lambda>f. Inr (f, reader2))))"

section \<open>Frame types round trip\<close>

lemma frame_type_roundtrip [simp, wire_simps]: "frame_type_from_u8 (frame_type_as_u8 t) = Inr t"
  by (cases t) (simp_all add: frame_type_from_u8_def)

lemma frame_type_from_u8_Inr:
  "frame_type_from_u8 v = Inr t \<longleftrightarrow> v = frame_type_as_u8 t"
  by (cases t) (auto simp: frame_type_from_u8_def)

section \<open>Encoding\<close>

definition frame_fits :: "drift_frame \<Rightarrow> bool" where
  "frame_fits f \<longleftrightarrow> length (df_payload f) < U16_MAX"

lemma length_frame_body: "length (frame_body f) = 3 + length (df_payload f)"
  by (simp add: frame_body_def)

lemma frame_to_bytes_fits:
  "frame_fits f \<Longrightarrow>
   frame_to_bytes crc32 f = Inr (frame_body f @ u32_to_le (crc32 (frame_body f)))"
  by (simp add: frame_to_bytes_def frame_fits_def Let_def)

lemma frame_to_bytes_too_large:
  "\<not> frame_fits f \<Longrightarrow>
   frame_to_bytes crc32 f = Inl (BufferTooShort (1 + length (df_payload f)) U16_MAX)"
  by (simp add: frame_to_bytes_def frame_fits_def Let_def)

lemma frame_len_field:
  "frame_fits f \<Longrightarrow> unat (word_of_nat (1 + length (df_payload f)) :: u16) = 1 + length (df_payload f)"
  by (rule unat_u16_of_nat) (simp add: frame_fits_def U16_MAX_def)

section \<open>Decoding\<close>

text \<open>
  The decoder accepts exactly the encodings: a frame that fits, followed by its checksum.
\<close>

lemma frame_from_bytes_encoded:
  assumes "frame_fits f"
  shows "frame_from_bytes crc32 (frame_body f @ u32_to_le (crc32 (frame_body f))) = Inr f"
proof -
  let ?len = "word_of_nat (1 + length (df_payload f)) :: u16"
  obtain l0 l1 where l: "u16_to_le ?len = [l0, l1]"
    by (rule u16_to_leE)
  obtain c0 c1 c2 c3 where c: "u32_to_le (crc32 (frame_body f)) = [c0, c1, c2, c3]"
    by (rule u32_to_leE)
  have body: "frame_body f = l0 # l1 # frame_type_as_u8 (df_frame_type f) # df_payload f"
    using l by (simp add: frame_body_def)
  have len: "u16_of_le [l0, l1] = ?len"
    by (simp only: l [symmetric] u16_le_roundtrip)
  have crc: "u32_of_le [c0, c1, c2, c3] = crc32 (frame_body f)"
    by (simp only: c [symmetric] u32_le_roundtrip)
  have small: "length (df_payload f) < 65535"
    using assms by (simp add: frame_fits_def U16_MAX_def)
  show ?thesis
    unfolding frame_from_bytes_def c
    using crc small frame_len_field [OF assms]
    by (simp add: body len Let_def TRANSPORT_OVERHEAD_def FRAME_MAX_PAYLOAD_def nth_append
        sub_slice_def del: of_nat_Suc)
qed

lemma frame_from_bytes_accepts:
  assumes "frame_from_bytes crc32 data = Inr f"
  shows "frame_fits f" and "data = frame_body f @ u32_to_le (crc32 (frame_body f))"
proof -
  have len7: "7 \<le> length data"
    using assms by (auto simp: frame_from_bytes_def TRANSPORT_OVERHEAD_def split: if_splits)
  define n where "n = length data - 7"
  obtain l0 l1 t rest where d: "data = l0 # l1 # t # rest"
    using len7 by (cases data; cases "tl data"; cases "tl (tl data)") auto
  have rest: "length rest = n + 4" using d len7 by (simp add: n_def)
  define p where "p = take n rest"
  obtain c0 c1 c2 c3 where c: "drop n rest = [c0, c1, c2, c3]"
    using rest length4_conv [of "drop n rest"] by auto
  have data: "data = l0 # l1 # t # p @ [c0, c1, c2, c3]" and pn: "length p = n"
    using d c append_take_drop_id [of n rest] rest by (auto simp: p_def)
  have len: "unat (u16_of_le [l0, l1]) = n + 1"
    using assms pn unfolding frame_from_bytes_def data
    by (simp add: Let_def TRANSPORT_OVERHEAD_def split: if_splits)
  have acc: "crc32 (l0 # l1 # t # p) = u32_of_le [c0, c1, c2, c3]"
    "frame_type_from_u8 t = Inr (df_frame_type f)" "df_payload f = p"
    using assms pn len unfolding frame_from_bytes_def data
    by (auto simp: Let_def TRANSPORT_OVERHEAD_def nth_append sub_slice_def split: if_splits)
  have "n + 1 < 65536" using len unat_bound [of "u16_of_le [l0, l1]"] by simp
  with acc(3) pn show fits: "frame_fits f" by (simp add: frame_fits_def U16_MAX_def)
  have "word_of_nat (1 + length (df_payload f)) = u16_of_le [l0, l1]"
    unfolding acc(3) pn by (simp only: add.commute [of 1] len [symmetric] of_nat_unat ucast_id)
  then have "frame_body f = l0 # l1 # t # p"
    using acc(2,3) by (simp add: frame_body_def u16_le_inverse frame_type_from_u8_Inr)
  moreover have "u32_to_le (u32_of_le [c0, c1, c2, c3]) = [c0, c1, c2, c3]"
    by (rule u32_le_inverse) simp
  ultimately show "data = frame_body f @ u32_to_le (crc32 (frame_body f))"
    using acc(1) data by simp
qed

interpretation frame_codec: canonical_codec "frame_to_bytes crc32" "frame_from_bytes crc32" frame_fits
  for crc32
proof unfold_locales
  show "\<exists>bs. frame_to_bytes crc32 f = Inr bs \<and> frame_from_bytes crc32 bs = Inr f"
    if "frame_fits f" for f
    using that by (simp add: frame_to_bytes_fits frame_from_bytes_encoded)
  show "frame_fits f \<and> frame_to_bytes crc32 f = Inr bs" if "frame_from_bytes crc32 bs = Inr f" for bs f
    using frame_from_bytes_accepts [OF that] by (simp add: frame_to_bytes_fits)
qed

section \<open>Reading\<close>

text \<open>
  An encoded frame is a two-byte length field and a rest of exactly that length plus the
  four checksum bytes, which is how the reader cuts the stream.
\<close>

lemma frame_to_bytes_cut:
  assumes "frame_to_bytes crc32 f = Inr b"
  obtains len rest where "b = len @ rest" and "length len = 2"
    and "length rest = unat (u16_of_le len) + 4" and "frame_from_bytes crc32 (len @ rest) = Inr f"
proof -
  have fits: "frame_fits f"
    using assms frame_to_bytes_too_large [of f crc32] by (cases "frame_fits f") auto
  let ?len = "u16_to_le (word_of_nat (1 + length (df_payload f)))"
  let ?rest = "frame_type_as_u8 (df_frame_type f) # df_payload f @ u32_to_le (crc32 (frame_body f))"
  have b: "b = ?len @ ?rest"
    using assms by (simp add: frame_to_bytes_fits [OF fits]) (simp add: frame_body_def)
  have "length ?rest = unat (u16_of_le ?len) + 4"
    using frame_len_field [OF fits] by (simp only: u16_le_roundtrip) simp
  moreover have "frame_from_bytes crc32 b = Inr f"
    using frame_codec.dec_enc [OF fits assms] .
  ultimately show thesis using that [of ?len ?rest] b by simp
qed

lemma read_with_timeout_cut:
  assumes "length len = 2" and "length rest = unat (u16_of_le len) + 4"
    and "frame_from_bytes crc32 (len @ rest) = Inr f"
  shows "read_with_timeout crc32 (len @ rest @ later, e) = Inr (f, (later, e))"
proof -
  have "unat (u16_of_le len) \<le> FRAME_MAX_PAYLOAD + 1"
    using unat_bound [of "u16_of_le len"] by (simp add: FRAME_MAX_PAYLOAD_def)
  with assms show ?thesis by (simp add: read_with_timeout_def Let_def)
qed

lemma read_with_timeout_short:
  assumes "length len = 2" and "length rest = unat (u16_of_le len) + 4"
    and "k < length (len @ rest)"
  shows "read_with_timeout crc32 (take k (len @ rest), e) =
           (case e of Eof msg \<Rightarrow> Inl (IoError msg) | Stalled \<Rightarrow> Inl Timeout)"
proof (cases "k < 2")
  case True
  with assms(1) show ?thesis by (cases e) (simp_all add: read_with_timeout_def)
next
  case False
  have "unat (u16_of_le len) \<le> FRAME_MAX_PAYLOAD + 1"
    using unat_bound [of "u16_of_le len"] by (simp add: FRAME_MAX_PAYLOAD_def)
  moreover have "\<not> unat (u16_of_le len) + 4 \<le> k - 2" using False assms by simp
  ultimately show ?thesis
    using False assms by (cases e) (simp_all add: read_with_timeout_def Let_def)
qed

section \<open>Properties\<close>

text \<open>
  C24. The frame codec is exact: \<open>from_bytes\<close> returns a frame for a byte string if and only
  if the frame's payload fits the 16-bit length field and \<open>to_bytes\<close> of that frame is this
  byte string. So every frame that can be sent is received unchanged, and no two byte
  strings are accepted as the same frame.
\<close>

theorem frame_codec_exact:
  "frame_from_bytes crc32 bs = Inr f \<longleftrightarrow>
     length (df_payload f) < U16_MAX \<and> frame_to_bytes crc32 f = Inr bs"
  using frame_codec.enc_dec_iff [of f crc32 bs] by (simp add: frame_fits_def)

text \<open>
  C14. Reading from a stream: when the bytes of an encoded frame have arrived, \<open>read_with_timeout\<close>
  returns that frame and leaves exactly the bytes behind it in the stream, whatever they are;
  when only a proper prefix has arrived it reports \<open>Timeout\<close> if the peer stays silent until the
  deadline and the I/O error if the peer closes the stream, and never a frame.
\<close>

theorem read_with_timeout_delimits:
  assumes "frame_to_bytes crc32 f = Inr b"
  shows "read_with_timeout crc32 (b @ later, e) = Inr (f, (later, e))
    \<and> (\<forall>k < length b. read_with_timeout crc32 (take k b, Stalled) = Inl Timeout
         \<and> read_with_timeout crc32 (take k b, Eof msg) = Inl (IoError msg))"
proof -
  obtain len rest where b: "b = len @ rest" and cut: "length len = 2"
    "length rest = unat (u16_of_le len) + 4" "frame_from_bytes crc32 (len @ rest) = Inr f"
    using frame_to_bytes_cut [OF assms] .
  show ?thesis
    using read_with_timeout_cut [OF cut] read_with_timeout_short [OF cut(1,2)] by (simp add: b)
qed

theorem read_with_timeout_delimits_witness:
  "read_with_timeout (\<lambda>_. 7) ([2, 0, 4, 9, 7, 0, 0, 0, 5], Stalled)
     = Inr (\<lparr>df_frame_type = Ping, df_payload = [9]\<rparr>, ([5], Stalled))
   \<and> read_with_timeout (\<lambda>_. 7) ([2, 0, 4], Stalled) = Inl Timeout
   \<and> read_with_timeout (\<lambda>_. 7) ([2, 0, 4], Eof ''early eof'') = Inl (IoError ''early eof'')"
proof -
  have h: "frame_to_bytes (\<lambda>_. 7) \<lparr>df_frame_type = Ping, df_payload = [9]\<rparr> = Inr [2, 0, 4, 9, 7, 0, 0, 0]"
    by (simp add: frame_to_bytes_def frame_body_def U16_MAX_def Let_def wire_eval)
  note r = read_with_timeout_delimits [OF h, of "[5]" Stalled "''early eof''"]
  from r [THEN conjunct2, rule_format, of 3] r [THEN conjunct1] show ?thesis
    by (simp add: numeral_3_eq_3)
qed

end
