(* ===== verification/Drift_Envelope.thy ===== *)
theory Drift_Envelope
  imports Drift_Error
begin

text \<open>
  The Drift envelope of \<open>src/core/src/drift/envelope.rs\<close>, the compression wrapper of
  \<open>compress.rs\<close> and the legacy envelope of \<open>src/core/src/message/types.rs\<close>. Parameters stand
  for the crates the code calls: \<open>lz4_compress\<close> and \<open>lz4_decompress\<close> for \<open>lz4_flex\<close>,
  \<open>blake3\<close> for the hash (32 bytes), \<open>ed25519_sign\<close> for the signature of a digest under the
  signing key, \<open>parse_uuid\<close> for \<open>Uuid::parse_str\<close>. Arrays \<open>[u8; n]\<close> are byte lists; the
  predicate \<open>wf_envelope\<close> states their lengths.
\<close>

section \<open>Compression\<close>

definition compress :: "(bytes \<Rightarrow> bytes) \<Rightarrow> bytes \<Rightarrow> bytes" where
  "compress lz4_compress data = lz4_compress data"

definition decompress :: "(bytes \<Rightarrow> string + bytes) \<Rightarrow> bytes \<Rightarrow> drift_error + bytes" where
  "decompress lz4_decompress data =
     (case lz4_decompress data of Inl e \<Rightarrow> Inl (DecompressionFailed e) | Inr bs \<Rightarrow> Inr bs)"

section \<open>Envelope types\<close>

datatype envelope_type =
    EncryptedMessage | DeliveryReceipt | SyncRequest | SyncResponseType
  | PeerAnnouncement | RouteAdvertisement | CoverTraffic | OnionMessage

fun envelope_type_as_u8 :: "envelope_type \<Rightarrow> u8" where
  "envelope_type_as_u8 EncryptedMessage = 0x01"
| "envelope_type_as_u8 DeliveryReceipt = 0x02"
| "envelope_type_as_u8 SyncRequest = 0x03"
| "envelope_type_as_u8 SyncResponseType = 0x04"
| "envelope_type_as_u8 PeerAnnouncement = 0x05"
| "envelope_type_as_u8 RouteAdvertisement = 0x06"
| "envelope_type_as_u8 CoverTraffic = 0x07"
| "envelope_type_as_u8 OnionMessage = 0x08"

definition envelope_type_from_u8 :: "u8 \<Rightarrow> drift_error + envelope_type" where
  "envelope_type_from_u8 v =
     (if v = 0x01 then Inr EncryptedMessage
      else if v = 0x02 then Inr DeliveryReceipt
      else if v = 0x03 then Inr SyncRequest
      else if v = 0x04 then Inr SyncResponseType
      else if v = 0x05 then Inr PeerAnnouncement
      else if v = 0x06 then Inr RouteAdvertisement
      else if v = 0x07 then Inr CoverTraffic
      else if v = 0x08 then Inr OnionMessage
      else Inl (InvalidEnvelopeType v))"

section \<open>The envelope\<close>

definition COMPRESSION_THRESHOLD :: nat where
  "COMPRESSION_THRESHOLD = 256"

definition COMPRESSION_FLAG :: u8 where
  "COMPRESSION_FLAG = 0x80"

definition FIXED_OVERHEAD :: nat where
  "FIXED_OVERHEAD = 187"

definition MAX_CIPHERTEXT :: nat where
  "MAX_CIPHERTEXT = 65535"

record drift_envelope =
  de_version :: u8
  de_envelope_type :: envelope_type
  de_compressed :: bool
  de_message_id :: bytes
  de_recipient_hint :: bytes
  de_created_at :: u32
  de_ttl_expiry :: u32
  de_hop_count :: u8
  de_priority :: u8
  de_sender_public_key :: bytes
  de_ephemeral_public_key :: bytes
  de_nonce :: bytes
  de_signature :: bytes
  de_ciphertext :: bytes
  de_ratchet_dh_public :: "bytes option"
  de_ratchet_message_number :: "u32 option"

text \<open>The lengths of the fixed-size arrays, which Rust's types guarantee.\<close>

definition wf_envelope :: "drift_envelope \<Rightarrow> bool" where
  "wf_envelope e \<longleftrightarrow>
     length (de_message_id e) = 16 \<and> length (de_recipient_hint e) = 4 \<and>
     length (de_sender_public_key e) = 32 \<and> length (de_ephemeral_public_key e) = 32 \<and>
     length (de_nonce e) = 24 \<and> length (de_signature e) = 64 \<and>
     (\<forall>k. de_ratchet_dh_public e = Some k \<longrightarrow> length k = 32)"

definition type_byte :: "drift_envelope \<Rightarrow> u8" where
  "type_byte e = envelope_type_as_u8 (de_envelope_type e) OR (if de_compressed e then COMPRESSION_FLAG else 0)"

definition unwrap_or :: "'a option \<Rightarrow> 'a \<Rightarrow> 'a" where
  "unwrap_or x d = (case x of None \<Rightarrow> d | Some v \<Rightarrow> v)"

text \<open>The optional ratchet extension at the end of the wire format.\<close>

definition ratchet_bytes :: "drift_envelope \<Rightarrow> bytes" where
  "ratchet_bytes e =
     (case de_ratchet_dh_public e of
        Some dh_public \<Rightarrow> 0x01 # dh_public @ u32_to_le (unwrap_or (de_ratchet_message_number e) 0)
      | None \<Rightarrow> [0x00])"

definition env_to_bytes :: "(bytes \<Rightarrow> bytes) \<Rightarrow> drift_envelope \<Rightarrow> drift_error + bytes" where
  "env_to_bytes lz4_compress e =
     (let ciphertext = (if de_compressed e then compress lz4_compress (de_ciphertext e) else de_ciphertext e) in
      if length ciphertext > MAX_CIPHERTEXT then Inl (CiphertextTooLarge (length ciphertext))
      else Inr ([de_version e] @ [type_byte e] @ de_message_id e
        @ de_recipient_hint e @ u32_to_le (de_created_at e) @ u32_to_le (de_ttl_expiry e)
        @ [de_hop_count e] @ [de_priority e]
        @ de_sender_public_key e @ de_ephemeral_public_key e @ de_nonce e @ de_signature e
        @ u16_to_le (word_of_nat (length ciphertext)) @ ciphertext @ ratchet_bytes e))"

definition ratchet_from_bytes ::
  "nat \<Rightarrow> bytes \<Rightarrow> drift_error + (bytes option \<times> u32 option)" where
  "ratchet_from_bytes offset data =
     (if offset < length data then
        if data ! offset = 0x01 then
          if offset + 1 + 32 + 4 \<le> length data then
            Inr (Some (sub_slice (offset + 1) (offset + 33) data),
                 Some (u32_of_le (sub_slice (offset + 33) (offset + 37) data)))
          else Inl (BufferTooShort (offset + 1 + 32 + 4) (length data))
        else Inr (None, None)
      else Inr (None, None))"

definition env_from_bytes ::
  "(bytes \<Rightarrow> string + bytes) \<Rightarrow> bytes \<Rightarrow> drift_error + drift_envelope" where
  "env_from_bytes lz4_decompress data =
     (if length data < FIXED_OVERHEAD then Inl (BufferTooShort FIXED_OVERHEAD (length data))
      else if data ! 0 \<noteq> DRIFT_VERSION then Inl (InvalidVersion (data ! 0))
      else
        let tb = data ! 1; compressed = (tb AND COMPRESSION_FLAG \<noteq> 0) in
        try_res (envelope_type_from_u8 (tb AND NOT COMPRESSION_FLAG)) (\<lambda>envelope_type.
          let ciphertext_len = unat (u16_of_le (sub_slice 184 186 data)) in
          if length data < 186 + ciphertext_len
          then Inl (BufferTooShort (186 + ciphertext_len) (length data))
          else
            let body = sub_slice 186 (186 + ciphertext_len) data in
            try_res (if compressed then decompress lz4_decompress body else Inr body) (\<lambda>ciphertext.
              try_res (ratchet_from_bytes (186 + ciphertext_len) data) (\<lambda>(dh_public, msg_num).
                Inr \<lparr>de_version = data ! 0, de_envelope_type = envelope_type,
                     de_compressed = compressed,
                     de_message_id = sub_slice 2 18 data,
                     de_recipient_hint = sub_slice 18 22 data,
                     de_created_at = u32_of_le (sub_slice 22 26 data),
                     de_ttl_expiry = u32_of_le (sub_slice 26 30 data),
                     de_hop_count = data ! 30, de_priority = data ! 31,
                     de_sender_public_key = sub_slice 32 64 data,
                     de_ephemeral_public_key = sub_slice 64 96 data,
                     de_nonce = sub_slice 96 120 data,
                     de_signature = sub_slice 120 184 data,
                     de_ciphertext = ciphertext,
                     de_ratchet_dh_public = dh_public,
                     de_ratchet_message_number = msg_num\<rparr>))))"

definition hint_from_public_key :: "(bytes \<Rightarrow> bytes) \<Rightarrow> bytes \<Rightarrow> bytes" where
  "hint_from_public_key blake3 public_key = take 4 (blake3 public_key)"

definition increment_hop :: "drift_envelope \<Rightarrow> drift_envelope" where
  "increment_hop e = e\<lparr>de_hop_count := sat_add (de_hop_count e) 1\<rparr>"

text \<open>\<open>now\<close> is the clock in seconds since the epoch, read as \<open>u64\<close> and cast to \<open>u32\<close>.\<close>

definition env_is_expired :: "u64 \<Rightarrow> drift_envelope \<Rightarrow> bool" where
  "env_is_expired now e = (if de_ttl_expiry e = 0 then False else (ucast now :: u32) > de_ttl_expiry e)"

section \<open>The legacy envelope\<close>

record envelope =
  le_sender_public_key :: bytes
  le_ephemeral_public_key :: bytes
  le_nonce :: bytes
  le_ciphertext :: bytes
  le_ratchet_dh_public :: "bytes option"
  le_ratchet_message_number :: "u32 option"

definition to_legacy_envelope :: "drift_envelope \<Rightarrow> envelope" where
  "to_legacy_envelope e =
     \<lparr>le_sender_public_key = de_sender_public_key e,
      le_ephemeral_public_key = de_ephemeral_public_key e,
      le_nonce = de_nonce e, le_ciphertext = de_ciphertext e,
      le_ratchet_dh_public = de_ratchet_dh_public e,
      le_ratchet_message_number = de_ratchet_message_number e\<rparr>"

text \<open>The bytes that the signature covers: every field but the signature.\<close>

definition signed_bytes :: "drift_envelope \<Rightarrow> bytes" where
  "signed_bytes e =
     [de_version e] @ [type_byte e] @ de_message_id e @ de_recipient_hint e
       @ u32_to_le (de_created_at e) @ u32_to_le (de_ttl_expiry e)
       @ [de_hop_count e] @ [de_priority e]
       @ de_sender_public_key e @ de_ephemeral_public_key e @ de_nonce e
       @ u16_to_le (word_of_nat (length (de_ciphertext e))) @ de_ciphertext e @ ratchet_bytes e"

definition env_sign :: "(bytes \<Rightarrow> bytes) \<Rightarrow> (bytes \<Rightarrow> bytes) \<Rightarrow> drift_envelope \<Rightarrow> bytes" where
  "env_sign blake3 ed25519_sign e = ed25519_sign (blake3 (signed_bytes e))"

text \<open>\<open>try_into\<close> of a vector into an array of length \<open>n\<close>.\<close>

definition try_into :: "nat \<Rightarrow> string \<Rightarrow> bytes \<Rightarrow> drift_error + bytes" where
  "try_into n msg bs = (if length bs = n then Inr bs else Inl (IoError msg))"

definition try_into_opt :: "nat \<Rightarrow> string \<Rightarrow> bytes option \<Rightarrow> drift_error + bytes option" where
  "try_into_opt n msg x =
     (case x of None \<Rightarrow> Inr None | Some bs \<Rightarrow> try_res (try_into n msg bs) (\<lambda>a. Inr (Some a)))"

definition from_legacy_envelope ::
  "(string \<Rightarrow> string + bytes) \<Rightarrow> (bytes \<Rightarrow> bytes) \<Rightarrow> (bytes \<Rightarrow> bytes) \<Rightarrow> u64 \<Rightarrow>
   envelope \<Rightarrow> string \<Rightarrow> bytes \<Rightarrow> drift_error + drift_envelope" where
  "from_legacy_envelope parse_uuid blake3 ed25519_sign now legacy message_id recipient_public_key =
     try_res (case parse_uuid message_id of
                Inl e \<Rightarrow> Inl (IoError (''Invalid message ID: '' @ e)) | Inr u \<Rightarrow> Inr u) (\<lambda>message_id_bytes.
     let recipient_hint = hint_from_public_key blake3 recipient_public_key;
         created_at = (ucast now :: u32);
         ttl_expiry = created_at + 604800 in
     try_res (try_into 32 ''Invalid sender public key length'' (le_sender_public_key legacy)) (\<lambda>sender_public_key.
     try_res (try_into 32 ''Invalid ephemeral public key length'' (le_ephemeral_public_key legacy)) (\<lambda>ephemeral_public_key.
     try_res (try_into 24 ''Invalid nonce length'' (le_nonce legacy)) (\<lambda>nonce.
     try_res (try_into_opt 32 ''Invalid ratchet_dh_public length'' (le_ratchet_dh_public legacy)) (\<lambda>ratchet_dh_public.
     let drift_env =
           \<lparr>de_version = DRIFT_VERSION, de_envelope_type = EncryptedMessage,
            de_compressed = (length (le_ciphertext legacy) > COMPRESSION_THRESHOLD),
            de_message_id = message_id_bytes, de_recipient_hint = recipient_hint,
            de_created_at = created_at, de_ttl_expiry = ttl_expiry,
            de_hop_count = 0, de_priority = 128,
            de_sender_public_key = sender_public_key,
            de_ephemeral_public_key = ephemeral_public_key, de_nonce = nonce,
            de_signature = replicate 64 0, de_ciphertext = le_ciphertext legacy,
            de_ratchet_dh_public = ratchet_dh_public,
            de_ratchet_message_number = le_ratchet_message_number legacy\<rparr>
     in Inr (drift_env\<lparr>de_signature := env_sign blake3 ed25519_sign drift_env\<rparr>))))))"

section \<open>Admissible envelopes\<close>

text \<open>
  What the wire format can carry: both ratchet fields or none, the current version, a ciphertext
  that fits after compression, and a compression crate that inverts itself on this ciphertext.
\<close>

definition ratchet_consistent :: "drift_envelope \<Rightarrow> bool" where
  "ratchet_consistent e \<longleftrightarrow>
     (de_ratchet_dh_public e = None \<longleftrightarrow> de_ratchet_message_number e = None)"

definition wire_ciphertext :: "(bytes \<Rightarrow> bytes) \<Rightarrow> drift_envelope \<Rightarrow> bytes" where
  "wire_ciphertext lz4_compress e =
     (if de_compressed e then compress lz4_compress (de_ciphertext e) else de_ciphertext e)"

definition env_admissible ::
  "(bytes \<Rightarrow> bytes) \<Rightarrow> (bytes \<Rightarrow> string + bytes) \<Rightarrow> drift_envelope \<Rightarrow> bool" where
  "env_admissible lz4_compress lz4_decompress e \<longleftrightarrow>
     wf_envelope e \<and> ratchet_consistent e \<and> de_version e = DRIFT_VERSION \<and>
     length (wire_ciphertext lz4_compress e) \<le> MAX_CIPHERTEXT \<and>
     (de_compressed e \<longrightarrow> lz4_decompress (lz4_compress (de_ciphertext e)) = Inr (de_ciphertext e))"

definition sample_envelope :: drift_envelope where
  "sample_envelope =
     \<lparr>de_version = 1, de_envelope_type = EncryptedMessage, de_compressed = True,
      de_message_id = replicate 16 7, de_recipient_hint = [1, 2, 3, 4],
      de_created_at = 1000, de_ttl_expiry = 2000, de_hop_count = 3, de_priority = 128,
      de_sender_public_key = replicate 32 5, de_ephemeral_public_key = replicate 32 6,
      de_nonce = replicate 24 9, de_signature = replicate 64 8, de_ciphertext = [10, 11, 12],
      de_ratchet_dh_public = Some (replicate 32 4), de_ratchet_message_number = Some 42\<rparr>"

definition sample_legacy :: envelope where
  "sample_legacy =
     \<lparr>le_sender_public_key = replicate 32 5, le_ephemeral_public_key = replicate 32 6,
      le_nonce = replicate 24 9, le_ciphertext = [10, 11, 12],
      le_ratchet_dh_public = Some (replicate 32 4), le_ratchet_message_number = Some 42\<rparr>"

section \<open>Layout\<close>


lemma type_byte_roundtrip:
  "envelope_type_from_u8 (type_byte e AND NOT COMPRESSION_FLAG) = Inr (de_envelope_type e)"
  "type_byte e AND COMPRESSION_FLAG \<noteq> 0 \<longleftrightarrow> de_compressed e"
  by (cases "de_envelope_type e"; cases "de_compressed e";
      simp add: type_byte_def COMPRESSION_FLAG_def envelope_type_from_u8_def)+

lemma envelope_layout:
  assumes "length mid = 16" "length hint = 4" "length ca = 4" "length ttl = 4" "length spk = 32"
    "length epk = 32" "length nonce = 24" "length sig = 64" "length len = 2"
    and data: "data = [v] @ [t] @ mid @ hint @ ca @ ttl @ [h] @ [p] @ spk @ epk @ nonce @ sig @ len @ rest"
  shows "length data = 186 + length rest" "data ! 0 = v" "data ! 1 = t"
    "sub_slice 2 18 data = mid" "sub_slice 18 22 data = hint" "sub_slice 22 26 data = ca"
    "sub_slice 26 30 data = ttl" "data ! 30 = h" "data ! 31 = p" "sub_slice 32 64 data = spk"
    "sub_slice 64 96 data = epk" "sub_slice 96 120 data = nonce" "sub_slice 120 184 data = sig"
    "sub_slice 184 186 data = len" "drop 186 data = rest"
  using assms(1-9) unfolding data
  by (simp_all add: sub_slice_def nth_append)


lemma ratchet_roundtrip:
  assumes "wf_envelope e" and "ratchet_consistent e" and "drop offset data = ratchet_bytes e"
  shows "ratchet_from_bytes offset data =
           Inr (de_ratchet_dh_public e, de_ratchet_message_number e)"
proof (cases "de_ratchet_dh_public e")
  case None
  then have d: "drop offset data = [0]" using assms(3) by (simp add: ratchet_bytes_def)
  then have "offset < length data" by (cases "offset < length data") auto
  with d None assms(2) show ?thesis
    by (simp add: ratchet_from_bytes_def ratchet_consistent_def hd_drop_conv_nth [symmetric])
next
  case (Some k)
  then obtain n where n: "de_ratchet_message_number e = Some n" and k: "length k = 32"
    using assms(1,2) by (auto simp: ratchet_consistent_def wf_envelope_def)
  have d: "drop offset data = 1 # k @ u32_to_le n"
    using assms(3) Some n by (simp add: ratchet_bytes_def unwrap_or_def)
  have len: "offset + 37 = length data"
    using arg_cong [OF d, of length] k by simp
  have "data ! offset = 1"
    using d len by (simp add: hd_drop_conv_nth [symmetric])
  moreover have "sub_slice (offset + 1) (offset + 33) data = k"
    using arg_cong [OF d, of "drop 1"] k by (simp add: sub_slice_def add.commute)
  moreover have "sub_slice (offset + 33) (offset + 37) data = u32_to_le n"
    using arg_cong [OF d, of "drop 33"] k by (simp add: sub_slice_def add.commute)
  ultimately show ?thesis
    using Some n len by (simp add: ratchet_from_bytes_def)
qed

lemma env_roundtrip:
  assumes "env_admissible lz4_compress lz4_decompress e"
    and "env_to_bytes lz4_compress e = Inr data"
  shows "env_from_bytes lz4_decompress data = Inr e"
proof -
  let ?ct = "wire_ciphertext lz4_compress e"
  have adm: "wf_envelope e" "ratchet_consistent e" "de_version e = DRIFT_VERSION"
    "length ?ct < 65536"
    "de_compressed e \<Longrightarrow> lz4_decompress (lz4_compress (de_ciphertext e)) = Inr (de_ciphertext e)"
    using assms(1) by (auto simp: env_admissible_def MAX_CIPHERTEXT_def)
  have data: "data = [de_version e] @ [type_byte e] @ de_message_id e
        @ de_recipient_hint e @ u32_to_le (de_created_at e) @ u32_to_le (de_ttl_expiry e)
        @ [de_hop_count e] @ [de_priority e]
        @ de_sender_public_key e @ de_ephemeral_public_key e @ de_nonce e @ de_signature e
        @ u16_to_le (word_of_nat (length ?ct)) @ (?ct @ ratchet_bytes e)"
    using assms(2) by (auto simp: env_to_bytes_def wire_ciphertext_def Let_def split: if_splits)
  have wf: "length (de_message_id e) = 16" "length (de_recipient_hint e) = 4"
    "length (u32_to_le (de_created_at e)) = 4" "length (u32_to_le (de_ttl_expiry e)) = 4"
    "length (de_sender_public_key e) = 32" "length (de_ephemeral_public_key e) = 32"
    "length (de_nonce e) = 24" "length (de_signature e) = 64"
    "length (u16_to_le (word_of_nat (length ?ct))) = 2"
    using adm(1) by (simp_all add: wf_envelope_def)
  note layout = envelope_layout [OF wf data]
  have pos: "0 < length (ratchet_bytes e)"
    by (simp add: ratchet_bytes_def split: option.split)
  have body: "sub_slice 186 (186 + length ?ct) data = ?ct"
    using layout(15) by (simp add: sub_slice_def)
  have ext: "drop (186 + length ?ct) data = ratchet_bytes e"
    using arg_cong [OF layout(15), of "drop (length ?ct)"] by (simp add: add.commute)
  have ct: "(if de_compressed e then decompress lz4_decompress ?ct else Inr ?ct) = Inr (de_ciphertext e)"
    using adm(5) by (simp add: wire_ciphertext_def decompress_def compress_def)
  have "\<not> length data < 187" and "\<not> length data < 186 + length ?ct"
    using layout(1) pos by simp_all
  then show ?thesis
    using layout adm(3,4) ct ratchet_roundtrip [OF adm(1,2) ext]
    by (simp add: env_from_bytes_def FIXED_OVERHEAD_def type_byte_roundtrip body Let_def)
qed


lemma env_to_bytes_total:
  "env_admissible lz4_compress lz4_decompress e \<Longrightarrow> is_ok (env_to_bytes lz4_compress e)"
  by (simp add: env_admissible_def env_to_bytes_def wire_ciphertext_def Let_def)

lemma env_to_bytes_ex:
  "length (wire_ciphertext lz4_compress e) \<le> MAX_CIPHERTEXT \<Longrightarrow> \<exists>bs. env_to_bytes lz4_compress e = Inr bs"
  by (simp add: env_to_bytes_def wire_ciphertext_def Let_def)

lemma env_to_bytes_fits:
  "env_to_bytes lz4_compress e = Inr bs \<Longrightarrow> length (wire_ciphertext lz4_compress e) \<le> MAX_CIPHERTEXT"
  by (auto simp: env_to_bytes_def wire_ciphertext_def Let_def split: if_splits)

interpretation envelope_codec: wire_codec "env_to_bytes lz4_compress" "env_from_bytes lz4_decompress"
    "env_admissible lz4_compress lz4_decompress"
  for lz4_compress lz4_decompress
proof unfold_locales
  fix e
  assume adm: "env_admissible lz4_compress lz4_decompress e"
  then obtain bs where "env_to_bytes lz4_compress e = Inr bs"
    using env_to_bytes_total [OF adm] by (cases "env_to_bytes lz4_compress e") auto
  with env_roundtrip [OF adm this]
  show "\<exists>bs. env_to_bytes lz4_compress e = Inr bs \<and> env_from_bytes lz4_decompress bs = Inr e" by blast
qed

lemma ratchet_from_bytes_wf:
  "ratchet_from_bytes offset data = Inr (dh, num) \<Longrightarrow>
     (dh = None \<longleftrightarrow> num = None) \<and> (\<forall>k. dh = Some k \<longrightarrow> length k = 32)"
  by (auto simp: ratchet_from_bytes_def length_sub_slice split: if_splits)

lemma env_from_bytes_wf:
  assumes "env_from_bytes lz4_decompress data = Inr e"
  shows "wf_envelope e" and "ratchet_consistent e" and "de_version e = DRIFT_VERSION"
proof -
  have "187 \<le> length data"
    using assms by (auto simp: env_from_bytes_def FIXED_OVERHEAD_def split: if_splits)
  with assms show "wf_envelope e" "ratchet_consistent e" "de_version e = DRIFT_VERSION"
    by (auto simp: env_from_bytes_def FIXED_OVERHEAD_def wf_envelope_def ratchet_consistent_def
        length_sub_slice Let_def split: if_splits prod.splits dest: ratchet_from_bytes_wf)
qed

lemma type_byte_inject:
  "type_byte e = type_byte e' \<Longrightarrow>
     de_envelope_type e = de_envelope_type e' \<and> de_compressed e = de_compressed e'"
  by (metis type_byte_roundtrip Inr_inject)

lemma ratchet_bytes_inject:
  assumes "wf_envelope e" "wf_envelope e'" "ratchet_consistent e" "ratchet_consistent e'"
    and "ratchet_bytes e = ratchet_bytes e'"
  shows "de_ratchet_dh_public e = de_ratchet_dh_public e'"
    and "de_ratchet_message_number e = de_ratchet_message_number e'"
  using ratchet_roundtrip [OF assms(1,3), of 0 "ratchet_bytes e"]
    ratchet_roundtrip [OF assms(2,4), of 0 "ratchet_bytes e'"] assms(5) by auto

lemma signed_bytes_inject:
  assumes "wf_envelope e" "wf_envelope e'" "ratchet_consistent e" "ratchet_consistent e'"
    and "length (de_ciphertext e) \<le> MAX_CIPHERTEXT" "length (de_ciphertext e') \<le> MAX_CIPHERTEXT"
    and "signed_bytes e = signed_bytes e'"
  shows "e\<lparr>de_signature := s\<rparr> = e'\<lparr>de_signature := s\<rparr>"
proof -
  have len: "u16_to_le (word_of_nat (length (de_ciphertext e))) = u16_to_le (word_of_nat (length (de_ciphertext e')))"
    using assms(1,2,7) by (simp add: signed_bytes_def wf_envelope_def)
  have same: "length (de_ciphertext e) = length (de_ciphertext e')"
    using arg_cong [OF len, of "\<lambda>x. unat (u16_of_le x)"] assms(5,6)
    by (simp add: MAX_CIPHERTEXT_def)
  have eqs: "de_version e = de_version e'" "type_byte e = type_byte e'"
    "de_message_id e = de_message_id e'" "de_recipient_hint e = de_recipient_hint e'"
    "de_created_at e = de_created_at e'" "de_ttl_expiry e = de_ttl_expiry e'"
    "de_hop_count e = de_hop_count e'" "de_priority e = de_priority e'"
    "de_sender_public_key e = de_sender_public_key e'"
    "de_ephemeral_public_key e = de_ephemeral_public_key e'" "de_nonce e = de_nonce e'"
    "de_ciphertext e = de_ciphertext e'" "ratchet_bytes e = ratchet_bytes e'"
    using assms(1,2,7) same by (simp_all add: signed_bytes_def wf_envelope_def)
  with type_byte_inject [OF eqs(2)] ratchet_bytes_inject [OF assms(1-4) eqs(13)]
  show ?thesis by simp
qed


section \<open>Legacy envelopes\<close>

lemma from_legacy_envelope_keeps:
  assumes "from_legacy_envelope parse_uuid blake3 ed25519_sign now legacy mid rpk = Inr e"
  shows "to_legacy_envelope e = legacy"
    and "parse_uuid mid = Inr (de_message_id e)"
    and "de_recipient_hint e = hint_from_public_key blake3 rpk"
    and "de_signature e = env_sign blake3 ed25519_sign (e\<lparr>de_signature := replicate 64 0\<rparr>)"
    and "de_version e = DRIFT_VERSION"
    and "length (de_sender_public_key e) = 32" "length (de_ephemeral_public_key e) = 32"
        "length (de_nonce e) = 24" "\<And>k. de_ratchet_dh_public e = Some k \<Longrightarrow> length k = 32"
  using assms
  by (auto simp: from_legacy_envelope_def to_legacy_envelope_def try_into_def try_into_opt_def Let_def
      split: sum.splits if_splits option.splits)

lemma from_legacy_envelope_ok:
  assumes "parse_uuid mid = Inr u" and "length (le_sender_public_key legacy) = 32"
    and "length (le_ephemeral_public_key legacy) = 32" and "length (le_nonce legacy) = 24"
    and "\<And>k. le_ratchet_dh_public legacy = Some k \<Longrightarrow> length k = 32"
  shows "is_ok (from_legacy_envelope parse_uuid blake3 ed25519_sign now legacy mid rpk)"
  using assms
  by (auto simp: from_legacy_envelope_def try_into_def try_into_opt_def Let_def split: option.split)

text \<open>
  C13. Envelope round trip: for an envelope whose arrays have their declared sizes, whose version
  is the current one and whose ratchet fields are both present or both absent, \<open>to_bytes\<close> either
  returns bytes from which \<open>from_bytes\<close> recovers the envelope, or rejects it because the
  (compressed) ciphertext exceeds 65535 bytes. The only thing assumed of the compression crate is
  that decompression undoes compression on this ciphertext, and only when the flag is set.
\<close>

theorem envelope_roundtrip:
  assumes "wf_envelope e" and "ratchet_consistent e" and "de_version e = DRIFT_VERSION"
    and "de_compressed e \<Longrightarrow> lz4_decompress (lz4_compress (de_ciphertext e)) = Inr (de_ciphertext e)"
  shows "case env_to_bytes lz4_compress e of
           Inr bs \<Rightarrow> env_from_bytes lz4_decompress bs = Inr e
         | Inl err \<Rightarrow> err = CiphertextTooLarge (length (wire_ciphertext lz4_compress e))
             \<and> MAX_CIPHERTEXT < length (wire_ciphertext lz4_compress e)"
proof (cases "length (wire_ciphertext lz4_compress e) \<le> MAX_CIPHERTEXT")
  case True
  then have adm: "env_admissible lz4_compress lz4_decompress e"
    using assms by (simp add: env_admissible_def)
  then show ?thesis
    using envelope_codec.enc_total [OF adm] envelope_codec.dec_enc [OF adm]
    by (cases "env_to_bytes lz4_compress e") simp_all
next
  case False
  then show ?thesis by (auto simp: env_to_bytes_def wire_ciphertext_def Let_def)
qed

theorem envelope_roundtrip_witness:
  "wf_envelope sample_envelope \<and> ratchet_consistent sample_envelope \<and>
   (\<exists>bs. env_to_bytes rev sample_envelope = Inr bs \<and>
         env_from_bytes (\<lambda>bs. Inr (rev bs)) bs = Inr sample_envelope)"
proof -
  have wf: "wf_envelope sample_envelope" "ratchet_consistent sample_envelope"
    "de_version sample_envelope = DRIFT_VERSION"
    by (simp_all add: wf_envelope_def ratchet_consistent_def sample_envelope_def DRIFT_VERSION_def)
  have "length (wire_ciphertext rev sample_envelope) \<le> MAX_CIPHERTEXT"
    by (simp add: wire_ciphertext_def sample_envelope_def compress_def MAX_CIPHERTEXT_def)
  then show ?thesis
    using envelope_roundtrip [OF wf, of "\<lambda>bs. Inr (rev bs)" rev] wf
    by (cases "env_to_bytes rev sample_envelope") simp_all
qed

text \<open>
  C27. The signature covers the whole envelope: two well-formed envelopes with the same signed
  bytes agree on every field except the signature itself, so a signature made for one cannot be
  moved to an envelope that differs in any field, the hop count included.
\<close>

theorem signature_covers_envelope:
  assumes "wf_envelope e" "wf_envelope e'" "ratchet_consistent e" "ratchet_consistent e'"
    and "length (de_ciphertext e) \<le> MAX_CIPHERTEXT" "length (de_ciphertext e') \<le> MAX_CIPHERTEXT"
    and "e\<lparr>de_signature := []\<rparr> \<noteq> e'\<lparr>de_signature := []\<rparr>"
  shows "signed_bytes e \<noteq> signed_bytes e'"
  using signed_bytes_inject [OF assms(1-6), of "[]"] assms(7) by blast

theorem signature_covers_envelope_witness:
  "signed_bytes sample_envelope \<noteq> signed_bytes (increment_hop sample_envelope)"
proof (rule signature_covers_envelope)
  show "sample_envelope\<lparr>de_signature := []\<rparr> \<noteq> (increment_hop sample_envelope)\<lparr>de_signature := []\<rparr>"
    by (simp add: sample_envelope_def increment_hop_def sat_add_def)
qed (simp_all add: wf_envelope_def ratchet_consistent_def sample_envelope_def increment_hop_def
      MAX_CIPHERTEXT_def)

text \<open>
  Sending pipeline: when \<open>from_legacy_envelope\<close> accepts a legacy envelope (as
  \<open>IronCore::prepare_message_internal\<close> calls it) and \<open>to_bytes\<close> serialises the result, then
  \<open>from_bytes\<close> followed by \<open>to_legacy_envelope\<close> gives back the legacy envelope, for a clock and
  keys of any value. Hypotheses on the crates: a UUID has 16 bytes, a digest 32, a signature 64,
  and decompression undoes compression.
\<close>

lemma legacy_pipeline_roundtrip:
  assumes "\<And>s u. parse_uuid s = Inr u \<Longrightarrow> length u = 16"
    and "\<And>bs. length (blake3 bs) = 32" and "\<And>bs. length (ed25519_sign bs) = 64"
    and "\<And>bs. lz4_decompress (lz4_compress bs) = Inr bs"
    and "le_ratchet_dh_public legacy = None \<longleftrightarrow> le_ratchet_message_number legacy = None"
    and "from_legacy_envelope parse_uuid blake3 ed25519_sign now legacy mid rpk = Inr e"
    and "env_to_bytes lz4_compress e = Inr bs"
  shows "\<exists>e'. env_from_bytes lz4_decompress bs = Inr e' \<and> to_legacy_envelope e' = legacy
           \<and> de_recipient_hint e' = hint_from_public_key blake3 rpk"
proof -
  note k = from_legacy_envelope_keeps [OF assms(6)]
  have "wf_envelope e"
    using k assms(1-3) by (simp add: wf_envelope_def hint_from_public_key_def env_sign_def)
  moreover have "ratchet_consistent e"
    using assms(5) k(1) by (auto simp: ratchet_consistent_def to_legacy_envelope_def)
  ultimately have "env_admissible lz4_compress lz4_decompress e"
    using k(5) assms(4) env_to_bytes_fits [OF assms(7)] by (simp add: env_admissible_def)
  with k(1,3) assms(7) show ?thesis by (blast dest: envelope_codec.dec_enc)
qed

end
