(* ===== verification/Message_Codec.thy ===== *)
theory Message_Codec
  imports Drift_Envelope
begin

text \<open>
  The message layer of \<open>src/core/src/message/types.rs\<close> and \<open>codec.rs\<close>: plaintext messages, the
  size limits, and the envelope codec that writes the Drift format and falls back to
  \<open>bincode\<close>. The crate \<open>bincode\<close> is a parameter: \<open>ser\<close> and \<open>de\<close> for the type at hand.
\<close>

section \<open>Messages\<close>

datatype message_type = Text | ReceiptMessage | OnionRelay

record message =
  msg_id :: string
  msg_sender_id :: string
  msg_recipient_id :: string
  msg_message_type :: message_type
  msg_payload :: bytes
  msg_timestamp :: u64

datatype delivery_status = Sent | Delivered | Read | Failed string

record receipt =
  rc_message_id :: string
  rc_status :: delivery_status
  rc_timestamp :: u64

definition receipt_delivered :: "u64 \<Rightarrow> string \<Rightarrow> receipt" where
  "receipt_delivered now message_id =
     \<lparr>rc_message_id = message_id, rc_status = Delivered, rc_timestamp = now\<rparr>"

text \<open>
  \<open>new_id\<close> is the fresh UUID, \<open>now\<close> the clock; \<open>unwrap_or_default\<close> turns a failed
  serialisation into the empty payload.
\<close>

definition message_text :: "string \<Rightarrow> u64 \<Rightarrow> string \<Rightarrow> string \<Rightarrow> bytes \<Rightarrow> message" where
  "message_text new_id now sender_id recipient_id text_bytes =
     \<lparr>msg_id = new_id, msg_sender_id = sender_id, msg_recipient_id = recipient_id,
      msg_message_type = Text, msg_payload = text_bytes, msg_timestamp = now\<rparr>"

definition message_receipt ::
  "(receipt \<Rightarrow> string + bytes) \<Rightarrow> string \<Rightarrow> u64 \<Rightarrow> string \<Rightarrow> string \<Rightarrow> receipt \<Rightarrow> message" where
  "message_receipt ser new_id now sender_id recipient_id r =
     \<lparr>msg_id = new_id, msg_sender_id = sender_id, msg_recipient_id = recipient_id,
      msg_message_type = ReceiptMessage,
      msg_payload = (case ser r of Inl _ \<Rightarrow> [] | Inr bs \<Rightarrow> bs), msg_timestamp = now\<rparr>"

text \<open>\<open>from_utf8\<close> is \<open>String::from_utf8\<close> without its error text.\<close>

definition text_content :: "(bytes \<Rightarrow> string option) \<Rightarrow> message \<Rightarrow> string option" where
  "text_content from_utf8 m = (if msg_message_type m = Text then from_utf8 (msg_payload m) else None)"

definition is_recent :: "u64 \<Rightarrow> message \<Rightarrow> u64 \<Rightarrow> bool" where
  "is_recent now m threshold_secs = (sat_sub now (msg_timestamp m) < threshold_secs)"

section \<open>Size limits\<close>

datatype codec_error =
    PayloadTooLarge nat
  | EncodedTooLarge nat
  | BincodeError string

definition MAX_MESSAGE_SIZE :: nat where
  "MAX_MESSAGE_SIZE = 262144"

definition MAX_PAYLOAD_SIZE :: nat where
  "MAX_PAYLOAD_SIZE = 8192"

definition validate_payload_size :: "bytes \<Rightarrow> codec_error + unit" where
  "validate_payload_size p = (if length p > MAX_PAYLOAD_SIZE then Inl (PayloadTooLarge (length p)) else Inr ())"

definition bincode_res :: "string + 'a \<Rightarrow> codec_error + 'a" where
  "bincode_res r = (case r of Inl e \<Rightarrow> Inl (BincodeError e) | Inr x \<Rightarrow> Inr x)"

definition encode_message :: "(message \<Rightarrow> string + bytes) \<Rightarrow> message \<Rightarrow> codec_error + bytes" where
  "encode_message ser m =
     try_res (validate_payload_size (msg_payload m)) (\<lambda>_.
     try_res (bincode_res (ser m)) (\<lambda>bs.
     if length bs > MAX_MESSAGE_SIZE then Inl (EncodedTooLarge (length bs)) else Inr bs))"

definition decode_message :: "(bytes \<Rightarrow> string + message) \<Rightarrow> bytes \<Rightarrow> codec_error + message" where
  "decode_message de bs =
     (if length bs > MAX_MESSAGE_SIZE then Inl (EncodedTooLarge (length bs)) else bincode_res (de bs))"

section \<open>Envelopes\<close>

text \<open>
  The placeholder Drift envelope of the codec layer: message id, recipient hint and signature
  are zero.
\<close>

definition encode_drift_envelope ::
  "(bytes \<Rightarrow> bytes) \<Rightarrow> u64 \<Rightarrow> envelope \<Rightarrow> drift_error + bytes" where
  "encode_drift_envelope lz4_compress now env =
     try_res (try_into 32 ''Invalid sender public key length'' (le_sender_public_key env)) (\<lambda>sender_public_key.
     try_res (try_into 32 ''Invalid ephemeral public key length'' (le_ephemeral_public_key env)) (\<lambda>ephemeral_public_key.
     try_res (try_into 24 ''Invalid nonce length'' (le_nonce env)) (\<lambda>nonce.
     try_res (try_into_opt 32 ''Invalid ratchet DH public key length'' (le_ratchet_dh_public env)) (\<lambda>ratchet_dh_public.
     let compressed = (length (le_ciphertext env) > COMPRESSION_THRESHOLD) in
     env_to_bytes lz4_compress
       \<lparr>de_version = DRIFT_VERSION, de_envelope_type = EncryptedMessage, de_compressed = compressed,
        de_message_id = replicate 16 0, de_recipient_hint = replicate 4 0,
        de_created_at = ucast now, de_ttl_expiry = 0, de_hop_count = 0, de_priority = 128,
        de_sender_public_key = sender_public_key, de_ephemeral_public_key = ephemeral_public_key,
        de_nonce = nonce, de_signature = replicate 64 0, de_ciphertext = le_ciphertext env,
        de_ratchet_dh_public = ratchet_dh_public,
        de_ratchet_message_number = le_ratchet_message_number env\<rparr>))))"

definition encode_envelope ::
  "(bytes \<Rightarrow> bytes) \<Rightarrow> (envelope \<Rightarrow> string + bytes) \<Rightarrow> u64 \<Rightarrow> envelope \<Rightarrow> codec_error + bytes" where
  "encode_envelope lz4_compress ser now env =
     (let fallback =
            try_res (bincode_res (ser env)) (\<lambda>bs.
              if length bs > MAX_MESSAGE_SIZE then Inl (EncodedTooLarge (length bs)) else Inr bs)
      in case encode_drift_envelope lz4_compress now env of
           Inr drift_bytes \<Rightarrow> if length drift_bytes \<le> MAX_MESSAGE_SIZE then Inr drift_bytes else fallback
         | Inl _ \<Rightarrow> fallback)"

definition decode_envelope ::
  "(bytes \<Rightarrow> string + bytes) \<Rightarrow> (bytes \<Rightarrow> string + envelope) \<Rightarrow> bytes \<Rightarrow> codec_error + envelope" where
  "decode_envelope lz4_decompress de bs =
     (if length bs > MAX_MESSAGE_SIZE then Inl (EncodedTooLarge (length bs))
      else if bs \<noteq> [] \<and> bs ! 0 = DRIFT_VERSION
      then (case env_from_bytes lz4_decompress bs of
              Inr e \<Rightarrow> Inr (to_legacy_envelope e)
            | Inl _ \<Rightarrow> bincode_res (de bs))
      else bincode_res (de bs))"

definition codec_sample :: envelope where
  "codec_sample =
     \<lparr>le_sender_public_key = replicate 32 5, le_ephemeral_public_key = [6, 6],
      le_nonce = replicate 24 9, le_ciphertext = [10, 11, 12],
      le_ratchet_dh_public = None, le_ratchet_message_number = None\<rparr>"

section \<open>The Drift path\<close>

lemma encode_drift_envelope_decodes:
  assumes "encode_drift_envelope lz4_compress now env = Inr bs"
    and "le_ratchet_dh_public env = None \<longleftrightarrow> le_ratchet_message_number env = None"
    and "lz4_decompress (lz4_compress (le_ciphertext env)) = Inr (le_ciphertext env)"
  obtains e where "env_from_bytes lz4_decompress bs = Inr e" and "to_legacy_envelope e = env"
proof -
  obtain e where e: "env_to_bytes lz4_compress e = Inr bs" "wf_envelope e" "de_version e = DRIFT_VERSION"
    "to_legacy_envelope e = env"
    using assms(1)
    by (auto simp: encode_drift_envelope_def try_into_def try_into_opt_def wf_envelope_def
        to_legacy_envelope_def Let_def split: option.splits if_splits)
  then have "env_admissible lz4_compress lz4_decompress e"
    using assms(2,3) env_to_bytes_fits [OF e(1)]
    by (auto simp: env_admissible_def ratchet_consistent_def to_legacy_envelope_def)
  then show thesis using that e(1,4) envelope_codec.dec_enc by blast
qed

lemma env_to_bytes_version:
  "env_to_bytes lz4_compress e = Inr bs \<Longrightarrow> bs \<noteq> [] \<and> bs ! 0 = de_version e"
  by (auto simp: env_to_bytes_def Let_def split: if_splits)

lemma encode_drift_envelope_version:
  "encode_drift_envelope lz4_compress now env = Inr bs \<Longrightarrow> bs \<noteq> [] \<and> bs ! 0 = DRIFT_VERSION"
  by (auto simp: encode_drift_envelope_def Let_def dest: env_to_bytes_version)

section \<open>Properties\<close>

text \<open>
  C30. The envelope codec is faithful on both paths: whatever \<open>encode_envelope\<close> produces, in the
  Drift format or through the \<open>bincode\<close> fallback, \<open>decode_envelope\<close> turns back into the same
  envelope. Assumed: compression and \<open>bincode\<close> invert themselves, \<open>bincode\<close> starts a struct
  with the length of its first vector (here the sender key) in little-endian order, the key's
  length is not 1 modulo 256 (so the fallback cannot be mistaken for the Drift version byte), and
  the ratchet fields are both present or both absent.
\<close>

theorem envelope_codec_roundtrip:
  assumes lz4: "\<And>bs. lz4_decompress (lz4_compress bs) = Inr bs"
    and bincode: "\<And>env bs. ser env = Inr bs \<Longrightarrow> de bs = Inr env"
    and prefix: "\<And>env bs. ser env = Inr bs \<Longrightarrow>
                   bs \<noteq> [] \<and> hd bs = word_of_nat (length (le_sender_public_key env))"
    and key: "length (le_sender_public_key env) mod 256 \<noteq> 1"
    and ratchet: "le_ratchet_dh_public env = None \<longleftrightarrow> le_ratchet_message_number env = None"
    and encoded: "encode_envelope lz4_compress ser now env = Inr bs"
  shows "decode_envelope lz4_decompress de bs = Inr env"
proof (cases "encode_drift_envelope lz4_compress now env = Inr bs \<and> length bs \<le> MAX_MESSAGE_SIZE")
  case True
  then obtain e where "env_from_bytes lz4_decompress bs = Inr e" "to_legacy_envelope e = env"
    using encode_drift_envelope_decodes [where lz4_compress = lz4_compress and env = env
        and lz4_decompress = lz4_decompress and bs = bs, OF _ ratchet lz4] by blast
  with True show ?thesis
    using encode_drift_envelope_version [of lz4_compress now env bs] by (simp add: decode_envelope_def)
next
  case False
  with encoded have ser: "ser env = Inr bs" and len: "length bs \<le> MAX_MESSAGE_SIZE"
    by (auto simp: encode_envelope_def bincode_res_def Let_def split: sum.splits if_splits)
  have "bs ! 0 = word_of_nat (length (le_sender_public_key env))"
    using prefix [OF ser] by (cases bs) auto
  moreover have "word_of_nat (length (le_sender_public_key env)) \<noteq> (1 :: u8)"
    using key by (simp add: word_unat_eq_iff unat_of_nat)
  ultimately show ?thesis
    using len bincode [OF ser] by (simp add: decode_envelope_def bincode_res_def DRIFT_VERSION_def)
qed

theorem envelope_codec_roundtrip_witness:
  "encode_envelope rev (\<lambda>e. if e = codec_sample then Inr [32] else Inl ''io'') 5 codec_sample = Inr [32]
   \<and> decode_envelope (\<lambda>b. Inr (rev b)) (\<lambda>_. Inr codec_sample) [32] = Inr codec_sample"
proof -
  let ?ser = "\<lambda>e. if e = codec_sample then Inr [32 :: u8] else Inl ''io''"
  have e: "encode_envelope rev ?ser 5 codec_sample = Inr [32]"
    by (simp add: encode_envelope_def encode_drift_envelope_def try_into_def codec_sample_def
        bincode_res_def MAX_MESSAGE_SIZE_def Let_def)
  moreover have "decode_envelope (\<lambda>b. Inr (rev b)) (\<lambda>_. Inr codec_sample) [32] = Inr codec_sample"
    by (rule envelope_codec_roundtrip [OF _ _ _ _ _ e])
      (auto simp: codec_sample_def split: if_splits)
  ultimately show ?thesis ..
qed

end
