(* ===== verification/Drift_Reconcile.thy ===== *)
theory Drift_Reconcile
  imports Drift_Sketch "HOL-Library.Sublist"
begin

text \<open>
  Set reconciliation with the tables of \<open>Drift_Sketch\<close> (\<open>src/core/src/drift/sketch.rs\<close>, and the
  fill loops of \<open>src/core/src/drift/sync.rs\<close>). Cells form an abelian group in which insertion,
  removal, peeling and subtraction are additions, so a table is the sum of the signed keys put
  into it (\<open>represents\<close>, \<open>table_of\<close>) and the keys common to two tables cancel. A list of signed
  keys is \<open>peelable\<close> when every sublist has a cell that holds exactly one of its keys: then decoding
  ends within its iteration limit and returns the two set differences. The last sections settle
  what \<open>key_check\<close> detects and what the wire format keeps.
\<close>

section \<open>The algebra of cells\<close>

lemma length_xor_bytes [simp]: "length (xor_bytes xs ys) = min (length xs) (length ys)"
  by (simp add: xor_bytes_def)

lemma xor_bytes_comm: "xor_bytes xs ys = xor_bytes ys xs"
  by (induction xs ys rule: list_induct2') (simp_all add: xor_bytes_def xor.commute)

lemma xor_bytes_assoc: "xor_bytes (xor_bytes xs ys) zs = xor_bytes xs (xor_bytes ys zs)"
  by (rule nth_equalityI) (simp_all add: xor_bytes_def xor.assoc)

lemma xor_bytes_zero [simp]: "length xs = n \<Longrightarrow> xor_bytes (replicate n 0) xs = xs"
  by (rule nth_equalityI) (simp_all add: xor_bytes_def)

lemma xor_bytes_self [simp]: "xor_bytes xs xs = replicate (length xs) 0"
  by (rule nth_equalityI) (simp_all add: xor_bytes_def)

definition wf_cell :: "iblt_cell \<Rightarrow> bool" where
  "wf_cell c \<longleftrightarrow> length (ic_key_sum c) = 16"

definition cell_plus :: "iblt_cell \<Rightarrow> iblt_cell \<Rightarrow> iblt_cell" where
  "cell_plus a b =
     \<lparr>ic_count = ic_count a + ic_count b, ic_key_sum = xor_bytes (ic_key_sum a) (ic_key_sum b),
      ic_key_check = ic_key_check a XOR ic_key_check b\<rparr>"

definition cell_neg :: "iblt_cell \<Rightarrow> iblt_cell" where
  "cell_neg c = c\<lparr>ic_count := - ic_count c\<rparr>"

definition key_cell :: "i32 \<Rightarrow> message_id \<Rightarrow> iblt_cell" where
  "key_cell s k = \<lparr>ic_count = s, ic_key_sum = k, ic_key_check = key_check k\<rparr>"

lemma wf_cell_new [simp]: "wf_cell cell_new"
  by (simp add: wf_cell_def cell_new_def)

lemma wf_cell_plus [simp]: "wf_cell a \<Longrightarrow> wf_cell b \<Longrightarrow> wf_cell (cell_plus a b)"
  by (simp add: wf_cell_def cell_plus_def)

lemma wf_cell_neg [simp]: "wf_cell (cell_neg a) = wf_cell a"
  by (simp add: wf_cell_def cell_neg_def)

lemma wf_key_cell [simp]: "wf_cell (key_cell s k) \<longleftrightarrow> length k = 16"
  by (simp add: wf_cell_def key_cell_def)

lemma cell_plus_comm: "cell_plus a b = cell_plus b a"
  by (simp add: cell_plus_def xor_bytes_comm xor.commute add.commute)

lemma cell_plus_assoc: "cell_plus (cell_plus a b) c = cell_plus a (cell_plus b c)"
  by (simp add: cell_plus_def xor_bytes_assoc xor.assoc add.assoc)

lemma cell_plus_left_comm: "cell_plus a (cell_plus b c) = cell_plus b (cell_plus a c)"
  by (metis cell_plus_assoc cell_plus_comm)

lemmas cell_plus_ac = cell_plus_assoc cell_plus_comm cell_plus_left_comm

lemma cell_plus_new [simp]: "wf_cell c \<Longrightarrow> cell_plus cell_new c = c" "wf_cell c \<Longrightarrow> cell_plus c cell_new = c"
  by (simp_all add: cell_plus_def cell_new_def wf_cell_def xor_bytes_comm [of "ic_key_sum c"])

lemma cell_plus_neg [simp]: "wf_cell c \<Longrightarrow> cell_plus c (cell_neg c) = cell_new"
  by (simp add: cell_plus_def cell_neg_def cell_new_def wf_cell_def)

lemma cell_neg_plus: "cell_neg (cell_plus a b) = cell_plus (cell_neg a) (cell_neg b)"
  by (simp add: cell_neg_def cell_plus_def)

lemma cell_neg_new [simp]: "cell_neg cell_new = cell_new"
  by (simp add: cell_neg_def cell_new_def)

lemma cell_neg_key [simp]: "cell_neg (key_cell s k) = key_cell (- s) k"
  by (simp add: cell_neg_def key_cell_def)

lemma cell_subtract_plus: "cell_subtract a b = cell_plus a (cell_neg b)"
  by (simp add: cell_subtract_def cell_plus_def cell_neg_def)

lemma xor_in_plus: "xor_in (c\<lparr>ic_count := ic_count c + s\<rparr>) k = cell_plus c (key_cell s k)"
  by (simp add: xor_in_def cell_plus_def key_cell_def)

fun cell_times :: "nat \<Rightarrow> iblt_cell \<Rightarrow> iblt_cell" where
  "cell_times 0 c = cell_new"
| "cell_times (Suc m) c = cell_plus c (cell_times m c)"

lemma wf_cell_times [simp]: "wf_cell c \<Longrightarrow> wf_cell (cell_times m c)"
  by (induction m) simp_all

lemma cell_times_neg: "cell_neg (cell_times m c) = cell_times m (cell_neg c)"
  by (induction m) (simp_all add: cell_neg_plus)

lemma ic_count_times: "ic_count (cell_times m c) = of_nat m * ic_count c"
  by (induction m) (simp_all add: cell_new_def cell_plus_def algebra_simps)

section \<open>Tables as sums of signed keys\<close>

type_synonym signed_key = "i32 \<times> message_id"

definition occ :: "(message_id \<Rightarrow> nat \<Rightarrow> nat) \<Rightarrow> message_id \<Rightarrow> nat \<Rightarrow> nat" where
  "occ h k j = length (filter (\<lambda>i. h k i = j) [0..<HASH_COUNT])"

definition share :: "(message_id \<Rightarrow> nat \<Rightarrow> nat) \<Rightarrow> nat \<Rightarrow> signed_key \<Rightarrow> iblt_cell" where
  "share h j x = cell_times (occ h (snd x) j) (key_cell (fst x) (snd x))"

fun cell_sum :: "(message_id \<Rightarrow> nat \<Rightarrow> nat) \<Rightarrow> nat \<Rightarrow> signed_key list \<Rightarrow> iblt_cell" where
  "cell_sum h j [] = cell_new"
| "cell_sum h j (x # xs) = cell_plus (share h j x) (cell_sum h j xs)"

definition wf_keys :: "signed_key list \<Rightarrow> bool" where
  "wf_keys ds \<longleftrightarrow> (\<forall>(s, k) \<in> set ds. length k = 16)"

definition represents ::
  "(message_id \<Rightarrow> nat \<Rightarrow> nat) \<Rightarrow> signed_key list \<Rightarrow> iblt_cell list \<Rightarrow> bool" where
  "represents h ds cells \<longleftrightarrow> wf_keys ds \<and> (\<forall>j < length cells. cells ! j = cell_sum h j ds)"

lemma wf_keys_simps [simp]:
  "wf_keys []" "wf_keys ((s, k) # ds) \<longleftrightarrow> length k = 16 \<and> wf_keys ds"
  "wf_keys (xs @ ys) \<longleftrightarrow> wf_keys xs \<and> wf_keys ys"
  by (auto simp: wf_keys_def)

lemma wf_keys_mono: "wf_keys ds \<Longrightarrow> set es \<subseteq> set ds \<Longrightarrow> wf_keys es"
  by (auto simp: wf_keys_def)

lemma wf_share [simp]: "length (snd x) = 16 \<Longrightarrow> wf_cell (share h j x)"
  by (simp add: share_def)

lemma wf_cell_sum [simp]: "wf_keys ds \<Longrightarrow> wf_cell (cell_sum h j ds)"
  by (induction ds) auto

lemma cell_sum_append: "wf_keys xs \<Longrightarrow> wf_keys ys \<Longrightarrow>
   cell_sum h j (xs @ ys) = cell_plus (cell_sum h j xs) (cell_sum h j ys)"
  by (induction xs) (auto simp: cell_plus_assoc)

lemma cell_sum_remove1:
  "x \<in> set ds \<Longrightarrow> cell_sum h j ds = cell_plus (share h j x) (cell_sum h j (remove1 x ds))"
  by (induction ds) (auto simp: cell_plus_left_comm)

lemma cell_sum_mset: "mset xs = mset ys \<Longrightarrow> cell_sum h j xs = cell_sum h j ys"
proof (induction xs arbitrary: ys)
  case Nil
  then show ?case by simp
next
  case (Cons x xs)
  then have x: "x \<in> set ys" and rest: "mset xs = mset (remove1 x ys)"
    by (metis list.set_intros(1) mset_eq_setD, metis add_mset_remove_trivial mset.simps(2) mset_remove1)
  show ?case using Cons.IH [OF rest] cell_sum_remove1 [OF x, of h j] by simp
qed

abbreviation flip :: "signed_key \<Rightarrow> signed_key" where
  "flip x \<equiv> (- fst x, snd x)"

lemma share_flip: "share h j (flip x) = cell_neg (share h j x)"
  by (simp add: share_def cell_times_neg)

lemma cell_sum_flip: "cell_sum h j (map flip ds) = cell_neg (cell_sum h j ds)"
proof (induction ds)
  case Nil
  then show ?case by simp
next
  case (Cons x ds)
  then show ?case by (simp add: share_flip [symmetric] cell_neg_plus)
qed


section \<open>The loops are linear\<close>

fun add_loop :: "(nat \<Rightarrow> nat) \<Rightarrow> iblt_cell \<Rightarrow> nat list \<Rightarrow> iblt_cell list \<Rightarrow> iblt_cell list" where
  "add_loop f d [] cells = cells"
| "add_loop f d (i # rest) cells = add_loop f d rest (cells[f i := cell_plus (cells ! f i) d])"

lemma insert_loop_add: "insert_loop f k idxs cells = add_loop f (key_cell 1 k) idxs cells"
  by (induction idxs arbitrary: cells) (simp_all add: xor_in_plus Let_def)

lemma remove_loop_add: "remove_loop f k idxs cells = add_loop f (key_cell (- 1) k) idxs cells"
  by (induction idxs arbitrary: cells) (simp_all add: xor_in_plus [where s = "- 1", simplified] xor_out_def Let_def)

lemma peel_loop_add: "peel_loop f s k idxs cells = add_loop f (key_cell (- s) k) idxs cells"
  by (induction idxs arbitrary: cells)
    (simp_all add: xor_in_plus [where s = "- s", simplified] xor_out_def Let_def)

lemma length_add_loop [simp]: "length (add_loop f d idxs cells) = length cells"
  by (induction idxs arbitrary: cells) simp_all

lemma nth_add_loop:
  assumes "j < length cells" and "wf_cell d" and "\<forall>c \<in> set cells. wf_cell c"
  shows "add_loop f d idxs cells ! j =
           cell_plus (cells ! j) (cell_times (length (filter (\<lambda>i. f i = j) idxs)) d)"
  using assms(1,3)
proof (induction idxs arbitrary: cells)
  case Nil
  then show ?case by simp
next
  case (Cons i idxs)
  let ?cells = "cells[f i := cell_plus (cells ! f i) d]"
  have wf: "\<forall>c \<in> set ?cells. wf_cell c"
    using Cons.prems assms(2)
    by (cases "f i < length cells")
      (auto simp: list_update_beyond dest!: set_update_subset_insert [THEN subsetD])
  have "add_loop f d idxs ?cells ! j =
          cell_plus (?cells ! j) (cell_times (length (filter (\<lambda>i. f i = j) idxs)) d)"
    using Cons.prems(1) wf by (intro Cons.IH) simp_all
  then show ?case using Cons.prems by (auto simp: nth_list_update cell_plus_assoc)
qed

lemma represents_wf_cells: "represents h ds cells \<Longrightarrow> \<forall>c \<in> set cells. wf_cell c"
  by (auto simp: represents_def in_set_conv_nth)

lemma represents_add:
  assumes "represents h ds cells" and "length k = 16"
  shows "represents h ((s, k) # ds) (add_loop (h k) (key_cell s k) [0..<HASH_COUNT] cells)"
  using assms nth_add_loop [OF _ _ represents_wf_cells [OF assms(1)]]
  by (simp add: represents_def share_def occ_def cell_plus_comm)

lemma represents_new: "represents h [] (replicate n cell_new)"
  by (simp add: represents_def)

lemma represents_mset: "represents h ds cells \<Longrightarrow> mset ds = mset es \<Longrightarrow> represents h es cells"
  using cell_sum_mset [of ds es h] wf_keys_mono [of ds es]
  by (auto simp: represents_def dest: mset_eq_setD)

lemma represents_subtract:
  assumes "represents h as a" and "represents h bs b" and "length a = length b"
  shows "represents h (as @ map flip bs) (map2 cell_subtract a b)"
proof -
  have "wf_keys (map flip bs)" using assms(2) by (auto simp: represents_def wf_keys_def)
  with assms show ?thesis
    by (simp add: represents_def cell_sum_append cell_sum_flip cell_subtract_plus)
qed

lemma represents_peel:
  assumes "represents h ds cells" and "(s, k) \<in> set ds"
  shows "represents h (remove1 (s, k) ds) (add_loop (h k) (key_cell (- s) k) [0..<HASH_COUNT] cells)"
proof -
  have k: "length k = 16" and wf: "wf_keys ds" using assms by (auto simp: represents_def wf_keys_def)
  have wf': "wf_keys (remove1 (s, k) ds)"
    using wf by (rule wf_keys_mono) (rule set_remove1_subset)
  have rep: "represents h ((- s, k) # ds) (add_loop (h k) (key_cell (- s) k) [0..<HASH_COUNT] cells)"
    using assms(1) k by (rule represents_add)
  have "cell_sum h j ((- s, k) # ds) = cell_sum h j (remove1 (s, k) ds)" for j
  proof -
    have "cell_plus (share h j (- s, k)) (share h j (s, k)) = cell_new"
      using share_flip [of h j "(s, k)"] k by (simp add: cell_plus_comm)
    then show ?thesis
      using cell_sum_remove1 [OF assms(2), of h j] wf' by (simp add: cell_plus_assoc [symmetric])
  qed
  with rep wf' show ?thesis by (simp add: represents_def)
qed

section \<open>Common keys cancel\<close>

definition plus_keys :: "message_id list \<Rightarrow> signed_key list" where
  "plus_keys ks = map (Pair 1) ks"

definition minus_keys :: "message_id list \<Rightarrow> signed_key list" where
  "minus_keys ks = map (Pair (- 1)) ks"

definition diff_keys :: "message_id list \<Rightarrow> message_id list \<Rightarrow> signed_key list" where
  "diff_keys as bs = plus_keys (filter (\<lambda>k. k \<notin> set bs) as) @ minus_keys (filter (\<lambda>k. k \<notin> set as) bs)"

lemma flip_plus_keys: "map flip (plus_keys ks) = minus_keys ks"
  by (simp add: plus_keys_def minus_keys_def)

lemma cell_sum_cancel:
  assumes "distinct as" "distinct bs" "wf_keys (plus_keys as)" "wf_keys (minus_keys bs)"
  shows "cell_sum h j (plus_keys as @ minus_keys bs) = cell_sum h j (diff_keys as bs)"
proof -
  let ?ca = "filter (\<lambda>k. k \<in> set bs) as" and ?cb = "filter (\<lambda>k. k \<in> set as) bs"
  let ?da = "filter (\<lambda>k. k \<notin> set bs) as" and ?db = "filter (\<lambda>k. k \<notin> set as) bs"
  have m: "mset ?ca = mset ?cb"
    using assms(1,2) by (simp add: mset_filter set_eq_iff_mset_eq_distinct [symmetric] flip: mset_filter) auto
  have wf: "wf_keys (plus_keys ?ca)" "wf_keys (minus_keys ?cb)" "wf_keys (plus_keys ?da)" "wf_keys (minus_keys ?db)"
    using assms(3,4) by (auto simp: wf_keys_def plus_keys_def minus_keys_def)
  have "cell_sum h j (minus_keys ?cb) = cell_sum h j (minus_keys ?ca)"
    by (rule cell_sum_mset) (simp only: minus_keys_def mset_map m)
  also have "\<dots> = cell_neg (cell_sum h j (plus_keys ?ca))"
    by (simp add: flip_plus_keys [symmetric] cell_sum_flip)
  finally have zero: "cell_plus (cell_sum h j (plus_keys ?ca)) (cell_sum h j (minus_keys ?cb)) = cell_new"
    using wf(1) by simp
  have parts: "mset as = mset ?ca + mset ?da" "mset bs = mset ?cb + mset ?db"
    by (simp_all add: multiset_partition [symmetric])
  have split: "mset (plus_keys as @ minus_keys bs) =
      mset ((plus_keys ?ca @ minus_keys ?cb) @ diff_keys as bs)"
    by (simp only: plus_keys_def minus_keys_def diff_keys_def mset_append mset_map parts
        image_mset_union ac_simps)
  have "cell_sum h j (plus_keys as @ minus_keys bs) =
      cell_plus (cell_plus (cell_sum h j (plus_keys ?ca)) (cell_sum h j (minus_keys ?cb))) (cell_sum h j (diff_keys as bs))"
    using cell_sum_mset [OF split, of h j] wf by (simp add: cell_sum_append diff_keys_def cell_plus_assoc)
  with zero wf show ?thesis by (simp add: diff_keys_def)
qed


section \<open>Peeling\<close>

definition cell_load :: "(message_id \<Rightarrow> nat \<Rightarrow> nat) \<Rightarrow> signed_key list \<Rightarrow> nat \<Rightarrow> nat" where
  "cell_load h ds j = sum_list (map (\<lambda>x. occ h (snd x) j) ds)"

definition peelable :: "(message_id \<Rightarrow> nat \<Rightarrow> nat) \<Rightarrow> nat \<Rightarrow> signed_key list \<Rightarrow> bool" where
  "peelable h n ds \<longleftrightarrow> (\<forall>es \<in> set (subseqs ds). es \<noteq> [] \<longrightarrow> (\<exists>j < n. cell_load h es j = 1))"

definition no_false_pure :: "(message_id \<Rightarrow> nat \<Rightarrow> nat) \<Rightarrow> nat \<Rightarrow> signed_key list \<Rightarrow> bool" where
  "no_false_pure h n ds \<longleftrightarrow>
     (\<forall>es \<in> set (subseqs ds). \<forall>j < n. cell_is_pure (cell_sum h j es) \<longrightarrow> cell_load h es j = 1)"

definition unit_signs :: "signed_key list \<Rightarrow> bool" where
  "unit_signs ds \<longleftrightarrow> (\<forall>x \<in> set ds. fst x = 1 \<or> fst x = - 1)"

lemma subseqs_remove1: "es \<in> set (subseqs (remove1 x ds)) \<Longrightarrow> es \<in> set (subseqs ds)"
proof -
  have "subseq (remove1 x ds) ds" by (induction ds) auto
  moreover assume "es \<in> set (subseqs (remove1 x ds))"
  ultimately show ?thesis by simp
qed

lemma self_in_subseqs: "ds \<in> set (subseqs ds)"
  by simp

lemma peelable_remove1: "peelable h n ds \<Longrightarrow> peelable h n (remove1 x ds)"
  using subseqs_remove1 by (fastforce simp: peelable_def)

lemma no_false_pure_remove1: "no_false_pure h n ds \<Longrightarrow> no_false_pure h n (remove1 x ds)"
  using subseqs_remove1 by (fastforce simp: no_false_pure_def)

lemma cell_load_zero: "wf_keys ds \<Longrightarrow> cell_load h ds j = 0 \<Longrightarrow> cell_sum h j ds = cell_new"
  by (induction ds) (auto simp: cell_load_def share_def)

lemma cell_load_one:
  assumes "wf_keys ds" and "cell_load h ds j = 1"
  obtains s k where "(s, k) \<in> set ds" and "occ h k j = 1" and "cell_sum h j ds = key_cell s k"
  using assms
proof (induction ds arbitrary: thesis)
  case Nil
  then show ?case by (simp add: cell_load_def)
next
  case (Cons x ds)
  obtain s k where x: "x = (s, k)" by (cases x)
  have k: "length k = 16" and wf: "wf_keys ds" using Cons.prems(2) by (auto simp: x)
  have sum: "occ h k j + cell_load h ds j = 1" using Cons.prems(3) by (simp add: cell_load_def x)
  show ?case
  proof (cases "cell_load h ds j = 0")
    case True
    then have "cell_sum h j (x # ds) = key_cell s k" and "occ h k j = 1"
      using sum k cell_load_zero [OF wf True] by (simp_all add: x share_def)
    then show ?thesis using Cons.prems(1) [of s k] by (simp add: x)
  next
    case False
    then have "cell_load h ds j = 1" and o: "occ h k j = 0" using sum by simp_all
    then obtain s' k' where "(s', k') \<in> set ds" "occ h k' j = 1" "cell_sum h j ds = key_cell s' k'"
      using Cons.IH wf by blast
    moreover have "length k' = 16" using calculation wf by (auto simp: wf_keys_def)
    ultimately show ?thesis
      using o Cons.prems(1) [of s' k'] by (simp add: x share_def)
  qed
qed

lemma cell_load_remove1:
  "x \<in> set ds \<Longrightarrow> cell_load h ds j = occ h (snd x) j + cell_load h (remove1 x ds) j"
  by (induction ds) (auto simp: cell_load_def)

lemma first_pure_Some: "first_pure cells = Some idx \<Longrightarrow> idx < length cells \<and> cell_is_pure (cells ! idx)"
  by (induction cells arbitrary: idx) (auto split: if_splits)

lemma first_pure_None: "first_pure cells = None \<longleftrightarrow> (\<forall>c \<in> set cells. \<not> cell_is_pure c)"
  by (induction cells) auto

lemma cell_load_one_ex: "cell_load h ds j = 1 \<Longrightarrow> \<exists>x \<in> set ds. occ h (snd x) j = 1"
  by (induction ds) (auto simp: cell_load_def add_is_1)

lemma peelable_length: "peelable h n ds \<Longrightarrow> length ds \<le> card {j. j < n \<and> cell_load h ds j > 0}"
proof (induction "length ds" arbitrary: ds)
  case 0
  then show ?case by simp
next
  case (Suc m)
  then have "ds \<noteq> []" by auto
  then obtain j where j: "j < n" "cell_load h ds j = 1"
    using Suc.prems self_in_subseqs [of ds] by (auto simp: peelable_def)
  then obtain x where x: "x \<in> set ds" "occ h (snd x) j = 1"
    using cell_load_one_ex by blast
  let ?es = "remove1 x ds"
  have len: "length ds = Suc (length ?es)" using x(1) Suc.hyps(2) by (simp add: length_remove1)
  have zero: "cell_load h ?es j = 0" using cell_load_remove1 [OF x(1), of h j] j x by simp
  let ?S = "{j. j < n \<and> cell_load h ds j > 0}" and ?T = "{j. j < n \<and> cell_load h ?es j > 0}"
  have "length ?es \<le> card ?T"
    using Suc.hyps len peelable_remove1 [OF Suc.prems] by simp
  moreover have "?T \<subseteq> ?S - {j}"
    using zero cell_load_remove1 [OF x(1), of h] by auto
  moreover have "card (?S - {j}) = card ?S - 1" "card ?S > 0"
    using j by (auto simp: card_gt_0_iff)
  ultimately show ?case using len card_mono [of "?S - {j}" ?T] by simp
qed


section \<open>Decoding recovers the signed keys\<close>

lemma decode_loop_step:
  assumes rep: "represents h ds cells" and pure: "first_pure cells = Some idx"
    and nfp: "no_false_pure h (length cells) ds" and signs: "unit_signs ds"
  obtains s k where "(s, k) \<in> set ds" and "s = 1 \<or> s = - 1"
    and "represents h (remove1 (s, k) ds) (peel_loop (h k) s k [0..<HASH_COUNT] cells)"
    and "\<And>left alice bob. decode_loop (Suc left) h cells alice bob =
           decode_loop left h (peel_loop (h k) s k [0..<HASH_COUNT] cells)
             (if s = 1 then alice @ [k] else alice) (if s = 1 then bob else bob @ [k])"
proof -
  have idx: "idx < length cells" "cell_is_pure (cells ! idx)" using first_pure_Some [OF pure] by auto
  have wf: "wf_keys ds" and sum: "cells ! idx = cell_sum h idx ds"
    using rep idx by (auto simp: represents_def)
  then have load: "cell_load h ds idx = 1"
    using nfp idx self_in_subseqs [of ds] by (auto simp: no_false_pure_def)
  then obtain s k where sk: "(s, k) \<in> set ds" "occ h k idx = 1" "cell_sum h idx ds = key_cell s k"
    using cell_load_one [OF wf] by blast
  let ?cells = "peel_loop (h k) s k [0..<HASH_COUNT] cells"
  have rep': "represents h (remove1 (s, k) ds) ?cells"
    unfolding peel_loop_add using rep sk(1) by (rule represents_peel)
  have len: "length ?cells = length cells" by (simp add: peel_loop_add)
  have "cell_load h (remove1 (s, k) ds) idx = 0"
    using cell_load_remove1 [OF sk(1), of h idx] load sk(2) by simp
  then have "?cells ! idx = cell_new"
    using rep' idx len by (simp add: represents_def cell_load_zero)
  then have clear: "?cells[idx := cell_new] = ?cells" by (metis list_update_id)
  have s: "s = 1 \<or> s = - 1" using signs sk(1) by (force simp: unit_signs_def)
  have "decode_loop (Suc left) h cells alice bob =
          decode_loop left h ?cells (if s = 1 then alice @ [k] else alice) (if s = 1 then bob else bob @ [k])"
    for left alice bob
    using pure sum sk(3) clear by (simp add: key_cell_def Let_def)
  with that sk(1) s rep' show thesis by blast
qed

lemma decode_loop_complete:
  assumes "represents h ds cells" and "unit_signs ds" and "length ds < left"
    and "peelable h (length cells) ds" and "no_false_pure h (length cells) ds"
  shows "\<exists>as bs. decode_loop left h cells alice bob = Inr (alice @ as, bob @ bs)
           \<and> mset (plus_keys as) + mset (minus_keys bs) = mset ds"
  using assms
proof (induction "length ds" arbitrary: ds cells left alice bob)
  case 0
  then have "\<forall>c \<in> set cells. c = cell_new" by (auto simp: represents_def in_set_conv_nth)
  then have "first_pure cells = None" "list_all cell_is_empty cells"
    by (auto simp: first_pure_None list_all_iff cell_is_pure_def cell_is_empty_def cell_new_def)
  with 0 show ?case by (cases left) (auto simp: plus_keys_def minus_keys_def)
next
  case (Suc m)
  obtain left' where left: "left = Suc left'" using Suc.prems(3) by (cases left) auto
  have "ds \<noteq> []" using Suc.hyps(2) by auto
  then obtain j where j: "j < length cells" "cell_load h ds j = 1"
    using Suc.prems(4) self_in_subseqs [of ds] by (auto simp: peelable_def)
  have wf: "wf_keys ds" and cj: "cells ! j = cell_sum h j ds"
    using Suc.prems(1) j(1) by (auto simp: represents_def)
  obtain s k where "(s, k) \<in> set ds" "cell_sum h j ds = key_cell s k"
    using cell_load_one [OF wf j(2)] by blast
  then have "cell_is_pure (cells ! j)"
    using Suc.prems(2) cj by (auto simp: unit_signs_def cell_is_pure_def key_cell_def)
  then obtain idx where "first_pure cells = Some idx"
    using j(1) first_pure_None [of cells] by (cases "first_pure cells") auto
  then obtain s k where sk: "(s, k) \<in> set ds" "s = 1 \<or> s = - 1"
    and rep: "represents h (remove1 (s, k) ds) (peel_loop (h k) s k [0..<HASH_COUNT] cells)"
    and step: "\<And>left alice bob. decode_loop (Suc left) h cells alice bob =
           decode_loop left h (peel_loop (h k) s k [0..<HASH_COUNT] cells)
             (if s = 1 then alice @ [k] else alice) (if s = 1 then bob else bob @ [k])"
    using decode_loop_step [OF Suc.prems(1) _ Suc.prems(5,2)] by blast
  let ?ds = "remove1 (s, k) ds"
  have len: "length ds = Suc (length ?ds)" using sk(1) Suc.hyps(2) by (simp add: length_remove1)
  have "unit_signs ?ds" using Suc.prems(2) by (auto simp: unit_signs_def dest: notin_set_remove1)
  then obtain as bs where
    run: "decode_loop left' h (peel_loop (h k) s k [0..<HASH_COUNT] cells)
             (if s = 1 then alice @ [k] else alice) (if s = 1 then bob else bob @ [k])
           = Inr ((if s = 1 then alice @ [k] else alice) @ as, (if s = 1 then bob else bob @ [k]) @ bs)"
    and ms: "mset (plus_keys as) + mset (minus_keys bs) = mset ?ds"
    using Suc.hyps(1) [of ?ds "peel_loop (h k) s k [0..<HASH_COUNT] cells" left'] Suc.hyps(2) len rep
      Suc.prems(3) left peelable_remove1 [OF Suc.prems(4)] no_false_pure_remove1 [OF Suc.prems(5)]
    by (simp only: peel_loop_add length_add_loop) blast
  have ds: "mset ds = add_mset (s, k) (mset ?ds)" using sk(1) by simp
  show ?case
  proof (cases "s = 1")
    case True
    with run step left have "decode_loop left h cells alice bob = Inr (alice @ (k # as), bob @ bs)" by simp
    moreover have "mset (plus_keys (k # as)) + mset (minus_keys bs) = mset ds"
      using ds ms True by (simp add: plus_keys_def)
    ultimately show ?thesis by blast
  next
    case False
    with run step left have "decode_loop left h cells alice bob = Inr (alice @ as, bob @ (k # bs))" by simp
    moreover have "mset (plus_keys as) + mset (minus_keys (k # bs)) = mset ds"
      using ds ms False sk(2) by (simp add: minus_keys_def)
    ultimately show ?thesis by blast
  qed
qed


section \<open>Whole tables\<close>

text \<open>The loop with which the sync protocol fills a table from the store's message ids.\<close>

definition insert_all :: "(bytes \<Rightarrow> bytes) \<Rightarrow> message_id list \<Rightarrow> iblt \<Rightarrow> iblt" where
  "insert_all blake3 ids t = fold (iblt_insert blake3) ids t"

definition wf_ids :: "message_id list \<Rightarrow> bool" where
  "wf_ids ids \<longleftrightarrow> (\<forall>k \<in> set ids. length k = 16)"

definition table_of :: "(bytes \<Rightarrow> bytes) \<Rightarrow> signed_key list \<Rightarrow> iblt \<Rightarrow> bool" where
  "table_of blake3 ds t \<longleftrightarrow>
     length (ib_cells t) = ib_num_cells t \<and> 0 < ib_num_cells t \<and>
     represents (hash_to_cell blake3 (ib_num_cells t)) ds (ib_cells t)"

lemma table_of_new [simp]: "table_of blake3 [] (iblt_new d)"
  by (simp add: table_of_def iblt_new_def Let_def CELLS_PER_DIFF_def represents_new)

lemma table_of_with_cells [simp]: "table_of blake3 [] (iblt_with_cells n)"
  by (simp add: table_of_def iblt_with_cells_def represents_new)

lemma ib_num_cells_insert [simp]: "ib_num_cells (iblt_insert blake3 k t) = ib_num_cells t"
  by (simp add: iblt_insert_def)

lemma table_of_insert:
  "table_of blake3 ds t \<Longrightarrow> length k = 16 \<Longrightarrow> table_of blake3 ((1, k) # ds) (iblt_insert blake3 k t)"
  by (simp add: table_of_def iblt_insert_def insert_loop_add represents_add)

lemma table_of_remove:
  "table_of blake3 ds t \<Longrightarrow> length k = 16 \<Longrightarrow> table_of blake3 ((- 1, k) # ds) (iblt_remove blake3 k t)"
  by (simp add: table_of_def iblt_remove_def remove_loop_add represents_add)

lemma table_of_mset: "table_of blake3 ds t \<Longrightarrow> mset ds = mset es \<Longrightarrow> table_of blake3 es t"
  by (auto simp: table_of_def intro: represents_mset)

lemma insert_all_num_cells [simp]: "ib_num_cells (insert_all blake3 ids t) = ib_num_cells t"
  by (induction ids arbitrary: t) (simp_all add: insert_all_def)

lemma table_of_insert_all:
  "table_of blake3 ds t \<Longrightarrow> wf_ids ids \<Longrightarrow> table_of blake3 (plus_keys ids @ ds) (insert_all blake3 ids t)"
proof (induction ids arbitrary: ds t)
  case Nil
  then show ?case by (simp add: insert_all_def plus_keys_def)
next
  case (Cons k ids)
  have "table_of blake3 (plus_keys ids @ ((1, k) # ds)) (insert_all blake3 ids (iblt_insert blake3 k t))"
    using Cons.prems by (intro Cons.IH table_of_insert) (auto simp: wf_ids_def)
  then show ?case by (simp add: insert_all_def plus_keys_def table_of_mset)
qed

lemma table_of_subtract:
  assumes "table_of blake3 as a" and "table_of blake3 bs b" and "ib_num_cells a = ib_num_cells b"
  obtains d where "iblt_subtract a b = Inr d" and "ib_num_cells d = ib_num_cells a"
    and "table_of blake3 (as @ map flip bs) d"
proof -
  let ?d = "\<lparr>ib_cells = map2 cell_subtract (ib_cells a) (ib_cells b), ib_num_cells = ib_num_cells a\<rparr>"
  have "iblt_subtract a b = Inr ?d"
    using assms by (simp add: iblt_subtract_def table_of_def iblt_with_cells_def Let_def)
  moreover have "table_of blake3 (as @ map flip bs) ?d"
    using assms represents_subtract by (simp add: table_of_def)
  ultimately show thesis using that by auto
qed

lemma wf_ids_keys: "wf_ids ids \<Longrightarrow> wf_keys (plus_keys ids)" "wf_ids ids \<Longrightarrow> wf_keys (minus_keys ids)"
  by (auto simp: wf_ids_def wf_keys_def plus_keys_def minus_keys_def)

text \<open>The difference of two filled tables of the same size is the table of the signed difference.\<close>

lemma table_of_difference:
  assumes "table_of blake3 [] t" "table_of blake3 [] u" "ib_num_cells t = ib_num_cells u"
    and "distinct as" "distinct bs" "wf_ids as" "wf_ids bs"
  obtains d where "iblt_subtract (insert_all blake3 as t) (insert_all blake3 bs u) = Inr d"
    and "ib_num_cells d = ib_num_cells t" and "table_of blake3 (diff_keys as bs) d"
proof -
  have ta: "table_of blake3 (plus_keys as) (insert_all blake3 as t)"
    and tb: "table_of blake3 (plus_keys bs) (insert_all blake3 bs u)"
    using table_of_insert_all assms by force+
  obtain d where d: "iblt_subtract (insert_all blake3 as t) (insert_all blake3 bs u) = Inr d"
    "ib_num_cells d = ib_num_cells t" "table_of blake3 (plus_keys as @ minus_keys bs) d"
    using table_of_subtract [OF ta tb] assms(3) by (auto simp: flip_plus_keys)
  have "wf_keys (diff_keys as bs)"
    using assms(6,7) by (auto simp: diff_keys_def wf_ids_def wf_keys_def plus_keys_def minus_keys_def)
  then have "table_of blake3 (diff_keys as bs) d"
    using d(3) cell_sum_cancel [OF assms(4,5) wf_ids_keys(1) wf_ids_keys(2)] assms(6,7)
    by (simp add: table_of_def represents_def)
  with d that show thesis by blast
qed

lemma split_signed_mset:
  assumes "mset (plus_keys as) + mset (minus_keys bs) = mset (plus_keys cs @ minus_keys ds)"
  shows "mset as = mset cs \<and> mset bs = mset ds"
proof -
  have side: "image_mset snd (filter_mset (\<lambda>x. fst x = s) (mset (plus_keys xs) + mset (minus_keys ys))) =
      (if s = 1 then mset xs else if s = - 1 then mset ys else {#})" for s xs ys
    by (simp add: plus_keys_def minus_keys_def filter_mset_image_mset image_mset.compositionality comp_def)
  show ?thesis using side [of 1 as bs] side [of 1 cs ds] side [of "- 1" as bs] side [of "- 1" cs ds] assms
    by simp
qed

lemma iblt_decode_diff:
  assumes "table_of blake3 (diff_keys as bs) d"
    and "peelable (hash_to_cell blake3 (ib_num_cells d)) (ib_num_cells d) (diff_keys as bs)"
    and "no_false_pure (hash_to_cell blake3 (ib_num_cells d)) (ib_num_cells d) (diff_keys as bs)"
  shows "\<exists>xs ys. iblt_decode blake3 d = Inr (xs, ys)
           \<and> mset xs = mset (filter (\<lambda>k. k \<notin> set bs) as) \<and> mset ys = mset (filter (\<lambda>k. k \<notin> set as) bs)"
proof -
  let ?h = "hash_to_cell blake3 (ib_num_cells d)" and ?n = "ib_num_cells d"
  have "length (diff_keys as bs) \<le> card {j. j < ?n \<and> cell_load ?h (diff_keys as bs) j > 0}"
    using assms(2) by (rule peelable_length)
  also have "\<dots> \<le> card {..<?n}" by (rule card_mono) auto
  finally have len: "length (diff_keys as bs) < ?n * 10" using assms(1) by (simp add: table_of_def)
  have "unit_signs (diff_keys as bs)"
    by (auto simp: unit_signs_def diff_keys_def plus_keys_def minus_keys_def)
  then obtain xs ys where "iblt_decode blake3 d = Inr (xs, ys)"
    and ms: "mset (plus_keys xs) + mset (minus_keys ys) = mset (diff_keys as bs)"
    using decode_loop_complete [of ?h "diff_keys as bs" "ib_cells d" "?n * 10" "[]" "[]"] assms len
    by (auto simp: table_of_def iblt_decode_def)
  with split_signed_mset [OF ms [unfolded diff_keys_def]] show ?thesis by blast
qed

section \<open>One-sided differences\<close>

lemma ic_count_cell_sum: "ic_count (cell_sum h j ds) = (\<Sum>x\<leftarrow>ds. of_nat (occ h (snd x) j) * fst x)"
  by (induction ds) (simp_all add: share_def cell_plus_def ic_count_times key_cell_def cell_new_def)

lemma occ_le: "occ h k j \<le> 3"
  unfolding occ_def HASH_COUNT_def using length_filter_le [of "\<lambda>i. h k i = j" "[0..<3]"] by simp

lemma ic_count_plus:
  "\<forall>x \<in> set es. fst x = 1 \<Longrightarrow> ic_count (cell_sum h j es) = of_nat (cell_load h es j)"
  unfolding ic_count_cell_sum by (induction es) (auto simp: cell_load_def)

lemma cell_load_le: "cell_load h es j \<le> 3 * length es"
proof (induction es)
  case Nil
  then show ?case by (simp add: cell_load_def)
next
  case (Cons x es)
  then show ?case using occ_le [of h "snd x" j] by (simp add: cell_load_def)
qed

lemma no_false_pure_plus_keys:
  assumes "3 * length ks < 2 ^ 32 - 1"
  shows "no_false_pure h n (plus_keys ks)"
  unfolding no_false_pure_def
proof (intro ballI allI impI)
  fix es j
  assume es: "es \<in> set (subseqs (plus_keys ks))" and pure: "cell_is_pure (cell_sum h j es)"
  have "set es \<subseteq> set (plus_keys ks)"
    using es subseqs_powset [of "plus_keys ks"] by blast
  then have "\<forall>x \<in> set es. fst x = 1" by (auto simp: plus_keys_def)
  then have cnt: "ic_count (cell_sum h j es) = of_nat (cell_load h es j)" by (rule ic_count_plus)
  have "length es \<le> length ks"
    using es list_emb_length [of "(=)" es "plus_keys ks"] by (simp add: plus_keys_def)
  then have small: "cell_load h es j < 2 ^ 32 - 1"
    using cell_load_le [of h es j] assms by simp
  have "unat (ic_count (cell_sum h j es)) = cell_load h es j"
    using small by (simp add: cnt unat_of_nat)
  moreover have "unat (ic_count (cell_sum h j es)) = 1 \<or> unat (ic_count (cell_sum h j es)) = 2 ^ 32 - 1"
    using pure by (auto simp: cell_is_pure_def unsigned_minus_1_eq_mask mask_eq_exp_minus_1)
  ultimately show "cell_load h es j = 1" using small by simp
qed


section \<open>The check value is linear\<close>

lemma nat_to_le_xor: "nat_to_le n (x XOR y) = xor_bytes (nat_to_le n x) (nat_to_le n y)"
proof (induction n arbitrary: x y)
  case 0
  then show ?case by (simp add: xor_bytes_def)
next
  case (Suc n)
  have "(x XOR y) div 256 = (x div 256) XOR (y div 256)"
    using drop_bit_xor [of 8 x y] by (simp add: drop_bit_eq_div)
  moreover have "(x XOR y) mod 256 = (x mod 256) XOR (y mod 256)"
    using take_bit_xor [of 8 x y] by (simp add: take_bit_eq_mod)
  moreover have "(word_of_nat (a XOR b) :: u8) = word_of_nat a XOR word_of_nat b" for a b
    by (rule bit_word_eqI) (simp add: bit_simps)
  ultimately show ?case using Suc.IH by (simp add: xor_bytes_def)
qed

lemma u32_to_le_xor: "u32_to_le (v XOR w) = xor_bytes (u32_to_le v) (u32_to_le w)"
  by (simp add: u32_to_le_def unsigned_xor_eq nat_to_le_xor)

lemma take_xor_bytes: "take n (xor_bytes xs ys) = xor_bytes (take n xs) (take n ys)"
  by (simp add: xor_bytes_def take_map take_zip)

lemma key_check_xor:
  assumes "length a = 16" and "length b = 16"
  shows "key_check (xor_bytes a b) = key_check a XOR key_check b"
proof -
  have "take 4 x = u32_to_le (u32_of_le (take 4 x))" if "length x = 16" for x
    using that by (simp add: u32_le_inverse)
  then obtain v w where vw: "take 4 a = u32_to_le v" "take 4 b = u32_to_le w"
    using assms by blast
  show ?thesis by (simp add: key_check_def take_xor_bytes vw u32_to_le_xor [symmetric])
qed



definition check_ok :: "iblt_cell \<Rightarrow> bool" where
  "check_ok c \<longleftrightarrow> length (ic_key_sum c) = 16 \<and> ic_key_check c = key_check (ic_key_sum c)"

lemma check_ok_new [simp]: "check_ok cell_new"
  by (simp add: check_ok_def cell_new_def key_check_def numeral_eq_Suc u32_of_le_eval)

lemma check_ok_key [simp]: "check_ok (key_cell s k) \<longleftrightarrow> length k = 16"
  by (simp add: check_ok_def key_cell_def)

lemma check_ok_plus: "check_ok a \<Longrightarrow> check_ok b \<Longrightarrow> check_ok (cell_plus a b)"
  by (simp add: check_ok_def cell_plus_def key_check_xor)

lemma check_ok_neg [simp]: "check_ok (cell_neg c) = check_ok c"
  by (simp add: check_ok_def cell_neg_def)

lemma check_ok_add_loop:
  "check_ok d \<Longrightarrow> \<forall>c \<in> set cells. check_ok c \<Longrightarrow> \<forall>c \<in> set (add_loop f d idxs cells). check_ok c"
proof (induction idxs arbitrary: cells)
  case (Cons i idxs)
  have "\<forall>c \<in> set (cells[f i := cell_plus (cells ! f i) d]). check_ok c"
    using Cons.prems check_ok_plus
    by (cases "f i < length cells")
      (auto simp: list_update_beyond dest!: set_update_subset_insert [THEN subsetD])
  then show ?case using Cons by simp
qed simp

lemma decode_loop_no_mismatch:
  "\<forall>c \<in> set cells. check_ok c \<Longrightarrow> decode_loop left h cells as bs \<noteq> Inl decode_mismatch"
proof (induction left arbitrary: cells as bs)
  case 0
  then show ?case by (simp add: decode_mismatch_def decode_exceeded_def)
next
  case (Suc left)
  show ?case
  proof (cases "first_pure cells")
    case None
    then show ?thesis by (simp add: decode_mismatch_def decode_stuck_def)
  next
    case (Some idx)
    then have ok: "check_ok (cells ! idx)" using Suc.prems first_pure_Some nth_mem by blast
    let ?k = "ic_key_sum (cells ! idx)" and ?s = "ic_count (cells ! idx)"
    let ?cells = "peel_loop (h ?k) ?s ?k [0..<HASH_COUNT] cells"
    have "\<forall>c \<in> set ?cells. check_ok c"
      unfolding peel_loop_add using ok Suc.prems by (intro check_ok_add_loop) (auto simp: check_ok_def [of "cells ! idx"])
    then have "\<forall>c \<in> set (?cells[idx := cell_new]). check_ok c"
      by (auto dest!: set_update_subset_insert [THEN subsetD])
    from Suc.IH [OF this] show ?thesis using Some ok by (simp add: check_ok_def Let_def)
  qed
qed

text \<open>The tables the operations of the module build.\<close>

inductive built_iblt :: "(bytes \<Rightarrow> bytes) \<Rightarrow> iblt \<Rightarrow> bool" for blake3 where
  built_new: "built_iblt blake3 (iblt_new d)"
| built_with_cells: "built_iblt blake3 (iblt_with_cells n)"
| built_insert: "built_iblt blake3 t \<Longrightarrow> length k = 16 \<Longrightarrow> built_iblt blake3 (iblt_insert blake3 k t)"
| built_remove: "built_iblt blake3 t \<Longrightarrow> length k = 16 \<Longrightarrow> built_iblt blake3 (iblt_remove blake3 k t)"
| built_subtract: "built_iblt blake3 t \<Longrightarrow> built_iblt blake3 u \<Longrightarrow> iblt_subtract t u = Inr d \<Longrightarrow> built_iblt blake3 d"

lemma check_ok_subtract:
  "\<forall>c \<in> set xs. check_ok c \<Longrightarrow> \<forall>c \<in> set ys. check_ok c \<Longrightarrow> \<forall>c \<in> set (map2 cell_subtract xs ys). check_ok c"
  by (auto simp: cell_subtract_plus intro!: check_ok_plus dest: set_zip_leftD set_zip_rightD)

lemma built_iblt_check_ok: "built_iblt blake3 t \<Longrightarrow> \<forall>c \<in> set (ib_cells t). check_ok c"
proof (induction rule: built_iblt.induct)
  case (built_subtract t u d)
  have "\<forall>c \<in> set (map2 cell_subtract (take n (ib_cells t)) (take n (ib_cells u))). check_ok c" for n
    using built_subtract.IH by (intro check_ok_subtract) (auto dest: in_set_takeD)
  then show ?case using built_subtract.hyps(3)
    by (force simp: iblt_subtract_def Let_def iblt_with_cells_def split: if_splits)
next
  case (built_insert t k)
  then show ?case
    using check_ok_add_loop [of "key_cell (1) k" "ib_cells t"] by (simp add: iblt_insert_def insert_loop_add)
next
  case (built_remove t k)
  then show ?case
    using check_ok_add_loop [of "key_cell (- 1) k" "ib_cells t"] by (simp add: iblt_remove_def remove_loop_add)
qed (simp_all add: iblt_new_def iblt_with_cells_def Let_def)



section \<open>The wire format of tables\<close>

definition wf_iblt :: "iblt \<Rightarrow> bool" where
  "wf_iblt t \<longleftrightarrow> length (ib_cells t) = ib_num_cells t \<and> list_all wf_cell (ib_cells t)"

text \<open>What the one-byte count of the wire format keeps of a cell.\<close>

definition wire_cell :: "iblt_cell \<Rightarrow> iblt_cell" where
  "wire_cell c = c\<lparr>ic_count := word_of_nat (unat (ic_count c) mod 256)\<rparr>"

lemma length_cell_to_bytes: "wf_cell c \<Longrightarrow> length (cell_to_bytes c) = 21"
  by (simp add: cell_to_bytes_def wf_cell_def)

lemma cell_roundtrip: "wf_cell c \<Longrightarrow> cell_from_bytes (cell_to_bytes c) = wire_cell c"
proof -
  assume wf: "wf_cell c"
  have "sub_slice 1 17 ([ucast (ic_count c)] @ ic_key_sum c @ u32_to_le (ic_key_check c)) = ic_key_sum c"
    using wf by (intro sub_slice_append) (simp_all add: wf_cell_def)
  moreover have "sub_slice 17 21 (([ucast (ic_count c)] @ ic_key_sum c) @ u32_to_le (ic_key_check c) @ [])
      = u32_to_le (ic_key_check c)"
    using wf by (intro sub_slice_append) (simp_all add: wf_cell_def)
  moreover have "ucast (ucast w :: u8) = (word_of_nat (unat w mod 256) :: i32)" for w :: i32
    by (simp add: word_unat_eq_iff unsigned_ucast_eq unat_of_nat take_bit_eq_mod unat_mod_distrib)
  ultimately show ?thesis by (simp add: cell_from_bytes_def cell_to_bytes_def wire_cell_def)
qed

lemma sub_slice_concat:
  "\<forall>x \<in> set xs. length x = m \<Longrightarrow> i < length xs \<Longrightarrow> sub_slice (i * m) (i * m + m) (concat xs) = xs ! i"
proof (induction xs arbitrary: i)
  case (Cons x xs)
  then show ?case by (cases i) (auto simp: sub_slice_def)
qed simp


lemma u16_first_two: "u16_of_le [(u16_to_le w @ zs) ! 0, (u16_to_le w @ zs) ! 1] = w"
proof -
  obtain a b where "u16_to_le w = [a, b]" by (rule u16_to_leE)
  then show ?thesis using u16_le_roundtrip [of w] by simp
qed

lemma iblt_roundtrip:
  assumes "wf_iblt t" and "ib_num_cells t \<le> 65535"
  shows "\<exists>bs. iblt_to_bytes t = Inr bs \<and> iblt_from_bytes bs = Inr (t\<lparr>ib_cells := map wire_cell (ib_cells t)\<rparr>)"
proof -
  let ?n = "ib_num_cells t" and ?body = "concat (map cell_to_bytes (ib_cells t))"
  let ?bs = "u16_to_le (word_of_nat ?n) @ ?body"
  have len: "\<forall>x \<in> set (map cell_to_bytes (ib_cells t)). length x = 21"
    using assms(1) by (auto simp: wf_iblt_def list_all_iff length_cell_to_bytes)
  then have body: "length ?body = ?n * 21"
    using assms(1) by (simp add: length_concat comp_def wf_iblt_def sum_list_triv cong: map_cong)
  have chunk: "cell_from_bytes (sub_slice (2 + i * 21) (2 + i * 21 + 21) ?bs) = wire_cell (ib_cells t ! i)"
    if "i < ?n" for i
  proof -
    have "sub_slice (2 + i * 21) (2 + i * 21 + 21) ?bs = sub_slice (i * 21) (i * 21 + 21) ?body"
      by (simp add: sub_slice_def)
    also have "\<dots> = cell_to_bytes (ib_cells t ! i)"
      using that assms(1) sub_slice_concat [OF len, of i] by (simp add: wf_iblt_def)
    finally show ?thesis using that assms(1) by (simp add: cell_roundtrip wf_iblt_def list_all_length)
  qed
  have "map (\<lambda>i. cell_from_bytes (sub_slice (2 + i * 21) (2 + i * 21 + 21) ?bs)) [0..<?n] = map wire_cell (ib_cells t)"
    using chunk assms(1) by (intro nth_equalityI) (simp_all add: wf_iblt_def)
  moreover have "u16_of_le [?bs ! 0, ?bs ! 1] = word_of_nat ?n"
    using u16_first_two by blast
  moreover have "unat (word_of_nat ?n :: u16) = ?n" using assms(2) by (simp add: unat_of_nat)
  ultimately have "iblt_from_bytes ?bs = Inr (t\<lparr>ib_cells := map wire_cell (ib_cells t)\<rparr>)"
    using body by (simp add: iblt_from_bytes_def Let_def)
  then show ?thesis using assms(2) by (simp add: iblt_to_bytes_def)
qed


section \<open>Properties\<close>

lemma ex_less_upt: "(\<exists>j < n. P j) \<longleftrightarrow> list_ex P [0..<n]"
  by (auto simp: list_ex_iff)

lemma all_less_upt: "(\<forall>j < n. P j) \<longleftrightarrow> list_all P [0..<n]"
  by (auto simp: list_all_iff)

text \<open>A stand-in digest for concrete inputs: key byte and hash index choose the cell.\<close>

definition toy_hash :: "bytes \<Rightarrow> bytes" where
  "toy_hash bs = (bs ! 1 + bs ! 0) # replicate 31 0"

definition toy_id :: "u8 \<Rightarrow> message_id" where
  "toy_id b = b # replicate 15 0"

lemma nat_of_le_zeros [simp]: "nat_of_le (replicate n 0) = 0"
  by (induction n) simp_all

lemma toy_hash_cell: "hash_to_cell toy_hash n (toy_id b) i = unat (b + word_of_nat i) mod n"
proof -
  have "unat (b + word_of_nat i) < 2 ^ 64" using unat_bound [of "b + word_of_nat i"] by simp
  then show ?thesis by (simp add: hash_to_cell_def cell_index_def toy_hash_def toy_id_def)
qed

lemma toy_id_simps [simp]: "length (toy_id b) = 16" "toy_id a = toy_id b \<longleftrightarrow> a = b"
  by (simp_all add: toy_id_def)

lemmas peel_eval = peelable_def no_false_pure_def cell_is_pure_def ic_count_cell_sum cell_load_def occ_def
  HASH_COUNT_def ex_less_upt all_less_upt diff_keys_def plus_keys_def minus_keys_def
  toy_hash_cell upt_conv_Cons upt_rec_numeral

text \<open>
  C2. Set reconciliation is exact. Two parties fill tables of the same size \<open>n\<close> with their message
  ids, one table is subtracted from the other and the difference is decoded. If the ids in which
  the parties differ are peelable under the hash and no mixed cell of them shows a count of plus or minus
  one, decoding succeeds within its iteration limit and returns exactly the two set differences,
  however many ids the parties share.
\<close>

theorem reconcile_exact:
  assumes "distinct as" and "distinct bs" and "wf_ids as" and "wf_ids bs" and "0 < n"
    and "peelable (hash_to_cell blake3 n) n (diff_keys as bs)"
    and "no_false_pure (hash_to_cell blake3 n) n (diff_keys as bs)"
  shows "\<exists>d xs ys.
      iblt_subtract (insert_all blake3 as (iblt_with_cells n)) (insert_all blake3 bs (iblt_with_cells n)) = Inr d
    \<and> iblt_decode blake3 d = Inr (xs, ys)
    \<and> mset xs = mset (filter (\<lambda>k. k \<notin> set bs) as) \<and> mset ys = mset (filter (\<lambda>k. k \<notin> set as) bs)"
proof -
  have n: "ib_num_cells (iblt_with_cells n) = n" using assms(5) by (simp add: iblt_with_cells_def)
  obtain d where "iblt_subtract (insert_all blake3 as (iblt_with_cells n)) (insert_all blake3 bs (iblt_with_cells n)) = Inr d"
    "ib_num_cells d = n" "table_of blake3 (diff_keys as bs) d"
    using table_of_difference [OF table_of_with_cells table_of_with_cells refl assms(1-4)] n by metis
  then show ?thesis using iblt_decode_diff [of blake3 as bs d] assms(6,7) by blast
qed

theorem reconcile_exact_witness:
  "\<exists>d xs ys.
      iblt_subtract (insert_all toy_hash [toy_id 0, toy_id 1] (iblt_with_cells 6))
                    (insert_all toy_hash [toy_id 1, toy_id 2] (iblt_with_cells 6)) = Inr d
    \<and> iblt_decode toy_hash d = Inr (xs, ys) \<and> mset xs = {#toy_id 0#} \<and> mset ys = {#toy_id 2#}"
proof -
  have "peelable (hash_to_cell toy_hash 6) 6 (diff_keys [toy_id 0, toy_id 1] [toy_id 1, toy_id 2])"
    by (simp add: peel_eval)
  moreover have "no_false_pure (hash_to_cell toy_hash 6) 6 (diff_keys [toy_id 0, toy_id 1] [toy_id 1, toy_id 2])"
    by (simp add: peel_eval)
  ultimately show ?thesis
    using reconcile_exact [of "[toy_id 0, toy_id 1]" "[toy_id 1, toy_id 2]" 6 toy_hash]
    by (simp add: wf_ids_def)
qed



text \<open>
  When one party's ids include the other's, peelability alone is enough: no cell of a one-sided
  difference can be mistaken for a pure one at any table size the wire format admits, so decoding
  returns the missing ids and an empty list for the other side.
\<close>

lemma reconcile_one_sided:
  assumes "distinct as" and "distinct bs" and "wf_ids as" and "set bs \<subseteq> set as"
    and "0 < n" and "n \<le> 65535"
    and "peelable (hash_to_cell blake3 n) n (diff_keys as bs)"
  shows "\<exists>d xs.
      iblt_subtract (insert_all blake3 as (iblt_with_cells n)) (insert_all blake3 bs (iblt_with_cells n)) = Inr d
    \<and> iblt_decode blake3 d = Inr (xs, []) \<and> mset xs = mset (filter (\<lambda>k. k \<notin> set bs) as)"
proof -
  let ?h = "hash_to_cell blake3 n"
  have diff: "diff_keys as bs = plus_keys (filter (\<lambda>k. k \<notin> set bs) as)"
    using assms(4) by (auto simp: diff_keys_def minus_keys_def filter_empty_conv)
  have "length (diff_keys as bs) \<le> card {j. j < n \<and> cell_load ?h (diff_keys as bs) j > 0}"
    using assms(7) by (rule peelable_length)
  also have "\<dots> \<le> card {..<n}" by (rule card_mono) auto
  finally have "length (filter (\<lambda>k. k \<notin> set bs) as) \<le> n" by (simp add: diff plus_keys_def)
  then have nfp: "no_false_pure ?h n (diff_keys as bs)"
    unfolding diff using assms(6) by (intro no_false_pure_plus_keys) simp
  have n: "ib_num_cells (iblt_with_cells n) = n" using assms(5) by (simp add: iblt_with_cells_def)
  have wf: "wf_ids bs" using assms(3,4) by (auto simp: wf_ids_def)
  obtain d where "iblt_subtract (insert_all blake3 as (iblt_with_cells n)) (insert_all blake3 bs (iblt_with_cells n)) = Inr d"
    "ib_num_cells d = n" "table_of blake3 (diff_keys as bs) d"
    using table_of_difference [OF table_of_with_cells table_of_with_cells refl assms(1-3) wf] n by metis
  moreover have "filter (\<lambda>k. k \<notin> set as) bs = []" using assms(4) by (auto simp: filter_empty_conv)
  ultimately show ?thesis using iblt_decode_diff [of blake3 as bs d] assms(7) nfp by auto
qed

text \<open>
  The consistency check of the decoder never fires on a table built by the operations of the
  module. The check value is the first four bytes of the key, it is linear in exclusive or, and so it
  holds for every sum of keys as well as for a single key.
\<close>

lemma key_check_never_fails:
  assumes "built_iblt blake3 t"
  shows "iblt_decode blake3 t \<noteq> Inl decode_mismatch"
  unfolding iblt_decode_def using built_iblt_check_ok [OF assms] by (rule decode_loop_no_mismatch)

definition colliding_hash :: "bytes \<Rightarrow> bytes" where
  "colliding_hash bs = bs ! 0 # replicate 31 0"

lemma colliding_hash_cell: "i < 3 \<Longrightarrow> hash_to_cell colliding_hash 3 k i = i"
  by (simp add: hash_to_cell_def cell_index_def colliding_hash_def unat_of_nat)

lemma xor_toy_id: "xor_bytes (toy_id a) (toy_id b) = toy_id (a XOR b)"
  by (simp add: toy_id_def xor_bytes_def zip_replicate)

lemma cell_new_toy: "cell_new = \<lparr>ic_count = 0, ic_key_sum = toy_id 0, ic_key_check = 0\<rparr>"
  by (simp add: cell_new_def toy_id_def numeral_eq_Suc)

lemma key_check_toy: "key_check (toy_id b) = ucast b"
  by (simp add: key_check_def toy_id_def numeral_eq_Suc u32_of_le_eval)

text \<open>
  Decoding can return an id that neither party holds: three ids that share their cells, two on
  one side and one on the other, leave cells of count one whose key is the exclusive or of the three, and
  the decoder reports that key as the only difference.
\<close>

lemma phantom_key_decoded:
  "\<exists>d. iblt_subtract (insert_all colliding_hash [toy_id 1, toy_id 2] (iblt_with_cells 3))
                     (insert_all colliding_hash [toy_id 4] (iblt_with_cells 3)) = Inr d
     \<and> iblt_decode colliding_hash d = Inr ([toy_id 7], [])"
proof -
  have three: "replicate 3 c = [c, c, c]" for c :: iblt_cell by (simp add: numeral_eq_Suc)
  have "Suc 29 = 30" "Suc 28 = 29" by simp_all
  note fuel = decode_loop.simps(2) [of 29, unfolded this] decode_loop.simps(2) [of 28, unfolded this]
  show ?thesis
    by (simp add: insert_all_def iblt_with_cells_def iblt_insert_def HASH_COUNT_def upt_conv_Cons
        upt_rec_numeral colliding_hash_cell three cell_new_toy xor_in_def xor_toy_id key_check_toy Let_def
        iblt_subtract_def cell_subtract_def iblt_decode_def fuel cell_is_pure_def cell_is_empty_def xor_out_def)
qed

lemma wire_cell_id: "wire_cell c = c \<longleftrightarrow> unat (ic_count c) < 256"
proof -
  have "wire_cell c = c \<longleftrightarrow> unat (ic_count c) mod 256 = unat (ic_count c)"
    unfolding wire_cell_def by (cases c) (simp add: word_unat_eq_iff unat_of_nat)
  also have "\<dots> \<longleftrightarrow> unat (ic_count c) < 256"
    by (metis mod_less mod_less_divisor zero_less_numeral)
  finally show ?thesis .
qed

lemma length_iblt_to_bytes:
  "wf_iblt t \<Longrightarrow> iblt_to_bytes t = Inr bs \<Longrightarrow> length bs = serialized_size t"
  by (auto simp: iblt_to_bytes_def serialized_size_def length_concat comp_def wf_iblt_def list_all_iff
      length_cell_to_bytes sum_list_triv cong: map_cong split: if_splits)

interpretation iblt_codec: wire_codec iblt_to_bytes iblt_from_bytes
  "\<lambda>t. wf_iblt t \<and> ib_num_cells t \<le> 65535 \<and> (\<forall>c \<in> set (ib_cells t). unat (ic_count c) < 256)"
proof
  fix t assume a: "wf_iblt t \<and> ib_num_cells t \<le> 65535 \<and> (\<forall>c \<in> set (ib_cells t). unat (ic_count c) < 256)"
  then have "map wire_cell (ib_cells t) = ib_cells t" by (simp add: map_idI wire_cell_id)
  then show "\<exists>bs. iblt_to_bytes t = Inr bs \<and> iblt_from_bytes bs = Inr t"
    using a iblt_roundtrip [of t] by simp
qed

text \<open>
  The wire format carries a table with its counts reduced to their low byte: every well-formed
  table of at most 65535 cells is serialised in its announced size and read back with each count
  taken modulo 256, so it arrives unchanged exactly when all its counts lie between 0 and 255.
\<close>

lemma iblt_wire_keeps_low_count:
  assumes "wf_iblt t" and "ib_num_cells t \<le> 65535"
  shows "(\<exists>bs. iblt_to_bytes t = Inr bs \<and> length bs = serialized_size t
            \<and> iblt_from_bytes bs = Inr (t\<lparr>ib_cells := map wire_cell (ib_cells t)\<rparr>))
       \<and> (map wire_cell (ib_cells t) = ib_cells t \<longleftrightarrow> (\<forall>c \<in> set (ib_cells t). unat (ic_count c) < 256))"
proof -
  obtain bs where "iblt_to_bytes t = Inr bs"
    "iblt_from_bytes bs = Inr (t\<lparr>ib_cells := map wire_cell (ib_cells t)\<rparr>)"
    using iblt_roundtrip [OF assms] by blast
  moreover have "map wire_cell (ib_cells t) = ib_cells t \<longleftrightarrow> (\<forall>c \<in> set (ib_cells t). unat (ic_count c) < 256)"
    by (simp add: map_idI wire_cell_id [symmetric] list_eq_iff_nth_eq all_set_conv_all_nth)
  ultimately show ?thesis using length_iblt_to_bytes [OF assms(1)] by blast
qed

text \<open>
  Peers whose \<open>usize\<close> is 32 and 64 bits wide place keys in different cells of the same table:
  for every size the constructor chooses some digest value has two different cell indices.
\<close>

lemma cell_index_differs_across_targets:
  "\<exists>value. value < 2 ^ 64 \<and> cell_index 32 value (ib_num_cells (iblt_new d)) \<noteq> cell_index 64 value (ib_num_cells (iblt_new d))"
proof -
  let ?n = "max d 1 * 3"
  have "\<not> 3 dvd (2 ^ 32 :: nat)" by simp
  then have "\<not> ?n dvd 2 ^ 32" by (metis dvd_mult_right)
  then have "cell_index 32 (2 ^ 32) ?n \<noteq> cell_index 64 (2 ^ 32) ?n"
    by (simp add: cell_index_def mod_eq_0_iff_dvd del: One_nat_def)
  then show ?thesis by (intro exI [of _ "2 ^ 32"]) (simp add: iblt_new_def CELLS_PER_DIFF_def Let_def)
qed

end
