(* ===== verification/Store_Backend.thy ===== *)
theory Store_Backend
  imports Drift_Prelude
begin

text \<open>
  The storage trait of \<open>src/core/src/store/backend.rs\<close>. A value of type \<open>'s storage_backend\<close> is an
  implementation of the trait over a state \<open>'s\<close>: the methods that write return the new state next to
  their result. The components that persist data take such a record as an argument, as the code
  takes a \<open>dyn StorageBackend\<close>. The locale \<open>reliable_backend\<close> is the contract the callers rely on when
  the medium does not fail; it is interpreted on \<open>MemoryStorage\<close>.
\<close>

section \<open>The trait\<close>

type_synonym scan_result = "(bytes \<times> bytes) list"

record 's storage_backend =
  bk_put :: "bytes \<Rightarrow> bytes \<Rightarrow> 's \<Rightarrow> (string + unit) \<times> 's"
  bk_get :: "bytes \<Rightarrow> 's \<Rightarrow> string + bytes option"
  bk_remove :: "bytes \<Rightarrow> 's \<Rightarrow> (string + unit) \<times> 's"
  bk_scan_prefix :: "bytes \<Rightarrow> 's \<Rightarrow> string + scan_result"
  bk_count_prefix :: "bytes \<Rightarrow> 's \<Rightarrow> string + nat"
  bk_flush :: "'s \<Rightarrow> (string + unit) \<times> 's"
  bk_approximate_size :: "'s \<Rightarrow> string + u64"

definition starts_with :: "bytes \<Rightarrow> bytes \<Rightarrow> bool" where
  "starts_with p key \<longleftrightarrow> take (length p) key = p"

text \<open>A Rust string is the list of the bytes of its UTF-8 encoding, one \<open>char\<close> each.\<close>

definition as_bytes :: "string \<Rightarrow> bytes" where
  "as_bytes s = map (\<lambda>c. word_of_nat (of_char c)) s"

text \<open>How the callers treat failures: a failed scan is empty, a failed count is zero, a failed removal is ignored.\<close>

definition scan_or_empty :: "'s storage_backend \<Rightarrow> bytes \<Rightarrow> 's \<Rightarrow> scan_result" where
  "scan_or_empty B p s = (case bk_scan_prefix B p s of Inl _ \<Rightarrow> [] | Inr es \<Rightarrow> es)"

definition count_or_zero :: "'s storage_backend \<Rightarrow> bytes \<Rightarrow> 's \<Rightarrow> nat" where
  "count_or_zero B p s = (case bk_count_prefix B p s of Inl _ \<Rightarrow> 0 | Inr n \<Rightarrow> n)"

fun remove_keys :: "'s storage_backend \<Rightarrow> bytes list \<Rightarrow> 's \<Rightarrow> 's" where
  "remove_keys B [] s = s"
| "remove_keys B (k # ks) s = remove_keys B ks (snd (bk_remove B k s))"

text \<open>The entries of a scan that deserialise, with their keys.\<close>

definition decoded :: "(bytes \<Rightarrow> string + 'm) \<Rightarrow> scan_result \<Rightarrow> (bytes \<times> 'm) list" where
  "decoded deserialize es =
     List.map_filter (\<lambda>(k, v). case deserialize v of Inl _ \<Rightarrow> None | Inr m \<Rightarrow> Some (k, m)) es"

section \<open>MemoryStorage\<close>

type_synonym memory_storage = "(bytes, bytes) hmap"

definition memory_storage_new :: memory_storage where
  "memory_storage_new = []"

definition mem_put :: "bytes \<Rightarrow> bytes \<Rightarrow> memory_storage \<Rightarrow> (string + unit) \<times> memory_storage" where
  "mem_put key val data = (Inr (), hm_insert key val data)"

definition mem_get :: "bytes \<Rightarrow> memory_storage \<Rightarrow> string + bytes option" where
  "mem_get key data = Inr (hm_get data key)"

definition mem_remove :: "bytes \<Rightarrow> memory_storage \<Rightarrow> (string + unit) \<times> memory_storage" where
  "mem_remove key data = (Inr (), hm_remove key data)"

definition mem_scan_prefix :: "bytes \<Rightarrow> memory_storage \<Rightarrow> string + scan_result" where
  "mem_scan_prefix p data = Inr (filter (\<lambda>(key, val). starts_with p key) data)"

definition mem_count_prefix :: "bytes \<Rightarrow> memory_storage \<Rightarrow> string + nat" where
  "mem_count_prefix p data = Inr (length (filter (starts_with p) (map fst data)))"

definition mem_flush :: "memory_storage \<Rightarrow> (string + unit) \<times> memory_storage" where
  "mem_flush data = (Inr (), data)"

definition mem_approximate_size :: "memory_storage \<Rightarrow> string + u64" where
  "mem_approximate_size data = Inr (\<Sum>(k, v)\<leftarrow>data. word_of_nat (length k + length v))"

definition memory_backend :: "memory_storage storage_backend" where
  "memory_backend =
     \<lparr>bk_put = mem_put, bk_get = mem_get, bk_remove = mem_remove, bk_scan_prefix = mem_scan_prefix,
      bk_count_prefix = mem_count_prefix, bk_flush = mem_flush,
      bk_approximate_size = mem_approximate_size\<rparr>"

section \<open>The contract\<close>

lemma inj_as_bytes: "inj as_bytes"
proof -
  have "inj (\<lambda>c :: char. word_of_nat (of_char c) :: u8)"
  proof (rule injI)
    fix c d :: char
    assume "(word_of_nat (of_char c) :: u8) = word_of_nat (of_char d)"
    moreover have "(of_char c :: nat) < 256" "(of_char d :: nat) < 256" by simp_all
    ultimately have "(of_char c :: nat) = of_char d"
      by (simp add: word_unat_eq_iff take_bit_eq_mod unat_of_nat)
    then show "c = d" by simp
  qed
  then show ?thesis unfolding as_bytes_def by (simp add: inj_mapI)
qed

lemma as_bytes_eq [simp]: "as_bytes s = as_bytes t \<longleftrightarrow> s = t"
  using inj_as_bytes by (auto dest: injD)

lemma as_bytes_append [simp]: "as_bytes (s @ t) = as_bytes s @ as_bytes t"
  by (simp add: as_bytes_def)

lemma starts_with_as_bytes: "starts_with (as_bytes s) (as_bytes t) \<longleftrightarrow> (\<exists>u. t = s @ u)"
proof -
  have "starts_with (as_bytes s) (as_bytes t) \<longleftrightarrow> as_bytes (take (length s) t) = as_bytes s"
    by (simp add: starts_with_def as_bytes_def take_map)
  then show ?thesis by (metis as_bytes_eq append_take_drop_id append_eq_conv_conj)
qed

lemma starts_with_append [simp]: "starts_with p (p @ xs)"
  by (simp add: starts_with_def)

lemma starts_withE: "starts_with p key \<Longrightarrow> (\<And>xs. key = p @ xs \<Longrightarrow> thesis) \<Longrightarrow> thesis"
  by (metis starts_with_def append_take_drop_id)

text \<open>
  \<open>entries s\<close> is the key-value map a state stands for. Writes succeed and change that map at one key,
  a scan lists the entries below a prefix once each, in any order, and a count agrees with the scan.
\<close>

locale reliable_backend =
  fixes B :: "'s storage_backend"
    and sound :: "'s \<Rightarrow> bool"
    and entries :: "'s \<Rightarrow> bytes \<rightharpoonup> bytes"
  assumes put_ok: "sound s \<Longrightarrow> \<exists>s'. bk_put B k v s = (Inr (), s') \<and> sound s' \<and> entries s' = (entries s)(k \<mapsto> v)"
    and get_ok: "sound s \<Longrightarrow> bk_get B k s = Inr (entries s k)"
    and remove_ok: "sound s \<Longrightarrow> \<exists>s'. bk_remove B k s = (Inr (), s') \<and> sound s' \<and> entries s' = (entries s)(k := None)"
    and scan_ok: "sound s \<Longrightarrow> \<exists>es. bk_scan_prefix B p s = Inr es \<and> distinct (map fst es)
                    \<and> set es = {(k, v). entries s k = Some v \<and> starts_with p k}"
    and count_ok: "sound s \<Longrightarrow> bk_scan_prefix B p s = Inr es \<Longrightarrow> bk_count_prefix B p s = Inr (length es)"
    and flush_ok: "sound s \<Longrightarrow> \<exists>s'. bk_flush B s = (Inr (), s') \<and> sound s' \<and> entries s' = entries s"
begin

lemma putE:
  assumes "sound s"
  obtains s' where "bk_put B k v s = (Inr (), s')" "sound s'" "entries s' = (entries s)(k \<mapsto> v)"
  using put_ok [OF assms] by blast

lemma removeE:
  assumes "sound s"
  obtains s' where "bk_remove B k s = (Inr (), s')" "sound s'" "entries s' = (entries s)(k := None)"
  using remove_ok [OF assms] by blast

lemma scanE:
  assumes "sound s"
  obtains es where "bk_scan_prefix B p s = Inr es" "distinct (map fst es)"
    and "set es = {(k, v). entries s k = Some v \<and> starts_with p k}"
  using scan_ok [OF assms, of p] by blast

lemma scan_or_empty:
  assumes "sound s"
  shows "distinct (map fst (scan_or_empty B p s))"
    and "set (scan_or_empty B p s) = {(k, v). entries s k = Some v \<and> starts_with p k}"
    and "count_or_zero B p s = length (scan_or_empty B p s)"
proof -
  obtain es where "bk_scan_prefix B p s = Inr es" "distinct (map fst es)"
    "set es = {(k, v). entries s k = Some v \<and> starts_with p k}"
    by (rule scanE [OF assms])
  with count_ok [OF assms, of p es]
  show "distinct (map fst (scan_or_empty B p s))"
    and "set (scan_or_empty B p s) = {(k, v). entries s k = Some v \<and> starts_with p k}"
    and "count_or_zero B p s = length (scan_or_empty B p s)"
    by (simp_all add: scan_or_empty_def count_or_zero_def)
qed

lemma remove_keys_ok:
  "sound s \<Longrightarrow> sound (remove_keys B ks s) \<and> entries (remove_keys B ks s) = (entries s) |` (- set ks)"
proof (induction ks arbitrary: s)
  case (Cons k ks)
  obtain s' where s': "bk_remove B k s = (Inr (), s')" "sound s'" "entries s' = (entries s)(k := None)"
    by (rule removeE [OF Cons.prems])
  show ?case using Cons.IH [OF s'(2)] by (auto simp: s' restrict_map_def fun_eq_iff)
qed (simp add: restrict_map_def)

lemma scan_empty_iff:
  assumes "sound s"
  shows "bk_count_prefix B p s = Inr 0 \<longleftrightarrow> (\<forall>k v. entries s k = Some v \<longrightarrow> \<not> starts_with p k)"
proof -
  obtain es where es: "bk_scan_prefix B p s = Inr es" "distinct (map fst es)"
    "set es = {(k, v). entries s k = Some v \<and> starts_with p k}"
    by (rule scanE [OF assms])
  have "es = [] \<longleftrightarrow> (\<forall>k v. entries s k = Some v \<longrightarrow> \<not> starts_with p k)"
    by (simp add: set_empty [symmetric] es(3) del: set_empty)
  with count_ok [OF assms es(1)] show ?thesis by simp
qed

end

lemma mem_scan_count:
  "mem_scan_prefix p data = Inr es \<Longrightarrow> mem_count_prefix p data = Inr (length es)"
  by (auto simp: mem_scan_prefix_def mem_count_prefix_def filter_map comp_def case_prod_unfold)

interpretation memory: reliable_backend memory_backend "\<lambda>data. hm_wf data" hm_get
proof
  fix data :: memory_storage and p :: bytes
  assume "hm_wf data"
  then show "\<exists>es. bk_scan_prefix memory_backend p data = Inr es \<and> distinct (map fst es)
    \<and> set es = {(k, v). hm_get data k = Some v \<and> starts_with p k}"
    by (simp add: memory_backend_def mem_scan_prefix_def) auto
qed (simp_all add: memory_backend_def mem_put_def mem_get_def mem_remove_def mem_flush_def mem_scan_count)

section \<open>A concrete format\<close>

text \<open>A format for concrete inputs: byte strings after their length in unary.\<close>

definition unary :: "bytes \<Rightarrow> bytes" where
  "unary xs = replicate (length xs) 1 @ 0 # xs"

definition dec_unary :: "bytes \<Rightarrow> bytes \<times> bytes" where
  "dec_unary bs =
     (let n = length (takeWhile (\<lambda>b. b = 1) bs); rest = drop (Suc n) bs in (take n rest, drop n rest))"

lemma dec_unary [simp]: "dec_unary (unary xs @ rest) = (xs, rest)"
proof -
  have "takeWhile (\<lambda>b. b = 1) (replicate k 1 @ 0 # ys) = replicate k (1 :: u8)" for k ys
    by (induction k) simp_all
  then show ?thesis by (simp add: dec_unary_def unary_def Let_def)
qed

definition str_of :: "bytes \<Rightarrow> string" where
  "str_of bs = map (\<lambda>b. char_of (unat b)) bs"

lemma str_of_as_bytes [simp]: "str_of (as_bytes s) = s"
proof -
  have "char_of (unat (word_of_nat (of_char c) :: u8)) = c" for c :: char
    by (simp add: unat_of_nat)
  then show ?thesis by (simp add: str_of_def as_bytes_def comp_def)
qed

definition unary_opt :: "bytes option \<Rightarrow> bytes" where
  "unary_opt x = unary (case x of None \<Rightarrow> [] | Some xs \<Rightarrow> 0 # xs)"

definition dec_opt :: "bytes \<Rightarrow> bytes option \<times> bytes" where
  "dec_opt bs = (case dec_unary bs of (xs, rest) \<Rightarrow> (case xs of [] \<Rightarrow> None | _ # ys \<Rightarrow> Some ys, rest))"

lemma dec_opt [simp]: "dec_opt (unary_opt x @ rest) = (x, rest)"
  by (cases x) (simp_all add: dec_opt_def unary_opt_def)

definition unary_list :: "bytes list \<Rightarrow> bytes" where
  "unary_list xss = unary (replicate (length xss) 0) @ concat (map unary xss)"

fun dec_times :: "nat \<Rightarrow> bytes \<Rightarrow> bytes list \<times> bytes" where
  "dec_times 0 bs = ([], bs)"
| "dec_times (Suc n) bs = (let (xs, rest) = dec_unary bs; (xss, rest') = dec_times n rest in (xs # xss, rest'))"

definition dec_list :: "bytes \<Rightarrow> bytes list \<times> bytes" where
  "dec_list bs = (let (n, rest) = dec_unary bs in dec_times (length n) rest)"

lemma dec_times: "dec_times (length xss) (concat (map unary xss) @ rest) = (xss, rest)"
  by (induction xss) simp_all

lemma dec_list [simp]: "dec_list (unary_list xss @ rest) = (xss, rest)"
  by (simp add: dec_list_def unary_list_def dec_times)

definition bit_byte :: "bool \<Rightarrow> u8" where
  "bit_byte b = (if b then 1 else 0)"

lemma bit_byte_eq [simp]: "bit_byte b = 1 \<longleftrightarrow> b"
  by (simp add: bit_byte_def)

lemma le64_inverse: "word_of_nat (nat_of_le (nat_to_le 8 (unat w))) = (w :: u64)"
proof -
  have "unat w < 256 ^ 8" using unat_bound [of w] by simp
  then have "nat_of_le (nat_to_le 8 (unat w)) = unat w" unfolding nat_of_le_to_le by (rule mod_less)
  then show ?thesis by simp
qed

lemma map_str_of [simp]: "map_option str_of (map_option as_bytes x) = x" "map str_of (map as_bytes xs) = xs"
  by (cases x) (simp_all add: comp_def)

end
