(* ===== verification/Drift_Store.thy ===== *)
theory Drift_Store
  imports Drift_Sketch Store_Backend Complex_Main "HOL-Library.List_Lexorder"
begin

text \<open>
  The message store of \<open>src/core/src/drift/store.rs\<close>: a set of envelopes keyed by message id, merged by
  union and bounded by evicting the lowest priority score. The clock is the argument \<open>now\<close>, read
  once per operation; \<open>f64\<close> is idealised to real numbers, so the scores are compared exactly. The
  digest, its hexadecimal form and the serialiser are parameters.
\<close>

section \<open>State\<close>

record stored_envelope =
  se_envelope_data :: bytes
  se_message_id :: message_id
  se_recipient_hint :: bytes
  se_created_at :: u32
  se_ttl_expiry :: u32
  se_hop_count :: u8
  se_priority :: u8
  se_received_at :: u64

definition priority_score :: "u64 \<Rightarrow> stored_envelope \<Rightarrow> real" where
  "priority_score now e =
     (let age_hours = (real (unat now) - real (unat (se_created_at e))) / 3600;
          recency = exp (- age_hours / 24);
          hop_penalty = 1 / (1 + real (unat (se_hop_count e)));
          ttl_factor =
            (if se_ttl_expiry e = 0 then 1
             else let total_lifetime = real (unat (se_ttl_expiry e)) - real (unat (se_created_at e));
                      remaining = real (unat (se_ttl_expiry e)) - real (unat now)
                  in if total_lifetime \<le> 0 \<or> remaining \<le> 0 then 0
                     else max 0 (min 1 (remaining / total_lifetime)))
      in real (unat (se_priority e)) * recency * hop_penalty * ttl_factor)"

definition MAX_MESSAGES :: nat where
  "MAX_MESSAGES = 10000"

type_synonym message_map = "(message_id, stored_envelope) hmap"

record mesh_store =
  ms_messages :: message_map
  ms_max_messages :: nat

definition mesh_new :: mesh_store where
  "mesh_new = \<lparr>ms_messages = [], ms_max_messages = MAX_MESSAGES\<rparr>"

definition mesh_with_capacity :: "nat \<Rightarrow> mesh_store" where
  "mesh_with_capacity mx = \<lparr>ms_messages = [], ms_max_messages = mx\<rparr>"

section \<open>Eviction\<close>

text \<open>\<open>Iterator::min_by\<close>: of several smallest entries the first one.\<close>

fun min_by :: "('v \<Rightarrow> real) \<Rightarrow> ('k, 'v) hmap \<Rightarrow> ('k \<times> 'v) option" where
  "min_by score [] = None"
| "min_by score (x # xs) = Some (fold (\<lambda>y best. if score (snd y) < score (snd best) then y else best) xs x)"

lemma min_by_fold:
  "let b = fold (\<lambda>y best. if score (snd y) < score (snd best) then y else best) xs x
   in b \<in> set (x # xs) \<and> (\<forall>y \<in> set (x # xs). score (snd b) \<le> score (snd y))"
  for score :: "'v \<Rightarrow> real"
proof (induction xs arbitrary: x)
  case (Cons y xs)
  let ?x = "if score (snd y) < score (snd x) then y else x"
  show ?case using Cons.IH [of ?x] by (auto simp: Let_def split: if_splits; linarith)
qed simp

lemma min_by_Some:
  assumes "min_by score m = Some p"
  shows "p \<in> set m" and "\<forall>y \<in> set m. score (snd p) \<le> score (snd y)"
  using assms min_by_fold [of score "tl m" "hd m"] by (cases m; auto simp: Let_def)+

lemma min_by_None [simp]: "min_by score m = None \<longleftrightarrow> m = []"
  by (cases m) simp_all

lemma length_hm_remove_less: "p \<in> set m \<Longrightarrow> length (hm_remove (fst p) m) < length m"
  by (induction m) (auto simp: le_imp_less_Suc length_delete_le)

function evict_loop :: "('v \<Rightarrow> real) \<Rightarrow> nat \<Rightarrow> ('k, 'v) hmap \<Rightarrow> ('k, 'v) hmap" where
  "evict_loop score mx m =
     (if mx < length m
      then (case min_by score m of Some p \<Rightarrow> evict_loop score mx (hm_remove (fst p) m) | None \<Rightarrow> m)
      else m)"
  by pat_completeness auto
termination
  by (relation "measure (\<lambda>(score, mx, m). length m)") (auto dest: min_by_Some(1) length_hm_remove_less)

declare evict_loop.simps [simp del]

definition evict_if_over_budget :: "u64 \<Rightarrow> mesh_store \<Rightarrow> mesh_store" where
  "evict_if_over_budget now st =
     st\<lparr>ms_messages := evict_loop (priority_score now) (ms_max_messages st) (ms_messages st)\<rparr>"

section \<open>Operations\<close>

definition mesh_contains :: "mesh_store \<Rightarrow> message_id \<Rightarrow> bool" where
  "mesh_contains st mid \<longleftrightarrow> hm_contains (ms_messages st) mid"

definition mesh_get :: "mesh_store \<Rightarrow> message_id \<Rightarrow> stored_envelope option" where
  "mesh_get st mid = hm_get (ms_messages st) mid"

definition mesh_insert :: "u64 \<Rightarrow> stored_envelope \<Rightarrow> mesh_store \<Rightarrow> mesh_store \<times> bool" where
  "mesh_insert now envelope st =
     (if hm_contains (ms_messages st) (se_message_id envelope) then (st, False)
      else (evict_if_over_budget now
              (st\<lparr>ms_messages := hm_insert (se_message_id envelope) envelope (ms_messages st)\<rparr>), True))"

fun merge_loop :: "message_map \<Rightarrow> message_map \<Rightarrow> message_map" where
  "merge_loop [] m = m"
| "merge_loop ((mid, envelope) # rest) m =
     merge_loop rest (if \<not> hm_contains m mid then hm_insert mid envelope m else m)"

definition mesh_merge :: "u64 \<Rightarrow> mesh_store \<Rightarrow> mesh_store \<Rightarrow> mesh_store" where
  "mesh_merge now other st =
     evict_if_over_budget now (st\<lparr>ms_messages := merge_loop (ms_messages other) (ms_messages st)\<rparr>)"

definition message_ids :: "mesh_store \<Rightarrow> message_id list" where
  "message_ids st = map fst (ms_messages st)"

definition messages_for_recipient :: "bytes \<Rightarrow> mesh_store \<Rightarrow> stored_envelope list" where
  "messages_for_recipient hint st =
     filter (\<lambda>e. se_recipient_hint e = hint) (map snd (ms_messages st))"

definition by_priority :: "u64 \<Rightarrow> mesh_store \<Rightarrow> stored_envelope list" where
  "by_priority now st = sort_key (\<lambda>e. - priority_score now e) (map snd (ms_messages st))"

definition mesh_len :: "mesh_store \<Rightarrow> nat" where
  "mesh_len st = length (ms_messages st)"

definition mesh_is_empty :: "mesh_store \<Rightarrow> bool" where
  "mesh_is_empty st \<longleftrightarrow> ms_messages st = []"

definition mesh_remove :: "message_id \<Rightarrow> mesh_store \<Rightarrow> mesh_store \<times> bool" where
  "mesh_remove mid st =
     (st\<lparr>ms_messages := hm_remove mid (ms_messages st)\<rparr>, hm_contains (ms_messages st) mid)"

definition mesh_remove_expired :: "u64 \<Rightarrow> mesh_store \<Rightarrow> mesh_store \<times> nat" where
  "mesh_remove_expired now_secs st =
     (let now = (ucast now_secs :: u32);
          kept = hm_retain (\<lambda>_ e. se_ttl_expiry e = 0 \<or> now < se_ttl_expiry e) (ms_messages st)
      in (st\<lparr>ms_messages := kept\<rparr>, length (ms_messages st) - length kept))"

definition generate_proof :: "(bytes \<Rightarrow> bytes) \<Rightarrow> (bytes \<Rightarrow> string) \<Rightarrow> mesh_store \<Rightarrow> string" where
  "generate_proof blake3 hex_encode st = hex_encode (blake3 (concat (sort (message_ids st))))"

section \<open>Persistence\<close>

definition drift_prefix :: bytes where
  "drift_prefix = [0x64, 0x72, 0x69, 0x66, 0x74, 0x3A]"

fun save_loop ::
  "(stored_envelope \<Rightarrow> string + bytes) \<Rightarrow> 's storage_backend \<Rightarrow> message_map \<Rightarrow> 's \<Rightarrow> (string + unit) \<times> 's" where
  "save_loop serialize B [] s = (Inr (), s)"
| "save_loop serialize B ((mid, envelope) # rest) s =
     (case serialize envelope of
        Inl e \<Rightarrow> (Inl (''Failed to serialize envelope: '' @ e), s)
      | Inr val \<Rightarrow>
          (case bk_put B (drift_prefix @ mid) val s of
             (Inl e, s') \<Rightarrow> (Inl e, s')
           | (Inr _, s') \<Rightarrow> save_loop serialize B rest s'))"

definition mesh_save ::
  "(stored_envelope \<Rightarrow> string + bytes) \<Rightarrow> 's storage_backend \<Rightarrow> mesh_store \<Rightarrow> 's \<Rightarrow> (string + unit) \<times> 's" where
  "mesh_save serialize B st s = save_loop serialize B (ms_messages st) s"

fun load_loop ::
  "(bytes \<Rightarrow> string + stored_envelope) \<Rightarrow> u64 \<Rightarrow> scan_result \<Rightarrow> nat \<Rightarrow> mesh_store \<Rightarrow> mesh_store \<times> nat" where
  "load_loop deserialize now [] loaded st = (st, loaded)"
| "load_loop deserialize now ((key, val) # rest) loaded st =
     (case deserialize val of
        Inr envelope \<Rightarrow>
          (case mesh_insert now envelope st of
             (st', True) \<Rightarrow> load_loop deserialize now rest (loaded + 1) st'
           | (st', False) \<Rightarrow> load_loop deserialize now rest loaded st')
      | Inl e \<Rightarrow> load_loop deserialize now rest loaded st)"

definition mesh_load ::
  "(bytes \<Rightarrow> string + stored_envelope) \<Rightarrow> u64 \<Rightarrow> 's storage_backend \<Rightarrow> 's \<Rightarrow> mesh_store \<Rightarrow>
   mesh_store \<times> (string + nat)" where
  "mesh_load deserialize now B s st =
     (case bk_scan_prefix B drift_prefix s of
        Inl e \<Rightarrow> (st, Inl e)
      | Inr es \<Rightarrow> (case load_loop deserialize now es 0 st of (st', n) \<Rightarrow> (st', Inr n)))"

section \<open>What eviction does\<close>

lemma evict_loop_subset: "set (evict_loop score mx m) \<subseteq> set m"
proof (induction score mx m rule: evict_loop.induct)
  case (1 score mx m)
  show ?case
  proof (cases "mx < length m \<and> m \<noteq> []")
    case True
    then obtain p where p: "min_by score m = Some p" by (cases "min_by score m") auto
    then show ?thesis using 1 True by (auto simp: evict_loop.simps [of score mx m] set_hm_remove)
  qed (auto simp: evict_loop.simps [of score mx m] split: option.splits)
qed

lemma evict_loop_step:
  assumes "mx < length m"
  obtains p where "min_by score m = Some p" and "p \<in> set m"
    and "\<forall>y \<in> set m. score (snd p) \<le> score (snd y)"
    and "evict_loop score mx m = evict_loop score mx (hm_remove (fst p) m)"
proof -
  obtain p where "min_by score m = Some p" using assms by (cases "min_by score m") auto
  with that assms min_by_Some [of score m p] show thesis by (simp add: evict_loop.simps [of score mx m])
qed

lemma evict_loop_id [simp]: "length m \<le> mx \<Longrightarrow> evict_loop score mx m = m"
  by (simp add: evict_loop.simps)

lemma evict_loop_wf [simp]: "hm_wf m \<Longrightarrow> hm_wf (evict_loop score mx m)"
proof (induction "length m" arbitrary: m rule: less_induct)
  case less
  show ?case
  proof (cases "mx < length m")
    case True
    then obtain p where "p \<in> set m" "evict_loop score mx m = evict_loop score mx (hm_remove (fst p) m)"
      by (rule evict_loop_step)
    then show ?thesis using less length_hm_remove_less by fastforce
  qed (simp add: less.prems)
qed

lemma length_evict_loop: "hm_wf m \<Longrightarrow> length (evict_loop score mx m) = min mx (length m)"
proof (induction "length m" arbitrary: m rule: less_induct)
  case less
  show ?case
  proof (cases "mx < length m")
    case True
    then obtain p where p: "p \<in> set m" "evict_loop score mx m = evict_loop score mx (hm_remove (fst p) m)"
      by (rule evict_loop_step)
    then have "length (hm_remove (fst p) m) = length m - 1"
      using less.prems by (auto simp: length_hm_remove)
    then show ?thesis using less(1) [of "hm_remove (fst p) m"] less.prems p True by simp
  qed (simp add: less.prems)
qed


lemma evict_loop_get:
  "hm_wf m \<Longrightarrow> hm_get (evict_loop score mx m) k = Some v \<Longrightarrow> hm_get m k = Some v"
  using evict_loop_subset [of score mx m] by (auto simp: map_of_eq_Some_iff)

section \<open>Merging\<close>

lemma merge_loop_wf [simp]: "hm_wf m \<Longrightarrow> hm_wf (merge_loop other m)"
  by (induction other m rule: merge_loop.induct) auto

lemma merge_loop_get:
  "hm_wf other \<Longrightarrow> hm_get (merge_loop other m) k = (case hm_get m k of Some v \<Rightarrow> Some v | None \<Rightarrow> hm_get other k)"
proof (induction other m rule: merge_loop.induct)
  case (2 mid envelope rest m)
  then have "hm_get rest mid = None" by (simp add: map_of_eq_None_iff)
  moreover have "mid \<in> fst ` set m \<longleftrightarrow> hm_get m mid \<noteq> None" by (simp add: map_of_eq_None_iff)
  ultimately show ?case using 2 by (cases "hm_get m mid") (auto split: option.splits)
qed (simp split: option.splits)


lemma merge_loop_contains: "hm_contains (merge_loop other m) k \<longleftrightarrow> hm_contains m k \<or> hm_contains other k"
  by (induction other m rule: merge_loop.induct) (auto simp: dom_update)

section \<open>The invariant of the store\<close>

definition keyed :: "message_map \<Rightarrow> bool" where
  "keyed m \<longleftrightarrow> hm_wf m \<and> (\<forall>(mid, e) \<in> set m. se_message_id e = mid \<and> length mid = 16)"

definition mesh_inv :: "mesh_store \<Rightarrow> bool" where
  "mesh_inv st \<longleftrightarrow> keyed (ms_messages st) \<and> length (ms_messages st) \<le> ms_max_messages st"

definition wf_stored :: "stored_envelope \<Rightarrow> bool" where
  "wf_stored e \<longleftrightarrow> length (se_message_id e) = 16"

lemma set_hm_insert: "set (hm_insert k v m) \<subseteq> insert (k, v) (set m)"
  by (induction m) auto

lemma keyed_Cons:
  "keyed ((mid, e) # m) \<longleftrightarrow> mid \<notin> fst ` set m \<and> se_message_id e = mid \<and> length mid = 16 \<and> keyed m"
  by (auto simp: keyed_def)

lemma keyed_mono: "keyed m \<Longrightarrow> set m' \<subseteq> set m \<Longrightarrow> hm_wf m' \<Longrightarrow> keyed m'"
  unfolding keyed_def by blast

lemma keyed_insert [wf_intros]: "keyed m \<Longrightarrow> wf_stored e \<Longrightarrow> keyed (hm_insert (se_message_id e) e m)"
  unfolding keyed_def wf_stored_def
  using set_hm_insert [of "se_message_id e" e m] by (intro conjI) (simp, fastforce)

lemma keyed_evict [wf_intros]: "keyed m \<Longrightarrow> keyed (evict_loop score mx m)"
  by (rule keyed_mono [OF _ evict_loop_subset]) (simp_all add: keyed_def)

lemma keyed_remove [wf_intros]: "keyed m \<Longrightarrow> keyed (hm_remove k m)"
  by (rule keyed_mono) (auto simp: set_hm_remove keyed_def)

lemma keyed_filter [wf_intros]: "keyed m \<Longrightarrow> keyed (filter P m)"
  by (rule keyed_mono) (auto simp: keyed_def)

lemma keyed_merge [wf_intros]: "keyed other \<Longrightarrow> keyed m \<Longrightarrow> keyed (merge_loop other m)"
proof (induction other m rule: merge_loop.induct)
  case (2 mid envelope rest m)
  then have "keyed (hm_insert mid envelope m)"
    using keyed_insert [of m envelope] by (simp add: keyed_Cons wf_stored_def)
  with 2 show ?case by (simp add: keyed_Cons)
qed simp

lemma evict_if_over_budget_inv:
  "keyed (ms_messages st) \<Longrightarrow> mesh_inv (evict_if_over_budget now st)"
  by (simp add: mesh_inv_def evict_if_over_budget_def keyed_evict)
    (simp add: keyed_def length_evict_loop)

lemma mesh_insert_inv: "mesh_inv st \<Longrightarrow> wf_stored e \<Longrightarrow> mesh_inv (fst (mesh_insert now e st))"
  by (simp add: mesh_insert_def) (auto simp: mesh_inv_def [of st] intro!: evict_if_over_budget_inv keyed_insert)

lemma mesh_merge_inv: "mesh_inv st \<Longrightarrow> mesh_inv other \<Longrightarrow> mesh_inv (mesh_merge now other st)"
  by (auto simp: mesh_merge_def mesh_inv_def [of st] mesh_inv_def [of other] intro!: evict_if_over_budget_inv keyed_merge)

lemma mesh_remove_inv: "mesh_inv st \<Longrightarrow> mesh_inv (fst (mesh_remove mid st))"
  using length_delete_le [of mid "ms_messages st"] by (auto simp: mesh_inv_def mesh_remove_def keyed_remove)

lemma mesh_remove_expired_inv: "mesh_inv st \<Longrightarrow> mesh_inv (fst (mesh_remove_expired now st))"
  unfolding mesh_inv_def mesh_remove_expired_def Let_def
  by (simp add: keyed_filter) (meson le_trans length_filter_le)


section \<open>Properties\<close>

text \<open>The states a store reaches from an empty one, over any sequence of operations and clock readings.\<close>

inductive mesh_reachable :: "mesh_store \<Rightarrow> bool" where
  reach_new: "mesh_reachable mesh_new"
| reach_capacity: "mesh_reachable (mesh_with_capacity mx)"
| reach_insert: "mesh_reachable st \<Longrightarrow> wf_stored e \<Longrightarrow> mesh_reachable (fst (mesh_insert now e st))"
| reach_merge: "mesh_reachable st \<Longrightarrow> mesh_reachable other \<Longrightarrow> mesh_reachable (mesh_merge now other st)"
| reach_remove: "mesh_reachable st \<Longrightarrow> mesh_reachable (fst (mesh_remove mid st))"
| reach_expire: "mesh_reachable st \<Longrightarrow> mesh_reachable (fst (mesh_remove_expired now st))"

lemma mesh_new_inv [simp]: "mesh_inv mesh_new" "mesh_inv (mesh_with_capacity mx)"
  by (simp_all add: mesh_inv_def mesh_new_def mesh_with_capacity_def keyed_def)

lemma mesh_reachable_inv: "mesh_reachable st \<Longrightarrow> mesh_inv st"
  by (induction rule: mesh_reachable.induct)
    (simp_all add: mesh_insert_inv mesh_merge_inv mesh_remove_inv mesh_remove_expired_inv)

text \<open>
  C4. A store never exceeds its capacity and its index is sound: in every state reached from an empty
  store by insertions, merges, removals and expiry, at any clock readings, the number of messages is at
  most the capacity, ids are distinct, and each id is that of the envelope stored under it.
\<close>

theorem mesh_store_invariant:
  assumes "mesh_reachable st"
  shows "mesh_len st \<le> ms_max_messages st \<and> distinct (message_ids st)
       \<and> (\<forall>mid e. mesh_get st mid = Some e \<longrightarrow> se_message_id e = mid \<and> length mid = 16)"
  using mesh_reachable_inv [OF assms]
  by (auto simp: mesh_inv_def mesh_len_def message_ids_def mesh_get_def keyed_def)

definition sample_stored :: "u8 \<Rightarrow> u8 \<Rightarrow> stored_envelope" where
  "sample_stored b prio =
     \<lparr>se_envelope_data = [b], se_message_id = b # replicate 15 0, se_recipient_hint = [1, 2, 3, 4],
      se_created_at = 1000, se_ttl_expiry = 0, se_hop_count = 0, se_priority = prio, se_received_at = 1000\<rparr>"

lemma wf_sample_stored [simp]: "wf_stored (sample_stored b p)"
  by (simp add: wf_stored_def sample_stored_def)

theorem mesh_store_invariant_witness:
  "mesh_len (fst (mesh_insert 5 (sample_stored 1 9) (mesh_with_capacity 1))) \<le> 1"
proof -
  have "mesh_reachable (fst (mesh_insert 5 (sample_stored 1 9) (mesh_with_capacity 1)))"
    by (intro reach_insert reach_capacity wf_sample_stored)
  from mesh_store_invariant [OF this] show ?thesis
    by (simp add: mesh_insert_def evict_if_over_budget_def mesh_with_capacity_def)
qed




section \<open>Union\<close>

lemma length_keys: "hm_wf m \<Longrightarrow> length m = card (fst ` set m)"
  using distinct_card [of "map fst m"] by simp

lemma message_ids_get: "mid \<in> set (message_ids st) \<longleftrightarrow> (\<exists>e. mesh_get st mid = Some e)"
  using map_of_eq_None_iff [of "ms_messages st" mid] by (auto simp: message_ids_def mesh_get_def)

lemma mesh_merge_get:
  assumes "mesh_inv a" and "mesh_inv b"
    and "card (set (message_ids a) \<union> set (message_ids b)) \<le> ms_max_messages a"
  shows "mesh_get (mesh_merge now b a) mid =
           (case mesh_get a mid of Some e \<Rightarrow> Some e | None \<Rightarrow> mesh_get b mid)"
proof -
  have wf: "hm_wf (ms_messages a)" "hm_wf (ms_messages b)" using assms(1,2) by (simp_all add: mesh_inv_def keyed_def)
  have "fst ` set (merge_loop (ms_messages b) (ms_messages a)) = set (message_ids a) \<union> set (message_ids b)"
    using merge_loop_contains [where m = "ms_messages a" and other = "ms_messages b"] unfolding message_ids_def by (intro set_eqI) simp
  then have "length (merge_loop (ms_messages b) (ms_messages a)) \<le> ms_max_messages a"
    using assms(3) wf by (simp add: length_keys)
  then show ?thesis using wf
    by (simp add: mesh_merge_def evict_if_over_budget_def mesh_get_def merge_loop_get split: option.splits)
qed

lemma message_ids_merge:
  assumes "mesh_inv a" and "mesh_inv b"
    and "card (set (message_ids a) \<union> set (message_ids b)) \<le> ms_max_messages a"
  shows "set (message_ids (mesh_merge now b a)) = set (message_ids a) \<union> set (message_ids b)"
  using mesh_merge_get [OF assms] by (auto simp: message_ids_get split: option.splits)

definition agree :: "mesh_store \<Rightarrow> mesh_store \<Rightarrow> bool" where
  "agree a b \<longleftrightarrow> (\<forall>mid \<in> set (message_ids a). mid \<in> set (message_ids b) \<longrightarrow> mesh_get a mid = mesh_get b mid)"

definition roomy :: "mesh_store \<Rightarrow> mesh_store list \<Rightarrow> bool" where
  "roomy a sts \<longleftrightarrow> card (\<Union>st \<in> set sts. set (message_ids st)) \<le> ms_max_messages a"

text \<open>
  C19. Merging is a conflict-free union. For stores that agree on the ids they share and have room for all
  ids together, merging commutes, is idempotent and associates, whatever the clock readings.
\<close>

theorem mesh_merge_crdt:
  assumes "mesh_inv a" and "mesh_inv b" and "mesh_inv c"
    and "agree a b" and "agree a c" and "agree b c"
    and "roomy a [a, b, c]" and "roomy b [a, b, c]"
  shows "mesh_get (mesh_merge now b a) = mesh_get (mesh_merge now' a b)
       \<and> mesh_get (mesh_merge now a a) = mesh_get a
       \<and> mesh_get (mesh_merge now c (mesh_merge now b a)) = mesh_get (mesh_merge now (mesh_merge now' c b) a)"
proof -
  have le: "card A \<le> ms_max_messages st" if "roomy st [a, b, c]" "A \<subseteq> set (message_ids a) \<union> set (message_ids b) \<union> set (message_ids c)" for A st
    using that card_mono [OF _ that(2)] by (simp add: roomy_def Un_assoc)
  have ab: "mesh_get (mesh_merge now b a) mid = (case mesh_get a mid of Some e \<Rightarrow> Some e | None \<Rightarrow> mesh_get b mid)" for mid
    using assms by (intro mesh_merge_get le) auto
  have ba: "mesh_get (mesh_merge now' a b) mid = (case mesh_get b mid of Some e \<Rightarrow> Some e | None \<Rightarrow> mesh_get a mid)" for mid
    using assms by (intro mesh_merge_get le) auto
  have cb: "mesh_get (mesh_merge now' c b) mid = (case mesh_get b mid of Some e \<Rightarrow> Some e | None \<Rightarrow> mesh_get c mid)" for mid
    using assms by (intro mesh_merge_get le) auto
  have aa: "mesh_get (mesh_merge now a a) mid = (case mesh_get a mid of Some e \<Rightarrow> Some e | None \<Rightarrow> mesh_get a mid)" for mid
    using assms by (intro mesh_merge_get le) auto
  have ids: "set (message_ids (mesh_merge now b a)) = set (message_ids a) \<union> set (message_ids b)"
    "set (message_ids (mesh_merge now' c b)) = set (message_ids b) \<union> set (message_ids c)"
    using assms by (intro message_ids_merge le; auto)+
  have mx: "ms_max_messages (mesh_merge now b a) = ms_max_messages a"
    by (simp add: mesh_merge_def evict_if_over_budget_def)
  have ab_c: "mesh_get (mesh_merge now c (mesh_merge now b a)) mid =
      (case mesh_get (mesh_merge now b a) mid of Some e \<Rightarrow> Some e | None \<Rightarrow> mesh_get c mid)" for mid
    using assms by (intro mesh_merge_get mesh_merge_inv) (auto simp: mx ids intro!: le)
  have a_bc: "mesh_get (mesh_merge now (mesh_merge now' c b) a) mid =
      (case mesh_get a mid of Some e \<Rightarrow> Some e | None \<Rightarrow> mesh_get (mesh_merge now' c b) mid)" for mid
    using assms by (intro mesh_merge_get mesh_merge_inv) (auto simp: ids intro!: le)
  have "mesh_get a mid = mesh_get b mid" if "mesh_get a mid = Some e" "mesh_get b mid = Some e'" for mid e e'
    using assms(4) that by (auto simp: agree_def message_ids_get)
  then show ?thesis
    by (intro conjI ext) (simp_all add: ab ba aa ab_c a_bc cb split: option.splits)
qed

theorem mesh_merge_crdt_witness:
  "let a = fst (mesh_insert 5 (sample_stored 1 9) (mesh_with_capacity 3));
       b = fst (mesh_insert 5 (sample_stored 2 9) (mesh_with_capacity 3))
   in mesh_get (mesh_merge 5 b a) = mesh_get (mesh_merge 6 a b)"
proof -
  let ?s = "\<lambda>b. \<lparr>ms_messages = [(se_message_id (sample_stored b 9), sample_stored b 9)], ms_max_messages = 3\<rparr>"
  have st: "fst (mesh_insert 5 (sample_stored b 9) (mesh_with_capacity 3)) = ?s b" for b
    by (simp add: mesh_insert_def evict_if_over_budget_def mesh_with_capacity_def)
  have inv: "mesh_inv (?s b)" for b
    unfolding st [symmetric] by (simp add: mesh_insert_inv)
  show ?thesis
    unfolding st Let_def
    by (rule mesh_merge_crdt [OF inv inv inv [of 2], THEN conjunct1])
      (simp_all add: agree_def roomy_def message_ids_def sample_stored_def)
qed


section \<open>Expiry, order and digest\<close>

text \<open>
  Expiry removes exactly the messages whose expiry time is set and not in the future, compared at
  32 bits, and returns how many it removed.
\<close>

lemma remove_expired_exact:
  assumes "mesh_inv st"
  shows "(\<forall>mid. mesh_get (fst (mesh_remove_expired now st)) mid =
           (case mesh_get st mid of
              Some e \<Rightarrow> if se_ttl_expiry e = 0 \<or> ucast now < se_ttl_expiry e then Some e else None
            | None \<Rightarrow> None))
       \<and> mesh_len (fst (mesh_remove_expired now st)) + snd (mesh_remove_expired now st) = mesh_len st"
proof -
  have "hm_wf (ms_messages st)" using assms by (simp add: mesh_inv_def keyed_def)
  then show ?thesis
    by (simp add: mesh_remove_expired_def mesh_get_def mesh_len_def Let_def hm_get_filter split: option.splits)
qed

text \<open>
  The sync order is a permutation of the stored messages in descending order of priority score.
\<close>

lemma by_priority_sorted:
  "mset (by_priority now st) = mset (map snd (ms_messages st))
   \<and> sorted_wrt (\<lambda>a b. priority_score now b \<le> priority_score now a) (by_priority now st)"
proof -
  have "sorted (map (\<lambda>e. - priority_score now e) (by_priority now st))" by (simp add: by_priority_def)
  then show ?thesis by (simp add: by_priority_def sorted_wrt_map)
qed

lemma concat_blocks_inject:
  assumes "\<forall>x \<in> set xs. length x = 16" and "\<forall>y \<in> set ys. length y = 16" and "concat xs = concat ys"
  shows "xs = ys"
proof -
  have len: "length (concat zs) = 16 * length zs" if "\<forall>z \<in> set zs. length z = 16" for zs :: "'a list list"
    using that by (induction zs) auto
  have "length xs = length ys" using len [OF assms(1)] len [OF assms(2)] assms(3) by simp
  moreover have "\<forall>(x, y) \<in> set (zip xs ys). length x = length y"
    using assms(1,2) by (auto simp: set_zip)
  ultimately show ?thesis using concat_eq_concat_iff [of xs ys] assms(3) by blast
qed

text \<open>
  Two stores have the same state proof exactly when they hold the same ids, for a digest without a
  collision on the two inputs and an injective text form.
\<close>

lemma generate_proof_identifies_ids:
  assumes "mesh_inv a" and "mesh_inv b" and "inj hex_encode"
    and "\<And>x y. x = concat (sort (message_ids a)) \<Longrightarrow> y = concat (sort (message_ids b)) \<Longrightarrow> blake3 x = blake3 y \<Longrightarrow> x = y"
  shows "generate_proof blake3 hex_encode a = generate_proof blake3 hex_encode b \<longleftrightarrow>
           set (message_ids a) = set (message_ids b)"
proof
  assume eq: "generate_proof blake3 hex_encode a = generate_proof blake3 hex_encode b"
  have ids: "\<forall>x \<in> set (sort (message_ids st)). length x = 16" if "mesh_inv st" for st
    using that by (auto simp: mesh_inv_def keyed_def message_ids_def)
  have "concat (sort (message_ids a)) = concat (sort (message_ids b))"
    using eq assms(3,4) by (auto simp: generate_proof_def dest: injD)
  then have "sort (message_ids a) = sort (message_ids b)"
    using concat_blocks_inject ids assms(1,2) by blast
  then show "set (message_ids a) = set (message_ids b)" by (metis set_sort)
next
  assume "set (message_ids a) = set (message_ids b)"
  moreover have "distinct (message_ids a)" "distinct (message_ids b)"
    using assms(1,2) by (simp_all add: mesh_inv_def keyed_def message_ids_def)
  ultimately have "mset (message_ids a) = mset (message_ids b)" by (simp add: set_eq_iff_mset_eq_distinct)
  then have "sort (message_ids a) = sort (message_ids b)" by (metis properties_for_sort mset_sort sorted_sort)
  then show "generate_proof blake3 hex_encode a = generate_proof blake3 hex_encode b" by (simp add: generate_proof_def)
qed

section \<open>Scores\<close>

lemma scaled_le: "0 \<le> a \<Longrightarrow> a \<le> 1 \<Longrightarrow> 0 \<le> x \<Longrightarrow> x * a \<le> x" for a x :: real
  by (simp add: mult_left_le)

text \<open>
  A message that is not dated in the future scores between 0 and its priority. A message dated in
  the future scores above its priority, so its sender can outrank every honest message of the same
  priority.
\<close>

lemma priority_score_bounds:
  "(unat (se_created_at e) \<le> unat now \<longrightarrow>
      0 \<le> priority_score now e \<and> priority_score now e \<le> real (unat (se_priority e)))
   \<and> (unat now < unat (se_created_at e) \<and> se_ttl_expiry e = 0 \<and> se_hop_count e = 0 \<and> se_priority e \<noteq> 0 \<longrightarrow>
      priority_score now e > real (unat (se_priority e)))"
proof (intro conjI impI)
  define p where "p = real (unat (se_priority e))"
  define r where "r = exp (- ((real (unat now) - real (unat (se_created_at e))) / 3600) / 24)"
  define h where "h = 1 / (1 + real (unat (se_hop_count e)))"
  define t where "t =
    (if se_ttl_expiry e = 0 then 1
     else let total_lifetime = real (unat (se_ttl_expiry e)) - real (unat (se_created_at e));
              remaining = real (unat (se_ttl_expiry e)) - real (unat now)
          in if total_lifetime \<le> 0 \<or> remaining \<le> 0 then 0 else max 0 (min 1 (remaining / total_lifetime)))"
  have score: "priority_score now e = p * r * h * t"
    by (simp add: priority_score_def p_def r_def h_def t_def Let_def)
  have bounds: "0 \<le> p" "0 \<le> r" "0 \<le> h" "h \<le> 1" "0 \<le> t" "t \<le> 1"
    by (simp_all add: p_def r_def h_def t_def Let_def del: of_nat_unat)
  show "0 \<le> priority_score now e" using bounds by (simp add: score)
  show "priority_score now e \<le> real (unat (se_priority e))" if "unat (se_created_at e) \<le> unat now"
  proof -
    have "r \<le> 1" using that by (simp add: r_def del: of_nat_unat)
    then have "p * r \<le> p" "p * r * h \<le> p * r" "p * r * h * t \<le> p * r * h"
      using bounds by (simp_all add: scaled_le)
    then show ?thesis unfolding score p_def [symmetric] by linarith
  qed
  show "real (unat (se_priority e)) < priority_score now e"
    if "unat now < unat (se_created_at e) \<and> se_ttl_expiry e = 0 \<and> se_hop_count e = 0 \<and> se_priority e \<noteq> 0"
  proof -
    have "1 < r" using that by (simp add: r_def del: of_nat_unat)
    moreover have "0 < p" "h = 1" "t = 1" using that by (auto simp: p_def h_def t_def unat_gt_0 simp del: of_nat_unat)
    ultimately show ?thesis unfolding score p_def [symmetric] by simp
  qed
qed


section \<open>Saving and loading\<close>

text \<open>The serialiser loses nothing on the envelopes of a store.\<close>

definition lossless_for ::
  "(stored_envelope \<Rightarrow> bytes) \<Rightarrow> (bytes \<Rightarrow> string + stored_envelope) \<Rightarrow> mesh_store \<Rightarrow> bool" where
  "lossless_for ser deserialize st \<longleftrightarrow> (\<forall>mid e. mesh_get st mid = Some e \<longrightarrow> deserialize (ser e) = Inr e)"

definition drift_entries :: "(stored_envelope \<Rightarrow> bytes) \<Rightarrow> message_map \<Rightarrow> bytes \<rightharpoonup> bytes" where
  "drift_entries ser m = map_of (map (\<lambda>(mid, e). (drift_prefix @ mid, ser e)) m)"

lemma drift_entries_key: "drift_entries ser m (drift_prefix @ mid) = map_option ser (hm_get m mid)"
  by (induction m) (auto simp: drift_entries_def)

context reliable_backend
begin

lemma save_loop_ok:
  "sound s \<Longrightarrow> hm_wf m \<Longrightarrow>
    \<exists>s'. save_loop (\<lambda>e. Inr (ser e)) B m s = (Inr (), s') \<and> sound s' \<and> entries s' = entries s ++ drift_entries ser m"
proof (induction m arbitrary: s)
  case Nil
  then show ?case by (simp add: drift_entries_def)
next
  case (Cons p m)
  obtain mid e where p: "p = (mid, e)" by (cases p)
  obtain s1 where s1: "bk_put B (drift_prefix @ mid) (ser e) s = (Inr (), s1)" "sound s1"
    "entries s1 = (entries s)(drift_prefix @ mid \<mapsto> ser e)"
    by (rule putE [OF Cons.prems(1)])
  obtain s' where s': "save_loop (\<lambda>e. Inr (ser e)) B m s1 = (Inr (), s')" "sound s'"
    "entries s' = entries s1 ++ drift_entries ser m"
    using Cons.IH [OF s1(2)] Cons.prems(2) by auto
  have "drift_entries ser m (drift_prefix @ mid) = None"
    using Cons.prems(2) by (simp add: drift_entries_key map_of_eq_None_iff p)
  then have "entries s' = entries s ++ drift_entries ser (p # m)"
    using s1(3) s'(3) by (auto simp: drift_entries_def p map_add_def fun_eq_iff split: option.splits)
  with s1 s' show ?case by (simp add: p)
qed

end

lemma mesh_insert_append:
  "\<not> mesh_contains st (se_message_id e) \<Longrightarrow> mesh_len st < ms_max_messages st \<Longrightarrow>
   mesh_insert now e st = (st\<lparr>ms_messages := ms_messages st @ [(se_message_id e, e)]\<rparr>, True)"
  by (simp add: mesh_insert_def mesh_contains_def evict_if_over_budget_def hm_insert_fresh mesh_len_def)

lemma load_loop_append:
  "map (\<lambda>p. deserialize (snd p)) es = map Inr envs \<Longrightarrow> distinct (map se_message_id envs) \<Longrightarrow>
   \<forall>e \<in> set envs. \<not> mesh_contains st (se_message_id e) \<Longrightarrow> mesh_len st + length envs \<le> ms_max_messages st \<Longrightarrow>
   load_loop deserialize now es n st =
     (st\<lparr>ms_messages := ms_messages st @ map (\<lambda>e. (se_message_id e, e)) envs\<rparr>, n + length envs)"
proof (induction es arbitrary: envs st n)
  case (Cons p es)
  then obtain e envs' where envs: "envs = e # envs'" "deserialize (snd p) = Inr e" "map (\<lambda>p. deserialize (snd p)) es = map Inr envs'"
    by (cases envs) auto
  obtain k v where p: "p = (k, v)" by (cases p)
  let ?st = "st\<lparr>ms_messages := ms_messages st @ [(se_message_id e, e)]\<rparr>"
  have ins: "mesh_insert now e st = (?st, True)"
    using Cons.prems by (intro mesh_insert_append) (simp_all add: envs)
  have fresh: "\<forall>x \<in> set envs'. se_message_id x \<noteq> se_message_id e"
    using Cons.prems(2) by (simp add: envs image_iff) metis
  have "load_loop deserialize now es (n + 1) ?st =
      (?st\<lparr>ms_messages := ms_messages ?st @ map (\<lambda>e. (se_message_id e, e)) envs'\<rparr>, n + 1 + length envs')"
    using Cons.prems fresh by (intro Cons.IH) (simp_all add: envs mesh_contains_def mesh_len_def)
  then show ?case using ins envs by (simp add: p)
qed simp


lemma drift_entries_prefix: "drift_entries ser m k = Some v \<Longrightarrow> starts_with drift_prefix k"
  by (auto simp: drift_entries_def dest!: map_of_SomeD)

lemma drift_entries_set:
  "hm_wf m \<Longrightarrow> {(k, v). drift_entries ser m k = Some v} = (\<lambda>(mid, e). (drift_prefix @ mid, ser e)) ` set m"
proof -
  assume "hm_wf m"
  moreover have "map fst (map (\<lambda>(mid, e). (drift_prefix @ mid, ser e)) m) = map ((@) drift_prefix) (map fst m)"
    by auto
  ultimately have "hm_wf (map (\<lambda>(mid, e). (drift_prefix @ mid, ser e)) m)"
    by (simp only: distinct_map) (simp add: inj_on_def)
  then show ?thesis by (auto simp: drift_entries_def map_of_eq_Some_iff)
qed

lemma load_loop_image:
  assumes lossless: "lossless_for ser deserialize st"
    and inv: "mesh_inv st" and dist: "distinct (map fst es)"
    and img: "set es = (\<lambda>(mid, e). (drift_prefix @ mid, ser e)) ` set (ms_messages st)"
  shows "\<exists>st'. load_loop deserialize now es 0 (mesh_with_capacity (ms_max_messages st)) = (st', mesh_len st)
           \<and> mesh_get st' = mesh_get st"
proof -
  let ?m = "ms_messages st"
  define envs where "envs = map (\<lambda>p. projr (deserialize (snd p))) es"
  have keyed: "keyed ?m" and bound: "length ?m \<le> ms_max_messages st" using inv by (simp_all add: mesh_inv_def)
  have ok: "deserialize (ser e) = Inr e" if "(mid, e) \<in> set ?m" for mid e
    using lossless that keyed by (auto simp: lossless_for_def mesh_get_def keyed_def)
  have p: "deserialize (snd p) = Inr (projr (deserialize (snd p))) \<and>
      fst p = drift_prefix @ se_message_id (projr (deserialize (snd p)))" if "p \<in> set es" for p
    using that keyed ok unfolding img by (auto simp: keyed_def)
  have envs: "map (\<lambda>p. deserialize (snd p)) es = map Inr envs"
    using p by (simp add: envs_def comp_def)
  have "map fst es = map (\<lambda>e. drift_prefix @ se_message_id e) envs"
    using p by (simp add: envs_def comp_def)
  with dist have ids: "distinct (map se_message_id envs)"
    by (auto simp: distinct_map inj_on_def)
  have set_envs: "set envs = snd ` set ?m"
    unfolding envs_def set_map img image_image using ok by (intro image_cong) auto
  have "length es = card (fst ` set es)" using distinct_card [OF dist] by simp
  also have "fst ` set es = (\<lambda>mid. drift_prefix @ mid) ` fst ` set ?m"
    unfolding img image_image by (simp add: case_prod_beta)
  also have "card \<dots> = card (fst ` set ?m)" by (rule card_image) (simp add: inj_on_def)
  also have "\<dots> = length ?m" using keyed by (simp add: length_keys keyed_def)
  finally have len: "length envs = length ?m" by (simp add: envs_def)
  let ?st' = "\<lparr>ms_messages = map (\<lambda>e. (se_message_id e, e)) envs, ms_max_messages = ms_max_messages st\<rparr>"
  have "load_loop deserialize now es 0 (mesh_with_capacity (ms_max_messages st)) = (?st', mesh_len st)"
    using load_loop_append [OF envs ids, of "mesh_with_capacity (ms_max_messages st)" now 0] bound len
    by (simp add: mesh_with_capacity_def mesh_contains_def mesh_len_def)
  moreover have iff: "mesh_get ?st' mid = Some e \<longleftrightarrow> mesh_get st mid = Some e" for mid e
  proof -
    have "mesh_get ?st' mid = Some e \<longleftrightarrow> e \<in> snd ` set ?m \<and> se_message_id e = mid"
      using ids by (auto simp: mesh_get_def comp_def set_envs [symmetric])
    also have "\<dots> \<longleftrightarrow> mesh_get st mid = Some e"
      using keyed by (force simp: mesh_get_def keyed_def)
    finally show ?thesis .
  qed
  have "mesh_get ?st' mid = mesh_get st mid" for mid
    using iff [of mid] by (cases "mesh_get st mid"; cases "mesh_get ?st' mid") auto
  then have "mesh_get ?st' = mesh_get st" by (rule ext)
  ultimately show ?thesis by blast
qed

text \<open>
  Several saves in a row into one backend, each before the next. A save writes every message of the store and deletes nothing, so the
  backend holds for every id the version saved last.
\<close>

fun save_all ::
  "(stored_envelope \<Rightarrow> string + bytes) \<Rightarrow> 's storage_backend \<Rightarrow> mesh_store list \<Rightarrow> 's \<Rightarrow> (string + unit) \<times> 's" where
  "save_all serialize B [] s = (Inr (), s)"
| "save_all serialize B (st # sts) s =
     (case mesh_save serialize B st s of
        (Inl e, s') \<Rightarrow> (Inl e, s')
      | (Inr _, s') \<Rightarrow> save_all serialize B sts s')"

definition last_saved :: "mesh_store list \<Rightarrow> message_id \<rightharpoonup> stored_envelope" where
  "last_saved sts = foldl (\<lambda>M st. M ++ mesh_get st) Map.empty sts"

definition saved_messages :: "mesh_store list \<Rightarrow> message_map" where
  "saved_messages sts = foldl (\<lambda>m st. AList.merge m (ms_messages st)) [] sts"

lemma drift_entries_merge: "drift_entries ser (AList.merge m n) = drift_entries ser m ++ drift_entries ser n"
proof
  fix k
  show "drift_entries ser (AList.merge m n) k = (drift_entries ser m ++ drift_entries ser n) k"
  proof (cases "\<exists>mid. k = drift_prefix @ mid")
    case True
    then show ?thesis by (auto simp: drift_entries_key merge_conv' map_add_def split: option.split)
  next
    case False
    then have "drift_entries ser m' k = None" for m' by (auto simp: drift_entries_def map_of_eq_None_iff)
    then show ?thesis by (simp add: map_add_def)
  qed
qed

lemma saved_messages_snoc [simp]: "saved_messages (sts @ [st]) = AList.merge (saved_messages sts) (ms_messages st)"
  by (simp add: saved_messages_def)

lemma mesh_get_messages: "mesh_get st = hm_get (ms_messages st)"
  by (rule ext) (simp add: mesh_get_def)

lemma saved_messages_get: "hm_get (saved_messages sts) = last_saved sts"
  by (induction sts rule: rev_induct) (simp_all add: last_saved_def merge_conv' mesh_get_messages, simp add: saved_messages_def)

lemma keyed_override: "keyed m \<Longrightarrow> keyed n \<Longrightarrow> keyed (AList.merge m n)"
proof -
  assume k: "keyed m" "keyed n"
  have "set (AList.merge m n) \<subseteq> set m \<union> set n"
  proof (induction n)
    case (Cons p n)
    have "set (AList.update (fst p) (snd p) l) \<subseteq> insert p (set l)" for l by (induction l) auto
    then show ?case using Cons.IH by (cases p) (fastforce simp: AList.merge_def)
  qed simp
  then show ?thesis using k by (auto simp: keyed_def distinct_merge)
qed

lemma keyed_saved: "(\<And>st. st \<in> set sts \<Longrightarrow> mesh_inv st) \<Longrightarrow> keyed (saved_messages sts)"
  by (induction sts rule: rev_induct) (auto intro!: keyed_override simp: mesh_inv_def, simp add: saved_messages_def keyed_def)

lemma last_saved_lossless:
  "(\<And>st. st \<in> set sts \<Longrightarrow> lossless_for ser deserialize st) \<Longrightarrow> last_saved sts mid = Some e \<Longrightarrow> deserialize (ser e) = Inr e"
  by (induction sts rule: rev_induct) (auto simp: last_saved_def lossless_for_def map_add_Some_iff)

context reliable_backend
begin

lemma save_all_ok:
  "sound s \<Longrightarrow> (\<And>st. st \<in> set sts \<Longrightarrow> mesh_inv st) \<Longrightarrow>
   \<exists>s'. save_all (\<lambda>e. Inr (ser e)) B sts s = (Inr (), s') \<and> sound s' \<and>
     entries s' = foldl (\<lambda>E st. E ++ drift_entries ser (ms_messages st)) (entries s) sts"
proof (induction sts arbitrary: s)
  case (Cons st sts)
  have "hm_wf (ms_messages st)" using Cons.prems(2) by (auto simp: mesh_inv_def keyed_def)
  then obtain s1 where s1: "mesh_save (\<lambda>e. Inr (ser e)) B st s = (Inr (), s1)" "sound s1"
    "entries s1 = entries s ++ drift_entries ser (ms_messages st)"
    using save_loop_ok [OF Cons.prems(1), of "ms_messages st" ser] by (auto simp: mesh_save_def)
  then show ?case using Cons.IH [OF s1(2)] Cons.prems(2) by auto
qed simp

lemma saved_entries:
  "foldl (\<lambda>E st. E ++ drift_entries ser (ms_messages st)) E sts = E ++ drift_entries ser (saved_messages sts)"
proof (induction sts rule: rev_induct)
  case (snoc st sts)
  then show ?case by (simp add: drift_entries_merge map_add_assoc)
qed (simp add: saved_messages_def drift_entries_def)

lemma saves_then_load:
  assumes lossless: "\<And>st. st \<in> set sts \<Longrightarrow> lossless_for ser deserialize st"
    and inv: "\<And>st. st \<in> set sts \<Longrightarrow> mesh_inv st"
    and "sound s" and clean: "\<And>k v. entries s k = Some v \<Longrightarrow> \<not> starts_with drift_prefix k"
    and room: "card (dom (last_saved sts)) \<le> cap"
  shows "\<exists>s' st'. save_all (\<lambda>e. Inr (ser e)) B sts s = (Inr (), s')
           \<and> mesh_load deserialize now B s' (mesh_with_capacity cap) = (st', Inr (card (dom (last_saved sts))))
           \<and> mesh_get st' = last_saved sts"
proof -
  let ?m = "saved_messages sts"
  let ?u = "\<lparr>ms_messages = ?m, ms_max_messages = cap\<rparr>"
  have keyed: "keyed ?m" by (rule keyed_saved [OF inv])
  then have wf: "hm_wf ?m" by (simp add: keyed_def)
  have len: "length ?m = card (dom (last_saved sts))"
    unfolding saved_messages_get [symmetric] dom_map_of_conv_image_fst using wf by (metis distinct_card length_map set_map)
  have u: "mesh_inv ?u" "mesh_get ?u = last_saved sts" "mesh_len ?u = card (dom (last_saved sts))"
    using keyed room len by (simp_all add: mesh_inv_def mesh_get_messages mesh_len_def saved_messages_get)
  have ll: "lossless_for ser deserialize ?u"
    unfolding lossless_for_def u(2) using last_saved_lossless [OF lossless] by blast
  obtain s' where s': "save_all (\<lambda>e. Inr (ser e)) B sts s = (Inr (), s')" "sound s'" "entries s' = entries s ++ drift_entries ser ?m"
    using save_all_ok [OF assms(3) inv, where ser = ser] unfolding saved_entries by blast
  obtain es where es: "bk_scan_prefix B drift_prefix s' = Inr es" "distinct (map fst es)"
    "set es = {(k, v). entries s' k = Some v \<and> starts_with drift_prefix k}"
    by (rule scanE [OF s'(2)])
  have "set es = {(k, v). drift_entries ser ?m k = Some v}"
    unfolding es(3) s'(3) using clean drift_entries_prefix by (fastforce simp: map_add_Some_iff)
  then have img: "set es = (\<lambda>(mid, e). (drift_prefix @ mid, ser e)) ` set (ms_messages ?u)"
    using wf by (simp add: drift_entries_set)
  show ?thesis
    using s'(1) es(1) load_loop_image [OF ll u(1) es(2) img, of now] unfolding u(2,3) by (auto simp: mesh_load_def)
qed

end

text \<open>
  C26. Saving and loading. After any number of saves into a backend that held no message before, loading into an empty store with room for all of them
  succeeds and gives, for every id, the version saved last. Saving deletes nothing, so a
  message that a store no longer had when it was saved again comes back: one save is restored exactly, several give their
  union. This holds for the in-memory backend with any other keys in it and any serialiser that is lossless
  on the stored envelopes.
\<close>

theorem mesh_save_load:
  assumes "\<And>st. st \<in> set sts \<Longrightarrow> lossless_for ser deserialize st" and "\<And>st. st \<in> set sts \<Longrightarrow> mesh_inv st" and "hm_wf data"
    and "\<And>k v. hm_get data k = Some v \<Longrightarrow> \<not> starts_with drift_prefix k" and "card (dom (last_saved sts)) \<le> cap"
  shows "\<exists>data' st'. save_all (\<lambda>e. Inr (ser e)) memory_backend sts data = (Inr (), data')
           \<and> mesh_load deserialize now memory_backend data' (mesh_with_capacity cap) = (st', Inr (card (dom (last_saved sts))))
           \<and> mesh_get st' = last_saved sts"
  by (rule memory.saves_then_load [OF assms])

definition sample_ser :: "stored_envelope \<Rightarrow> bytes" where
  "sample_ser e = [hd (se_message_id e), se_priority e]"

definition sample_deser :: "bytes \<Rightarrow> string + stored_envelope" where
  "sample_deser bs = (case bs of [b, p] \<Rightarrow> Inr (sample_stored b p) | _ \<Rightarrow> Inl ''length'')"

lemma sample_roundtrip [simp]: "sample_deser (sample_ser (sample_stored b p)) = Inr (sample_stored b p)"
  by (simp add: sample_ser_def sample_deser_def sample_stored_def)

text \<open>A message that was removed before the second save is loaded again.\<close>

theorem mesh_save_load_witness:
  "\<exists>data' st'.
      save_all (\<lambda>e. Inr (sample_ser e)) memory_backend
        [fst (mesh_insert 5 (sample_stored 1 9) (mesh_with_capacity 2)), mesh_with_capacity 2] [] = (Inr (), data')
    \<and> mesh_load sample_deser 7 memory_backend data' (mesh_with_capacity 2) = (st', Inr 1)
    \<and> mesh_get st' = [se_message_id (sample_stored 1 9) \<mapsto> sample_stored 1 9]"
proof -
  let ?st = "fst (mesh_insert 5 (sample_stored 1 9) (mesh_with_capacity 2))"
  have st: "?st = \<lparr>ms_messages = [(se_message_id (sample_stored 1 9), sample_stored 1 9)], ms_max_messages = 2\<rparr>"
    by (simp add: mesh_insert_def evict_if_over_budget_def mesh_with_capacity_def)
  have inv: "mesh_inv st" if "st \<in> set [?st, mesh_with_capacity 2]" for st
    using that mesh_insert_inv [of "mesh_with_capacity 2" "sample_stored 1 9" 5] by auto
  have ll: "lossless_for sample_ser sample_deser st" if "st \<in> set [?st, mesh_with_capacity 2]" for st
    using that unfolding st by (auto simp: lossless_for_def mesh_get_def mesh_with_capacity_def split: if_splits)
  have last: "last_saved [?st, mesh_with_capacity 2] = [se_message_id (sample_stored 1 9) \<mapsto> sample_stored 1 9]"
    unfolding st by (simp add: last_saved_def mesh_get_messages mesh_with_capacity_def)
  from mesh_save_load [where sts = "[?st, mesh_with_capacity 2]" and data = "[]" and cap = 2 and now = 7, OF ll inv]
  show ?thesis unfolding last by (simp del: save_all.simps)
qed

end
