(* ===== verification/Drift_Sync.thy ===== *)
theory Drift_Sync
  imports Drift_Frame Drift_Reconcile Drift_Store
begin

text \<open>
  The synchronisation protocol of \<open>src/core/src/drift/sync.rs\<close>: a session per peer, the offer, the
  response and the completion, and the merge of received envelopes. Handlers take the session and
  return it next to their result, so that what an early error leaves behind is visible. The digest,
  its text form and the serialisers are parameters; \<open>now\<close> is the clock.
\<close>

section \<open>Messages\<close>

definition SYNC_SCHEMA_VERSION :: u32 where
  "SYNC_SCHEMA_VERSION = 1"

datatype sync_message =
    SyncOffer (offer_iblt_data: bytes) (offer_message_count: u32) (sketch_capacity: u32)
      (peer_proof: string) (offer_timestamp: u64)
  | SyncResponse (response_iblt_data: bytes) (response_message_count: u32) (response_missing: "bytes list")
  | SyncComplete (complete_missing: "bytes list")

fun sync_frame_type :: "sync_message \<Rightarrow> frame_type" where
  "sync_frame_type (SyncOffer _ _ _ _ _) = SyncReq"
| "sync_frame_type (SyncResponse _ _ _) = SyncResp"
| "sync_frame_type (SyncComplete _) = SyncResp"

record versioned_sync_message =
  vs_schema_version :: u32
  vs_payload :: sync_message

definition versioned_new :: "sync_message \<Rightarrow> versioned_sync_message" where
  "versioned_new payload = \<lparr>vs_schema_version = SYNC_SCHEMA_VERSION, vs_payload = payload\<rparr>"

datatype mesh_error = VersionMismatch u32 u32 \<comment> \<open>received, expected\<close>

fun mesh_error_text :: "mesh_error \<Rightarrow> string" where
  "mesh_error_text (VersionMismatch received expected) =
     ''sync protocol version mismatch: got '' @ decimal (unat received) @ '', expected '' @ decimal (unat expected)"

definition versioned_validate :: "versioned_sync_message \<Rightarrow> mesh_error + unit" where
  "versioned_validate msg =
     (if vs_schema_version msg \<noteq> SYNC_SCHEMA_VERSION
      then Inl (VersionMismatch (vs_schema_version msg) SYNC_SCHEMA_VERSION) else Inr ())"

definition decompression_res :: "string + 'a \<Rightarrow> drift_error + 'a" where
  "decompression_res r = (case r of Inl e \<Rightarrow> Inl (DecompressionFailed e) | Inr x \<Rightarrow> Inr x)"

definition versioned_to_bytes ::
  "(versioned_sync_message \<Rightarrow> string + bytes) \<Rightarrow> versioned_sync_message \<Rightarrow> drift_error + bytes" where
  "versioned_to_bytes ser msg = decompression_res (ser msg)"

definition versioned_from_bytes ::
  "(bytes \<Rightarrow> string + versioned_sync_message) \<Rightarrow> bytes \<Rightarrow> drift_error + versioned_sync_message" where
  "versioned_from_bytes deser data =
     try_res (decompression_res (deser data)) (\<lambda>msg.
       case versioned_validate msg of
         Inl e \<Rightarrow> Inl (DecompressionFailed (mesh_error_text e))
       | Inr _ \<Rightarrow> Inr msg)"

definition sync_to_bytes :: "(sync_message \<Rightarrow> string + bytes) \<Rightarrow> sync_message \<Rightarrow> drift_error + bytes" where
  "sync_to_bytes ser msg = decompression_res (ser msg)"

definition sync_from_bytes :: "(bytes \<Rightarrow> string + sync_message) \<Rightarrow> bytes \<Rightarrow> drift_error + sync_message" where
  "sync_from_bytes deser data = decompression_res (deser data)"

section \<open>Sessions\<close>

datatype sync_state = Ready | AwaitingResponse | ProcessingResponse | Complete | Failed

record sync_session =
  ss_state :: sync_state
  ss_our_iblt :: "iblt option"
  ss_peer_iblt :: "iblt option"
  ss_peer_missing :: "message_id list"
  ss_our_missing :: "message_id list"
  ss_peer_message_count :: u32

definition session_new :: sync_session where
  "session_new = \<lparr>ss_state = Ready, ss_our_iblt = None, ss_peer_iblt = None, ss_peer_missing = [],
                  ss_our_missing = [], ss_peer_message_count = 0\<rparr>"

definition initiate ::
  "(bytes \<Rightarrow> bytes) \<Rightarrow> (bytes \<Rightarrow> string) \<Rightarrow> u64 \<Rightarrow> mesh_store \<Rightarrow> sync_session \<Rightarrow>
   sync_session \<times> (drift_error + sync_message)" where
  "initiate blake3 hex_encode now store ss =
     (if ss_state ss \<noteq> Ready then (ss, Inl (DecompressionFailed ''SyncSession already initiated''))
      else
        let message_count = (word_of_nat (mesh_len store) :: u32);
            iblt_capacity = max (unat message_count * 4 + 8) 1;
            iblt = insert_all blake3 (message_ids store) (iblt_new iblt_capacity)
        in case iblt_to_bytes iblt of
             Inl e \<Rightarrow> (ss, Inl e)
           | Inr iblt_data \<Rightarrow>
               (ss\<lparr>ss_our_iblt := Some iblt, ss_state := AwaitingResponse\<rparr>,
                Inr (SyncOffer iblt_data message_count (word_of_nat (cell_count iblt))
                       (generate_proof blake3 hex_encode store) now)))"

text \<open>The envelopes of the listed ids that the store holds and the serialiser accepts.\<close>

definition gather :: "(stored_envelope \<Rightarrow> string + bytes) \<Rightarrow> mesh_store \<Rightarrow> message_id list \<Rightarrow> bytes list" where
  "gather serialize store ids =
     List.map_filter (\<lambda>mid. case mesh_get store mid of
        None \<Rightarrow> None
      | Some env \<Rightarrow> (case serialize env of Inl _ \<Rightarrow> None | Inr bs \<Rightarrow> Some bs)) ids"

definition respond ::
  "(bytes \<Rightarrow> bytes) \<Rightarrow> (stored_envelope \<Rightarrow> string + bytes) \<Rightarrow> mesh_store \<Rightarrow> sync_message \<Rightarrow> sync_session \<Rightarrow>
   sync_session \<times> (drift_error + (sync_message \<times> stored_envelope list))" where
  "respond blake3 serialize store offer ss =
     (if ss_state ss \<noteq> Ready then (ss, Inl (DecompressionFailed ''SyncSession in wrong state for respond''))
      else case offer of
        SyncOffer iblt_data peer_msg_count _ _ _ \<Rightarrow>
          (case iblt_from_bytes iblt_data of
             Inl e \<Rightarrow> (ss, Inl e)
           | Inr peer_iblt \<Rightarrow>
               let ss1 = ss\<lparr>ss_peer_iblt := Some peer_iblt, ss_peer_message_count := peer_msg_count\<rparr>;
                   our_iblt = insert_all blake3 (message_ids store) (iblt_with_cells (cell_count peer_iblt))
               in case iblt_subtract our_iblt peer_iblt of
                    Inl e \<Rightarrow> (ss1, Inl e)
                  | Inr diff \<Rightarrow>
                      (case iblt_decode blake3 diff of
                         Inl e \<Rightarrow> (ss1, Inl e)
                       | Inr (they_have_not, they_have_we_dont) \<Rightarrow>
                           let ss2 = ss1\<lparr>ss_peer_missing := they_have_not, ss_our_missing := they_have_we_dont\<rparr>
                           in case iblt_to_bytes our_iblt of
                                Inl e \<Rightarrow> (ss2, Inl e)
                              | Inr our_iblt_data \<Rightarrow>
                                  (ss2\<lparr>ss_our_iblt := Some our_iblt, ss_state := ProcessingResponse\<rparr>,
                                   Inr (SyncResponse our_iblt_data (word_of_nat (mesh_len store))
                                          (gather serialize store they_have_not),
                                        List.map_filter (mesh_get store) they_have_we_dont))))
      | _ \<Rightarrow> (ss, Inl (DecompressionFailed ''Expected SyncOffer message'')))"

definition ok_values :: "('e + 'a) list \<Rightarrow> 'a list" where
  "ok_values rs = List.map_filter (\<lambda>r. case r of Inl _ \<Rightarrow> None | Inr x \<Rightarrow> Some x) rs"

definition complete ::
  "(bytes \<Rightarrow> bytes) \<Rightarrow> (stored_envelope \<Rightarrow> string + bytes) \<Rightarrow> (bytes \<Rightarrow> string + stored_envelope) \<Rightarrow>
   mesh_store \<Rightarrow> sync_message \<Rightarrow> sync_session \<Rightarrow>
   sync_session \<times> (drift_error + (sync_message \<times> stored_envelope list))" where
  "complete blake3 serialize deserialize store response ss =
     (if ss_state ss \<noteq> AwaitingResponse then (ss, Inl (DecompressionFailed ''SyncSession not awaiting response''))
      else case response of
        SyncResponse iblt_data their_msg_count missing_envelopes \<Rightarrow>
          (case iblt_from_bytes iblt_data of
             Inl e \<Rightarrow> (ss, Inl e)
           | Inr peer_iblt \<Rightarrow>
               (case ss_our_iblt ss of
                  None \<Rightarrow> (ss, Inl (DecompressionFailed ''No local IBLT stored''))
                | Some our_iblt \<Rightarrow>
                    (case iblt_subtract our_iblt peer_iblt of
                       Inl e \<Rightarrow> (ss, Inl e)
                     | Inr diff \<Rightarrow>
                         (case iblt_decode blake3 diff of
                            Inl e \<Rightarrow> (ss, Inl e)
                          | Inr (we_have_only, they_have_only) \<Rightarrow>
                              (ss\<lparr>ss_peer_missing := we_have_only, ss_our_missing := they_have_only,
                                  ss_state := Complete\<rparr>,
                               Inr (SyncComplete (gather serialize store we_have_only),
                                    ok_values (map deserialize missing_envelopes)))))))
      | _ \<Rightarrow> (ss, Inl (DecompressionFailed ''Expected SyncResponse message'')))"

fun merge_envelopes_loop :: "u64 \<Rightarrow> stored_envelope list \<Rightarrow> nat \<Rightarrow> mesh_store \<Rightarrow> mesh_store \<times> nat" where
  "merge_envelopes_loop now [] cnt store = (store, cnt)"
| "merge_envelopes_loop now (envelope # rest) cnt store =
     (case mesh_insert now envelope store of
        (store', True) \<Rightarrow> merge_envelopes_loop now rest (cnt + 1) store'
      | (store', False) \<Rightarrow> merge_envelopes_loop now rest cnt store')"

definition merge_envelopes :: "u64 \<Rightarrow> mesh_store \<Rightarrow> stored_envelope list \<Rightarrow> mesh_store \<times> nat" where
  "merge_envelopes now store envelopes = merge_envelopes_loop now envelopes 0 store"

section \<open>Decoding the opposite difference\<close>

lemma cell_is_pure_neg [simp]: "cell_is_pure (cell_neg c) = cell_is_pure c"
  by (auto simp: cell_is_pure_def cell_neg_def minus_equation_iff)

lemma cell_neg_fields [simp]:
  "ic_key_sum (cell_neg c) = ic_key_sum c" "ic_key_check (cell_neg c) = ic_key_check c"
  "ic_count (cell_neg c) = - ic_count c" "cell_is_empty (cell_neg c) = cell_is_empty c"
  by (simp_all add: cell_neg_def cell_is_empty_def)

lemma first_pure_neg: "first_pure (map cell_neg cells) = first_pure cells"
  by (induction cells) simp_all

lemma cell_neg_neg [simp]: "cell_neg (cell_neg c) = c"
  by (simp add: cell_neg_def)

lemma add_loop_neg: "add_loop f (cell_neg d) idxs (map cell_neg cells) = map cell_neg (add_loop f d idxs cells)"
proof (induction idxs arbitrary: cells)
  case (Cons i idxs)
  have "(map cell_neg cells)[f i := cell_plus (map cell_neg cells ! f i) (cell_neg d)] =
      map cell_neg (cells[f i := cell_plus (cells ! f i) d])"
    by (cases "f i < length cells") (simp_all add: map_update cell_neg_plus list_update_beyond)
  then show ?case using Cons.IH by simp
qed simp

lemma peel_loop_neg:
  "peel_loop f (- s) k idxs (map cell_neg cells) = map cell_neg (peel_loop f s k idxs cells)"
  using add_loop_neg [of f "key_cell (- s) k"] by (simp add: peel_loop_add)

text \<open>Negating a table swaps the two sides of what decoding returns.\<close>

lemma decode_loop_swap:
  "decode_loop left h (map cell_neg cells) bs as =
     (case decode_loop left h cells as bs of Inl e \<Rightarrow> Inl e | Inr (xs, ys) \<Rightarrow> Inr (ys, xs))"
proof (induction left arbitrary: cells as bs)
  case (Suc left)
  show ?case
  proof (cases "first_pure cells")
    case None
    then show ?thesis by (simp add: first_pure_neg list_all_iff)
  next
    case (Some idx)
    then have idx: "idx < length cells" and "cell_is_pure (cells ! idx)" using first_pure_Some by auto
    let ?k = "ic_key_sum (cells ! idx)"
    have neg: "map cell_neg cells ! idx = cell_neg (cells ! idx)" using idx by simp
    have upd: "(map cell_neg xs)[idx := cell_new] = map cell_neg (xs[idx := cell_new])" for xs
      by (simp add: map_update)
    consider "ic_count (cells ! idx) = 1" | "ic_count (cells ! idx) = - 1"
      using \<open>cell_is_pure (cells ! idx)\<close> by (auto simp: cell_is_pure_def)
    then show ?thesis
    proof cases
      case 1
      have peel: "peel_loop f (- 1) k idxs (map cell_neg cells) = map cell_neg (peel_loop f 1 k idxs cells)" for f k idxs
        by (rule peel_loop_neg)
      show ?thesis by (simp add: Some first_pure_neg Let_def neg 1 peel upd Suc.IH del: map_update)
    next
      case 2
      have peel: "peel_loop f 1 k idxs (map cell_neg cells) = map cell_neg (peel_loop f (- 1) k idxs cells)" for f k idxs
        using peel_loop_neg [of f "- 1"] by simp
      show ?thesis by (simp add: Some first_pure_neg Let_def neg 2 peel upd Suc.IH del: map_update)
    qed
  qed
qed simp

lemma iblt_subtract_swap:
  assumes "iblt_subtract a b = Inr d" and "length (ib_cells a) = ib_num_cells a" and "length (ib_cells b) = ib_num_cells b"
    and "0 < ib_num_cells a"
  shows "iblt_subtract b a = Inr (d\<lparr>ib_cells := map cell_neg (ib_cells d)\<rparr>)"
proof -
  have sub: "cell_subtract x y = cell_neg (cell_subtract y x)" for x y
    by (simp add: cell_subtract_def cell_neg_def xor_bytes_comm [of "ic_key_sum x"] xor.commute [of "ic_key_check x"])
  have "map2 cell_subtract (ib_cells b) (ib_cells a) = map cell_neg (map2 cell_subtract (ib_cells a) (ib_cells b))"
    by (rule nth_equalityI) (simp_all add: sub [of "ib_cells b ! _"])
  then show ?thesis using assms by (auto simp: iblt_subtract_def Let_def iblt_with_cells_def split: if_splits)
qed

lemma iblt_decode_swap:
  assumes "iblt_decode blake3 d = Inr (xs, ys)"
  shows "iblt_decode blake3 (d\<lparr>ib_cells := map cell_neg (ib_cells d)\<rparr>) = Inr (ys, xs)"
  using assms decode_loop_swap [of _ _ "ib_cells d" "[]" "[]"] by (simp add: iblt_decode_def)

section \<open>Tables on the wire\<close>

lemma table_of_wire:
  assumes t: "table_of blake3 (plus_keys ids) t" and "ib_num_cells t \<le> 65535"
    and load: "\<forall>j < ib_num_cells t. cell_load (hash_to_cell blake3 (ib_num_cells t)) (plus_keys ids) j < 256"
  shows "\<exists>bs. iblt_to_bytes t = Inr bs \<and> iblt_from_bytes bs = Inr t"
proof (rule iblt_codec.dec_enc_ex, intro conjI ballI)
  let ?h = "hash_to_cell blake3 (ib_num_cells t)"
  have rep: "represents ?h (plus_keys ids) (ib_cells t)" and len: "length (ib_cells t) = ib_num_cells t"
    using t by (simp_all add: table_of_def)
  show "wf_iblt t" using represents_wf_cells [OF rep] len by (simp add: wf_iblt_def list_all_iff)
  fix c assume "c \<in> set (ib_cells t)"
  then obtain j where j: "j < ib_num_cells t" "c = cell_sum ?h j (plus_keys ids)"
    using rep len by (auto simp: in_set_conv_nth represents_def)
  have "ic_count c = of_nat (cell_load ?h (plus_keys ids) j)"
    unfolding j(2) by (rule ic_count_plus) (auto simp: plus_keys_def)
  moreover have "cell_load ?h (plus_keys ids) j < 256" using load j(1) by blast
  ultimately show "unat (ic_count c) < 256" by (simp add: unat_of_nat)
qed (rule assms(2))


section \<open>Gathering and merging envelopes\<close>

definition envelopes_of :: "mesh_store \<Rightarrow> message_id list \<Rightarrow> stored_envelope list" where
  "envelopes_of store ids = map (\<lambda>mid. the (mesh_get store mid)) ids"

lemma gather_known:
  "set ids \<subseteq> set (message_ids store) \<Longrightarrow> gather (\<lambda>e. Inr (ser e)) store ids = map ser (envelopes_of store ids)"
  by (induction ids) (auto simp: gather_def envelopes_of_def List.map_filter_simps message_ids_get)

lemma get_unknown:
  "set ids \<inter> set (message_ids store) = {} \<Longrightarrow> List.map_filter (mesh_get store) ids = []"
proof (induction ids)
  case (Cons mid ids)
  then have "mesh_get store mid = None" using message_ids_get [of mid store] by (cases "mesh_get store mid") auto
  with Cons show ?case by (simp add: List.map_filter_simps)
qed (simp add: List.map_filter_simps)

lemma ok_values_Inr: "ok_values (map Inr xs) = xs"
  by (induction xs) (simp_all add: ok_values_def List.map_filter_simps)

lemma lossless_envelopes:
  assumes "lossless_for ser deserialize store" and "set ids \<subseteq> set (message_ids store)"
  shows "ok_values (map deserialize (map ser (envelopes_of store ids))) = envelopes_of store ids"
proof -
  have "map deserialize (map ser (envelopes_of store ids)) = map Inr (envelopes_of store ids)"
    using assms by (auto simp: envelopes_of_def lossless_for_def message_ids_get)
  then show ?thesis by (simp only: ok_values_Inr)
qed

lemma merge_envelopes_append:
  "distinct (map se_message_id envs) \<Longrightarrow> \<forall>e \<in> set envs. \<not> mesh_contains st (se_message_id e) \<Longrightarrow>
   mesh_len st + length envs \<le> ms_max_messages st \<Longrightarrow>
   merge_envelopes_loop now envs n st =
     (st\<lparr>ms_messages := ms_messages st @ map (\<lambda>e. (se_message_id e, e)) envs\<rparr>, n + length envs)"
proof (induction envs arbitrary: st n)
  case (Cons e envs)
  let ?st = "st\<lparr>ms_messages := ms_messages st @ [(se_message_id e, e)]\<rparr>"
  have ins: "mesh_insert now e st = (?st, True)"
    using Cons.prems by (intro mesh_insert_append) simp_all
  have fresh: "\<forall>x \<in> set envs. se_message_id x \<noteq> se_message_id e"
    using Cons.prems(1) by (simp add: image_iff) metis
  have "merge_envelopes_loop now envs (n + 1) ?st =
      (?st\<lparr>ms_messages := ms_messages ?st @ map (\<lambda>e. (se_message_id e, e)) envs\<rparr>, n + 1 + length envs)"
    using Cons.prems fresh by (intro Cons.IH) (simp_all add: mesh_contains_def mesh_len_def)
  then show ?case using ins by simp
qed simp

lemma mesh_inv_ids:
  assumes "mesh_inv st"
  shows "distinct (message_ids st)" and "mesh_len st = card (set (message_ids st))"
    and "wf_ids (message_ids st)"
    and "set ids \<subseteq> set (message_ids st) \<Longrightarrow> map se_message_id (envelopes_of st ids) = ids"
proof -
  show d: "distinct (message_ids st)" using assms by (simp add: mesh_inv_def keyed_def message_ids_def)
  show "mesh_len st = card (set (message_ids st))"
    using distinct_card [OF d] by (simp add: mesh_len_def message_ids_def)
  show "wf_ids (message_ids st)" using assms by (auto simp: mesh_inv_def keyed_def message_ids_def wf_ids_def)
  have "se_message_id (the (mesh_get st mid)) = mid" if "mid \<in> set (message_ids st)" for mid
    using that assms by (auto simp: message_ids_get mesh_inv_def keyed_def mesh_get_def)
  then show "set ids \<subseteq> set (message_ids st) \<Longrightarrow> map se_message_id (envelopes_of st ids) = ids"
    unfolding envelopes_of_def by (induction ids) simp_all
qed

lemma merge_envelopes_union:
  assumes inv: "mesh_inv a" "mesh_inv b"
    and ids: "mset ids = mset (filter (\<lambda>k. k \<notin> set (message_ids a)) (message_ids b))"
    and room: "card (set (message_ids a) \<union> set (message_ids b)) \<le> ms_max_messages a"
  shows "snd (merge_envelopes now a (envelopes_of b ids)) = length ids
       \<and> mesh_get (fst (merge_envelopes now a (envelopes_of b ids))) mid =
           (case mesh_get a mid of Some e \<Rightarrow> Some e | None \<Rightarrow> mesh_get b mid)"
proof -
  let ?envs = "envelopes_of b ids"
  have set_ids: "set ids = set (message_ids b) - set (message_ids a)"
    using mset_eq_setD [OF ids] by auto
  have dist: "distinct ids" using mset_eq_imp_distinct_iff [OF ids] mesh_inv_ids(1) [OF inv(2)] by simp
  have map_ids: "map se_message_id ?envs = ids" using set_ids by (intro mesh_inv_ids(4) [OF inv(2)]) simp
  have "mesh_len a + length ids = card (set (message_ids a) \<union> set (message_ids b))"
    using distinct_card [OF dist] mesh_inv_ids(2) [OF inv(1)] card_Un_disjoint [of "set (message_ids a)" "set ids"]
    by (simp add: set_ids Un_Diff_cancel)
  moreover have "length ?envs = length ids" by (simp add: envelopes_of_def)
  moreover have "\<forall>e \<in> set ?envs. \<not> mesh_contains a (se_message_id e)"
  proof
    fix e assume "e \<in> set ?envs"
    then have "se_message_id e \<in> set ids" using map_ids by (metis image_eqI set_map)
    then show "\<not> mesh_contains a (se_message_id e)" using set_ids by (simp add: mesh_contains_def message_ids_def)
  qed
  ultimately have run: "merge_envelopes now a ?envs =
      (a\<lparr>ms_messages := ms_messages a @ map (\<lambda>e. (se_message_id e, e)) ?envs\<rparr>, length ids)"
    using merge_envelopes_append [of ?envs a now 0] map_ids dist room by (simp add: merge_envelopes_def)
  have "map (\<lambda>e. (se_message_id e, e)) ?envs = map (\<lambda>k. (k, the (mesh_get b k))) ids"
    using map_ids by (simp add: envelopes_of_def list_eq_iff_nth_eq)
  then have "mesh_get (fst (merge_envelopes now a ?envs)) mid =
      (case mesh_get a mid of Some e \<Rightarrow> Some e | None \<Rightarrow> if mid \<in> set ids then Some (the (mesh_get b mid)) else None)"
    unfolding run by (simp add: mesh_get_def map_add_def map_of_map_restrict restrict_map_def split: option.splits)
  moreover have "mesh_get b mid = (if mid \<in> set ids then Some (the (mesh_get b mid)) else None)" if "mesh_get a mid = None"
    using that message_ids_get [of mid a] message_ids_get [of mid b] by (cases "mesh_get b mid") (auto simp: set_ids)
  ultimately have "mesh_get (fst (merge_envelopes now a ?envs)) mid =
      (case mesh_get a mid of Some e \<Rightarrow> Some e | None \<Rightarrow> mesh_get b mid)"
    by (cases "mesh_get a mid") simp_all
  then show ?thesis by (simp add: run)
qed


section \<open>One run of the protocol\<close>

text \<open>
  The conditions under which the sketches of two stores reconcile in a table of \<open>n\<close> cells: the table fits the
  wire format, no cell is hit 256 times, and the difference is peelable without false pure cells.
\<close>

definition sketch_fits :: "(bytes \<Rightarrow> bytes) \<Rightarrow> nat \<Rightarrow> message_id list \<Rightarrow> bool" where
  "sketch_fits blake3 n ids \<longleftrightarrow>
     n \<le> 65535 \<and> (\<forall>j < n. cell_load (hash_to_cell blake3 n) (plus_keys ids) j < 256)"

definition decodable :: "(bytes \<Rightarrow> bytes) \<Rightarrow> nat \<Rightarrow> message_id list \<Rightarrow> message_id list \<Rightarrow> bool" where
  "decodable blake3 n as bs \<longleftrightarrow>
     peelable (hash_to_cell blake3 n) n (diff_keys as bs) \<and> no_false_pure (hash_to_cell blake3 n) n (diff_keys as bs)"

definition offer_cells :: "mesh_store \<Rightarrow> nat" where
  "offer_cells store = (mesh_len store * 4 + 8) * 3"

lemma iblt_new_with_cells: "iblt_new d = iblt_with_cells (max d 1 * 3)"
  by (simp add: iblt_new_def iblt_with_cells_def Let_def CELLS_PER_DIFF_def)

lemma initiate_ok:
  assumes "mesh_inv a" and "sketch_fits blake3 (offer_cells a) (message_ids a)"
  defines "t \<equiv> insert_all blake3 (message_ids a) (iblt_with_cells (offer_cells a))"
  obtains data where "iblt_from_bytes data = Inr t"
    and "initiate blake3 hex_encode now a session_new =
      (session_new\<lparr>ss_our_iblt := Some t, ss_state := AwaitingResponse\<rparr>,
       Inr (SyncOffer data (word_of_nat (mesh_len a)) (word_of_nat (offer_cells a)) (generate_proof blake3 hex_encode a) now))"
proof -
  have n: "ib_num_cells t = offer_cells a" by (simp add: t_def iblt_with_cells_def offer_cells_def)
  have "mesh_len a < 2 ^ 32" using assms(2) by (simp add: sketch_fits_def offer_cells_def)
  then have len: "unat (word_of_nat (mesh_len a) :: u32) = mesh_len a" by (simp add: unat_of_nat)
  have t': "insert_all blake3 (message_ids a) (iblt_new (max (unat (word_of_nat (mesh_len a) :: u32) * 4 + 8) 1)) = t"
    by (simp add: len t_def iblt_new_with_cells offer_cells_def)
  have "table_of blake3 (plus_keys (message_ids a)) t"
    using table_of_insert_all [OF table_of_with_cells mesh_inv_ids(3) [OF assms(1)]] by (simp add: t_def)
  then obtain data where data: "iblt_to_bytes t = Inr data" "iblt_from_bytes data = Inr t"
    using table_of_wire [of blake3 "message_ids a" t] assms(2) unfolding sketch_fits_def n by blast
  show thesis
  proof (rule that [OF data(2)])
    show "initiate blake3 hex_encode now a session_new =
      (session_new\<lparr>ss_our_iblt := Some t, ss_state := AwaitingResponse\<rparr>,
       Inr (SyncOffer data (word_of_nat (mesh_len a)) (word_of_nat (offer_cells a)) (generate_proof blake3 hex_encode a) now))"
      unfolding initiate_def t' Let_def data(1) by (simp add: session_new_def cell_count_def n)
  qed
qed

lemma tables_decode:
  assumes "mesh_inv a" and "mesh_inv b" and "0 < n" and "decodable blake3 n (message_ids b) (message_ids a)"
  defines "ta \<equiv> insert_all blake3 (message_ids a) (iblt_with_cells n)"
    and "tb \<equiv> insert_all blake3 (message_ids b) (iblt_with_cells n)"
  obtains d d' xs ys where "iblt_subtract tb ta = Inr d" and "iblt_decode blake3 d = Inr (xs, ys)"
    and "iblt_subtract ta tb = Inr d'" and "iblt_decode blake3 d' = Inr (ys, xs)"
    and "mset xs = mset (filter (\<lambda>k. k \<notin> set (message_ids a)) (message_ids b))"
    and "mset ys = mset (filter (\<lambda>k. k \<notin> set (message_ids b)) (message_ids a))"
proof -
  note ids = mesh_inv_ids(1,3) [OF assms(1)] mesh_inv_ids(1,3) [OF assms(2)]
  have n: "ib_num_cells (iblt_with_cells n) = n" using assms(3) by (simp add: iblt_with_cells_def)
  obtain d where d: "iblt_subtract tb ta = Inr d" "ib_num_cells d = n" "table_of blake3 (diff_keys (message_ids b) (message_ids a)) d"
    using table_of_difference [OF table_of_with_cells table_of_with_cells refl ids(3,1,4,2)] n
    unfolding ta_def tb_def by metis
  obtain xs ys where dec: "iblt_decode blake3 d = Inr (xs, ys)"
    "mset xs = mset (filter (\<lambda>k. k \<notin> set (message_ids a)) (message_ids b))"
    "mset ys = mset (filter (\<lambda>k. k \<notin> set (message_ids b)) (message_ids a))"
    using iblt_decode_diff [OF d(3)] assms(4) by (auto simp: d(2) decodable_def)
  have "table_of blake3 (plus_keys (message_ids a) @ []) ta" "table_of blake3 (plus_keys (message_ids b) @ []) tb"
    unfolding ta_def tb_def using ids by (intro table_of_insert_all table_of_with_cells; simp)+
  then have "iblt_subtract ta tb = Inr (d\<lparr>ib_cells := map cell_neg (ib_cells d)\<rparr>)"
    by (intro iblt_subtract_swap [OF d(1)]) (simp_all add: table_of_def)
  then show thesis using that d(1) dec iblt_decode_swap [OF dec(1)] by blast
qed


text \<open>
  C1. One run of the protocol reconciles two stores. Take an initiator \<open>a\<close> and a responder \<open>b\<close> whose ids
  fit the sketch and whose difference is decodable in the number of cells the offer announces. Then
  offer, response and completion all succeed and the sessions move to \<open>Complete\<close> and
  \<open>ProcessingResponse\<close>; both sides compute the same two differences; the initiator receives exactly the
  envelopes it lacks, its completion carries exactly those the responder lacks, the list the responder
  returns for immediate insertion is empty, and merging what was received makes the initiator's store
  the union, given room for it.
\<close>

theorem sync_reconciles:
  assumes inv: "mesh_inv a" "mesh_inv b"
    and fits: "sketch_fits blake3 (offer_cells a) (message_ids a)" "sketch_fits blake3 (offer_cells a) (message_ids b)"
    and dec: "decodable blake3 (offer_cells a) (message_ids b) (message_ids a)"
    and lossless: "lossless_for ser deserialize b"
    and room: "card (set (message_ids a) \<union> set (message_ids b)) \<le> ms_max_messages a"
  shows "\<exists>sa offer sb response sa' missing received.
      initiate blake3 hex_encode now a session_new = (sa, Inr offer)
    \<and> respond blake3 (\<lambda>e. Inr (ser e)) b offer session_new = (sb, Inr (response, []))
    \<and> complete blake3 (\<lambda>e. Inr (ser e)) deserialize a response sa = (sa', Inr (SyncComplete missing, received))
    \<and> ss_state sa' = Complete \<and> ss_state sb = ProcessingResponse
    \<and> ss_our_missing sa' = ss_peer_missing sb \<and> ss_peer_missing sa' = ss_our_missing sb
    \<and> mset (ss_our_missing sa') = mset (filter (\<lambda>k. k \<notin> set (message_ids a)) (message_ids b))
    \<and> mset (ss_peer_missing sa') = mset (filter (\<lambda>k. k \<notin> set (message_ids b)) (message_ids a))
    \<and> received = envelopes_of b (ss_our_missing sa')
    \<and> missing = map ser (envelopes_of a (ss_peer_missing sa'))
    \<and> (\<forall>mid. mesh_get (fst (merge_envelopes now' a received)) mid =
               (case mesh_get a mid of Some e \<Rightarrow> Some e | None \<Rightarrow> mesh_get b mid))"
proof -
  let ?n = "offer_cells a"
  let ?ta = "insert_all blake3 (message_ids a) (iblt_with_cells ?n)"
  let ?tb = "insert_all blake3 (message_ids b) (iblt_with_cells ?n)"
  have n: "0 < ?n" "ib_num_cells ?ta = ?n" "ib_num_cells ?tb = ?n" "ib_num_cells (iblt_with_cells ?n) = ?n"
    by (simp_all add: offer_cells_def iblt_with_cells_def)
  obtain data where data: "iblt_from_bytes data = Inr ?ta"
    and init: "initiate blake3 hex_encode now a session_new =
      (session_new\<lparr>ss_our_iblt := Some ?ta, ss_state := AwaitingResponse\<rparr>,
       Inr (SyncOffer data (word_of_nat (mesh_len a)) (word_of_nat ?n) (generate_proof blake3 hex_encode a) now))"
    by (rule initiate_ok [OF inv(1) fits(1)])
  obtain d d' xs ys where sub: "iblt_subtract ?tb ?ta = Inr d" "iblt_decode blake3 d = Inr (xs, ys)"
    "iblt_subtract ?ta ?tb = Inr d'" "iblt_decode blake3 d' = Inr (ys, xs)"
    and xs: "mset xs = mset (filter (\<lambda>k. k \<notin> set (message_ids a)) (message_ids b))"
    and ys: "mset ys = mset (filter (\<lambda>k. k \<notin> set (message_ids b)) (message_ids a))"
    by (rule tables_decode [OF inv n(1) dec])
  have "table_of blake3 (plus_keys (message_ids b)) ?tb"
    using table_of_insert_all [OF table_of_with_cells mesh_inv_ids(3) [OF inv(2)]] by simp
  then obtain data' where data': "iblt_to_bytes ?tb = Inr data'" "iblt_from_bytes data' = Inr ?tb"
    using table_of_wire [of blake3 "message_ids b" ?tb] fits(2) unfolding sketch_fits_def n by blast
  have known: "set xs \<subseteq> set (message_ids b)" "set ys \<subseteq> set (message_ids a)" "set ys \<inter> set (message_ids b) = {}"
    using mset_eq_setD [OF xs] mset_eq_setD [OF ys] by auto
  let ?sb = "\<lparr>ss_state = ProcessingResponse, ss_our_iblt = Some ?tb, ss_peer_iblt = Some ?ta, ss_peer_missing = xs,
      ss_our_missing = ys, ss_peer_message_count = word_of_nat (mesh_len a)\<rparr>"
  let ?resp = "SyncResponse data' (word_of_nat (mesh_len b)) (map ser (envelopes_of b xs))"
  have resp: "respond blake3 (\<lambda>e. Inr (ser e)) b
      (SyncOffer data (word_of_nat (mesh_len a)) (word_of_nat ?n) (generate_proof blake3 hex_encode a) now) session_new
      = (?sb, Inr (?resp, []))"
    by (simp add: respond_def session_new_def data cell_count_def n Let_def sub data' gather_known [OF known(1)]
        get_unknown [OF known(3)])
  have compl: "complete blake3 (\<lambda>e. Inr (ser e)) deserialize a ?resp
      (session_new\<lparr>ss_our_iblt := Some ?ta, ss_state := AwaitingResponse\<rparr>) =
      (\<lparr>ss_state = Complete, ss_our_iblt = Some ?ta, ss_peer_iblt = None, ss_peer_missing = ys,
        ss_our_missing = xs, ss_peer_message_count = 0\<rparr>,
       Inr (SyncComplete (map ser (envelopes_of a ys)), envelopes_of b xs))"
    using lossless_envelopes [OF lossless known(1)]
    by (simp add: complete_def session_new_def data' sub gather_known [OF known(2)])
  from init resp compl xs ys merge_envelopes_union [OF inv xs room, of now'] show ?thesis by auto
qed

theorem sync_reconciles_witness:
  "let a = fst (mesh_insert 5 (sample_stored 1 9) (mesh_with_capacity 3));
       b = fst (mesh_insert 5 (sample_stored 2 9) (mesh_with_capacity 3))
   in \<exists>sa offer sb response sa' missing received.
        initiate toy_hash (\<lambda>_. ''proof'') 5 a session_new = (sa, Inr offer)
      \<and> respond toy_hash (\<lambda>e. Inr (sample_ser e)) b offer session_new = (sb, Inr (response, []))
      \<and> complete toy_hash (\<lambda>e. Inr (sample_ser e)) sample_deser a response sa = (sa', Inr (SyncComplete missing, received))
      \<and> ss_state sa' = Complete \<and> mset (ss_our_missing sa') = {#toy_id 2#} \<and> mset (ss_peer_missing sa') = {#toy_id 1#}"
proof -
  let ?s = "\<lambda>b. \<lparr>ms_messages = [(toy_id b, sample_stored b 9)], ms_max_messages = 3\<rparr>"
  have st: "fst (mesh_insert 5 (sample_stored b 9) (mesh_with_capacity 3)) = ?s b" for b
    by (simp add: mesh_insert_def evict_if_over_budget_def mesh_with_capacity_def)
      (simp add: sample_stored_def toy_id_def)
  have inv: "mesh_inv (?s b)" for b
    unfolding st [symmetric] by (simp add: mesh_insert_inv)
  have ids: "message_ids (?s b) = [toy_id b]" for b by (simp add: message_ids_def)
  have cells: "offer_cells (?s b) = 36" for b by (simp add: offer_cells_def mesh_len_def)
  have load: "cell_load h (plus_keys [k]) j < 256" for h k j
    using cell_load_le [of h "plus_keys [k]" j] by (simp add: plus_keys_def)
  have fits: "sketch_fits toy_hash 36 [toy_id b]" for b
    using load by (simp add: sketch_fits_def)
  have "peelable (hash_to_cell toy_hash 36) 36 (diff_keys [toy_id 2] [toy_id 1])" by (simp add: peel_eval)
  moreover have "no_false_pure (hash_to_cell toy_hash 36) 36 (diff_keys [toy_id 2] [toy_id 1])" by (simp add: peel_eval)
  ultimately have dec: "decodable toy_hash 36 [toy_id 2] [toy_id 1]" by (simp add: decodable_def)
  have lossless: "lossless_for sample_ser sample_deser (?s b)" for b
    by (simp add: lossless_for_def mesh_get_def)
  from sync_reconciles [OF inv [of 1] inv [of 2], unfolded ids cells, OF fits fits dec lossless [of 2], of "\<lambda>_. ''proof''" 5 5]
  show ?thesis unfolding st Let_def by (simp add: card_insert_if) blast
qed


section \<open>The session as a state machine\<close>

text \<open>
  The steps of a session, beside the table data of the last offer it has sent, which is no part of the session itself.
\<close>

definition sent_offer :: "bytes option \<Rightarrow> drift_error + sync_message \<Rightarrow> bytes option" where
  "sent_offer offer r = (case r of Inr (SyncOffer iblt_data _ _ _ _) \<Rightarrow> Some iblt_data | _ \<Rightarrow> offer)"

inductive session_step :: "sync_session \<Rightarrow> bytes option \<Rightarrow> sync_session \<Rightarrow> bytes option \<Rightarrow> bool" where
  step_initiate: "initiate blake3 hex_encode now store ss = (ss', r) \<Longrightarrow> session_step ss offer ss' (sent_offer offer r)"
| step_respond: "respond blake3 serialize store peer_offer ss = (ss', r') \<Longrightarrow> session_step ss offer ss' offer"
| step_complete: "complete blake3 serialize deserialize store response ss = (ss', r') \<Longrightarrow> session_step ss offer ss' offer"

text \<open>The order of the states a session passes through.\<close>

inductive advances :: "sync_state \<Rightarrow> sync_state \<Rightarrow> bool" where
  adv_stay: "advances s s"
| adv_offer: "advances Ready AwaitingResponse"
| adv_respond: "advances Ready ProcessingResponse"
| adv_complete: "advances AwaitingResponse Complete"

inductive_simps advances_Ready [simp]: "advances Ready s"
inductive_simps advances_from [simp]:
  "advances AwaitingResponse s" "advances ProcessingResponse s" "advances Complete s" "advances Failed s"

text \<open>The session holds the very table whose bytes it has offered.\<close>

definition holds_offer :: "sync_session \<Rightarrow> bytes option \<Rightarrow> bool" where
  "holds_offer ss offer \<longleftrightarrow> (\<exists>iblt iblt_data. offer = Some iblt_data \<and> ss_our_iblt ss = Some iblt \<and> iblt_to_bytes iblt = Inr iblt_data)"

definition session_inv :: "sync_session \<Rightarrow> bytes option \<Rightarrow> bool" where
  "session_inv ss offer \<longleftrightarrow> ss_state ss \<noteq> Failed \<and> (ss_state ss \<in> {AwaitingResponse, Complete} \<longrightarrow> holds_offer ss offer)"

definition session_kept :: "sync_session \<Rightarrow> bytes option \<Rightarrow> sync_session \<Rightarrow> bytes option \<Rightarrow> bool" where
  "session_kept ss offer ss' offer' \<longleftrightarrow> ss_state ss = Ready \<or> ss_our_iblt ss' = ss_our_iblt ss \<and> offer' = offer"

lemma initiate_step:
  "initiate blake3 hex_encode now store ss = (ss', r) \<Longrightarrow>
   advances (ss_state ss) (ss_state ss') \<and> session_kept ss offer ss' (sent_offer offer r) \<and>
   (session_inv ss offer \<longrightarrow> session_inv ss' (sent_offer offer r))"
  by (auto simp: initiate_def session_inv_def session_kept_def holds_offer_def sent_offer_def Let_def
      split: if_splits sum.splits intro: advances.intros)

lemma respond_step:
  "respond blake3 serialize store peer_offer ss = (ss', r) \<Longrightarrow>
   advances (ss_state ss) (ss_state ss') \<and> session_kept ss offer ss' offer \<and> (session_inv ss offer \<longrightarrow> session_inv ss' offer)"
  by (auto simp: respond_def session_inv_def session_kept_def holds_offer_def Let_def
      split: if_splits sum.splits sync_message.splits prod.splits intro: advances.intros)

lemma complete_step:
  "complete blake3 serialize deserialize store response ss = (ss', r) \<Longrightarrow>
   advances (ss_state ss) (ss_state ss') \<and> session_kept ss offer ss' offer \<and> (session_inv ss offer \<longrightarrow> session_inv ss' offer)"
  by (auto simp: complete_def session_inv_def session_kept_def holds_offer_def
      split: if_splits sum.splits sync_message.splits prod.splits option.splits intro: advances.intros)

inductive session_reachable :: "sync_session \<Rightarrow> bytes option \<Rightarrow> bool" where
  session_start: "session_reachable session_new None"
| session_next: "session_reachable ss offer \<Longrightarrow> session_step ss offer ss' offer' \<Longrightarrow> session_reachable ss' offer'"

lemma session_step_ok:
  "session_step ss offer ss' offer' \<Longrightarrow>
   advances (ss_state ss) (ss_state ss') \<and> session_kept ss offer ss' offer' \<and> (session_inv ss offer \<longrightarrow> session_inv ss' offer')"
  by (induction rule: session_step.induct) (rule initiate_step respond_step complete_step; assumption)+

lemma session_reachable_inv: "session_reachable ss offer \<Longrightarrow> session_inv ss offer"
  by (induction rule: session_reachable.induct) (auto simp: session_inv_def session_new_def dest: session_step_ok)

text \<open>
  C25. A session only moves forward: from \<open>Ready\<close> to \<open>AwaitingResponse\<close> and on to \<open>Complete\<close>, or from
  \<open>Ready\<close> to \<open>ProcessingResponse\<close>, where it stays. Whatever the peer sends, no session reaches
  \<open>Failed\<close>. From its offer on, until the response is processed and after that, a session holds exactly the table it
  offered: no step after the first changes the table, and its bytes are those of the offer that was sent.
\<close>

theorem sync_session_forward:
  assumes "session_reachable ss offer" and "session_step ss offer ss' offer'"
  shows "advances (ss_state ss) (ss_state ss') \<and> ss_state ss' \<noteq> Failed
       \<and> (ss_state ss \<noteq> Ready \<longrightarrow> ss_our_iblt ss' = ss_our_iblt ss \<and> offer' = offer)
       \<and> (ss_state ss' = AwaitingResponse \<or> ss_state ss' = Complete \<longrightarrow>
            (\<exists>iblt iblt_data. offer' = Some iblt_data \<and> ss_our_iblt ss' = Some iblt \<and> iblt_to_bytes iblt = Inr iblt_data))"
  using session_step_ok [OF assms(2)] session_reachable_inv [OF assms(1)]
  by (auto simp: session_inv_def session_kept_def holds_offer_def)

text \<open>A session that has sent an offer refuses a message of the wrong kind and still holds the table it offered.\<close>

theorem sync_session_forward_witness:
  "\<exists>ss ss' iblt iblt_data cnt ncells pf.
     initiate toy_hash (\<lambda>_. ''proof'') 5 mesh_new session_new = (ss, Inr (SyncOffer iblt_data cnt ncells pf 5))
   \<and> complete toy_hash (\<lambda>e. Inr (sample_ser e)) sample_deser mesh_new (SyncComplete []) ss
       = (ss', Inl (DecompressionFailed ''Expected SyncResponse message''))
   \<and> ss_state ss' = AwaitingResponse \<and> ss_our_iblt ss' = Some iblt \<and> iblt_to_bytes iblt = Inr iblt_data"
proof -
  obtain ss iblt_data cnt ncells pf where offer:
    "initiate toy_hash (\<lambda>_. ''proof'') 5 mesh_new session_new = (ss, Inr (SyncOffer iblt_data cnt ncells pf 5))"
    "ss_state ss = AwaitingResponse"
    by (simp add: initiate_def session_new_def mesh_new_def mesh_with_capacity_def mesh_len_def message_ids_def iblt_to_bytes_def
        iblt_new_def Let_def CELLS_PER_DIFF_def)
  obtain ss' where refused: "complete toy_hash (\<lambda>e. Inr (sample_ser e)) sample_deser mesh_new (SyncComplete []) ss
      = (ss', Inl (DecompressionFailed ''Expected SyncResponse message''))" "ss_state ss' = AwaitingResponse"
    using offer(2) by (simp add: complete_def)
  have "session_reachable ss (Some iblt_data)"
    using session_next [OF session_start step_initiate [OF offer(1)]] by (simp add: sent_offer_def)
  from sync_session_forward [OF this step_complete [OF refused(1)]] refused offer(1) show ?thesis by blast
qed

text \<open>
  A store with more than 5459 messages cannot offer a sync: the table for it has more cells than the
  wire format can announce, and the offer fails and leaves the session as it was. The default
  capacity of a store is 10000.
\<close>

lemma offer_size_limit:
  assumes "mesh_len store < 2 ^ 32" and "ss_state ss = Ready"
  shows "(is_ok (snd (initiate blake3 hex_encode now store ss)) \<longleftrightarrow> mesh_len store \<le> 5459)
       \<and> (\<not> mesh_len store \<le> 5459 \<longrightarrow>
            initiate blake3 hex_encode now store ss = (ss, Inl (BufferTooShort (offer_cells store) 65535)))"
proof -
  have len: "unat (word_of_nat (mesh_len store) :: u32) = mesh_len store" using assms(1) by (simp add: unat_of_nat)
  have cells: "ib_num_cells (insert_all blake3 (message_ids store) (iblt_new (max (mesh_len store * 4 + 8) 1))) = offer_cells store"
    by (simp add: iblt_new_def Let_def CELLS_PER_DIFF_def offer_cells_def)
  show ?thesis
    using assms(2) unfolding initiate_def len Let_def iblt_to_bytes_def cells
    by (auto simp: offer_cells_def)
qed

end
