(* ===== verification/Drift_Policy.thy ===== *)
theory Drift_Policy
  imports Drift_Prelude
begin

text \<open>
  How much a device relays and how often a peer may sync: the policy engine of
  \<open>src/core/src/drift/policy.rs\<close> with the relay configuration it produces
  (\<open>RelayConfig\<close> of \<open>src/core/src/drift/relay.rs\<close>), and the sliding-window limiter of
  \<open>src/core/src/drift/rate_limit.rs\<close>. Instants and durations of the limiter are natural numbers;
  \<open>duration_since\<close> saturates at zero, as subtraction of natural numbers does.
\<close>

section \<open>Relay configuration\<close>

record relay_config =
  rc_max_relay_per_hour :: u32
  rc_max_hop_count :: u8
  rc_min_relay_priority :: u8
  rc_battery_floor_percent :: u8
  rc_relay_opaque :: bool

definition relay_config_default :: relay_config where
  "relay_config_default =
     \<lparr>rc_max_relay_per_hour = 1000, rc_max_hop_count = 16, rc_min_relay_priority = 0,
      rc_battery_floor_percent = 20, rc_relay_opaque = True\<rparr>"

section \<open>The policy engine\<close>

record device_state =
  ds_battery_percent :: u8
  ds_is_charging :: bool
  ds_has_wifi :: bool
  ds_is_moving :: bool
  ds_timestamp :: u64

datatype relay_profile = Maximum | High | Standard | Reduced | Minimal

datatype policy_error = RelayBudgetCannotBeZero

record policy_engine =
  pe_scan_interval_override :: "u64 option"
  pe_relay_budget_override :: "u32 option"
  pe_battery_floor_override :: "u8 option"
  pe_current_profile :: relay_profile

definition policy_new :: policy_engine where
  "policy_new = \<lparr>pe_scan_interval_override = None, pe_relay_budget_override = None,
                 pe_battery_floor_override = None, pe_current_profile = Standard\<rparr>"

definition compute_profile :: "device_state \<Rightarrow> relay_profile" where
  "compute_profile st =
     (if ds_is_charging st \<and> ds_has_wifi st then Maximum
      else if ds_is_charging st then High
      else if 51 \<le> ds_battery_percent st \<and> ds_battery_percent st \<le> 100 then Standard
      else if 20 \<le> ds_battery_percent st \<and> ds_battery_percent st \<le> 50 then Reduced
      else Minimal)"

definition update_device_state :: "device_state \<Rightarrow> policy_engine \<Rightarrow> policy_engine \<times> relay_profile" where
  "update_device_state st pe = (pe\<lparr>pe_current_profile := compute_profile st\<rparr>, compute_profile st)"

definition scan_interval_ms :: "policy_engine \<Rightarrow> u64" where
  "scan_interval_ms pe =
     (case pe_scan_interval_override pe of
        Some v \<Rightarrow> v
      | None \<Rightarrow> (case pe_current_profile pe of
          Maximum \<Rightarrow> 500 | High \<Rightarrow> 1000 | Standard \<Rightarrow> 5000 | Reduced \<Rightarrow> 15000 | Minimal \<Rightarrow> 60000))"

definition relay_budget_per_hour :: "policy_engine \<Rightarrow> u32" where
  "relay_budget_per_hour pe =
     (case pe_relay_budget_override pe of
        Some v \<Rightarrow> v
      | None \<Rightarrow> (case pe_current_profile pe of
          Maximum \<Rightarrow> 5000 | High \<Rightarrow> 3000 | Standard \<Rightarrow> 1000 | Reduced \<Rightarrow> 300 | Minimal \<Rightarrow> 50))"

definition to_relay_config :: "policy_engine \<Rightarrow> relay_config" where
  "to_relay_config pe =
     (let battery_floor = (case pe_battery_floor_override pe of
            Some v \<Rightarrow> v
          | None \<Rightarrow> (case pe_current_profile pe of
              Maximum \<Rightarrow> 10 | High \<Rightarrow> 15 | Standard \<Rightarrow> 20 | Reduced \<Rightarrow> 30 | Minimal \<Rightarrow> 50))
      in \<lparr>rc_max_relay_per_hour = relay_budget_per_hour pe, rc_max_hop_count = 16,
          rc_min_relay_priority = 0, rc_battery_floor_percent = battery_floor, rc_relay_opaque = True\<rparr>)"

definition set_scan_interval_override :: "u64 option \<Rightarrow> policy_engine \<Rightarrow> policy_engine" where
  "set_scan_interval_override ms pe = pe\<lparr>pe_scan_interval_override := ms\<rparr>"

definition set_relay_budget_override ::
  "u32 option \<Rightarrow> policy_engine \<Rightarrow> policy_engine \<times> (policy_error + unit)" where
  "set_relay_budget_override budget pe =
     (if budget = Some 0 then (pe, Inl RelayBudgetCannotBeZero)
      else (pe\<lparr>pe_relay_budget_override := budget\<rparr>, Inr ()))"

definition set_battery_floor_override :: "u8 option \<Rightarrow> policy_engine \<Rightarrow> policy_engine" where
  "set_battery_floor_override percent pe = pe\<lparr>pe_battery_floor_override := percent\<rparr>"

definition should_reduce :: "policy_engine \<Rightarrow> bool" where
  "should_reduce pe \<longleftrightarrow> pe_current_profile pe = Reduced \<or> pe_current_profile pe = Minimal"

section \<open>The sync rate limiter\<close>

record sync_rate_limiter =
  rl_limits :: "(string, nat list) hmap"
  rl_window :: nat
  rl_max_per_window :: nat

definition limiter_new :: "nat \<Rightarrow> nat \<Rightarrow> sync_rate_limiter" where
  "limiter_new window max_per_window =
     \<lparr>rl_limits = [], rl_window = window, rl_max_per_window = max_per_window\<rparr>"

definition allow_sync :: "nat \<Rightarrow> string \<Rightarrow> sync_rate_limiter \<Rightarrow> sync_rate_limiter \<times> bool" where
  "allow_sync now peer_id rl =
     (let entry = (case hm_get (rl_limits rl) peer_id of Some ts \<Rightarrow> ts | None \<Rightarrow> []);
          timestamps = filter (\<lambda>t. now - t < rl_window rl) entry
      in if rl_max_per_window rl \<le> length timestamps
         then (rl\<lparr>rl_limits := hm_insert peer_id timestamps (rl_limits rl)\<rparr>, False)
         else (rl\<lparr>rl_limits := hm_insert peer_id (timestamps @ [now]) (rl_limits rl)\<rparr>, True))"

definition limiter_cleanup_expired :: "nat \<Rightarrow> sync_rate_limiter \<Rightarrow> sync_rate_limiter" where
  "limiter_cleanup_expired now rl =
     rl\<lparr>rl_limits := filter (\<lambda>(p, ts). ts \<noteq> [])
          (map (\<lambda>(p, ts). (p, filter (\<lambda>t. now - t < rl_window rl) ts)) (rl_limits rl))\<rparr>"

definition tracked_peer_count :: "sync_rate_limiter \<Rightarrow> nat" where
  "tracked_peer_count rl = length (rl_limits rl)"

definition peer_sync_count :: "string \<Rightarrow> sync_rate_limiter \<Rightarrow> nat" where
  "peer_sync_count peer_id rl = (case hm_get (rl_limits rl) peer_id of Some ts \<Rightarrow> length ts | None \<Rightarrow> 0)"

section \<open>Policies never stop relaying\<close>

inductive policy_reachable :: "policy_engine \<Rightarrow> bool" where
  policy_start: "policy_reachable policy_new"
| policy_update: "policy_reachable pe \<Longrightarrow> policy_reachable (fst (update_device_state st pe))"
| policy_scan: "policy_reachable pe \<Longrightarrow> policy_reachable (set_scan_interval_override ms pe)"
| policy_budget: "policy_reachable pe \<Longrightarrow> policy_reachable (fst (set_relay_budget_override b pe))"
| policy_floor: "policy_reachable pe \<Longrightarrow> policy_reachable (set_battery_floor_override f pe)"

lemma policy_reachable_budget: "policy_reachable pe \<Longrightarrow> pe_relay_budget_override pe \<noteq> Some 0"
  by (induction rule: policy_reachable.induct)
    (auto simp: policy_new_def update_device_state_def set_scan_interval_override_def
      set_relay_budget_override_def set_battery_floor_override_def)

text \<open>
  Relaying cannot be switched off by policy: whatever device states and user overrides a policy
  engine has seen, the configuration it hands to the relay engine has a budget of at least one
  message per hour, a hop limit of 16 and no minimum priority.
\<close>

lemma policy_keeps_relaying:
  assumes "policy_reachable pe"
  shows "0 < rc_max_relay_per_hour (to_relay_config pe) \<and> rc_max_hop_count (to_relay_config pe) = 16
       \<and> rc_min_relay_priority (to_relay_config pe) = 0"
  using policy_reachable_budget [OF assms]
  by (auto simp: to_relay_config_def relay_budget_per_hour_def Let_def word_neq_0_conv
      split: option.splits relay_profile.splits)

section \<open>The limiter over a sequence of requests\<close>

datatype limiter_event = Request string nat | Cleanup nat

fun event_time :: "limiter_event \<Rightarrow> nat" where
  "event_time (Request p t) = t"
| "event_time (Cleanup t) = t"

fun limiter_step :: "limiter_event \<Rightarrow> sync_rate_limiter \<times> (string \<times> nat) list \<Rightarrow> sync_rate_limiter \<times> (string \<times> nat) list" where
  "limiter_step (Request p t) (rl, granted) =
     (let (rl', ok) = allow_sync t p rl in (rl', if ok then granted @ [(p, t)] else granted))"
| "limiter_step (Cleanup t) (rl, granted) = (limiter_cleanup_expired t rl, granted)"

definition limiter_run :: "limiter_event list \<Rightarrow> sync_rate_limiter \<Rightarrow> sync_rate_limiter \<times> (string \<times> nat) list" where
  "limiter_run evs rl = fold limiter_step evs (rl, [])"

definition granted_to :: "string \<Rightarrow> (string \<times> nat) list \<Rightarrow> nat list" where
  "granted_to p granted = map snd (filter (\<lambda>x. fst x = p) granted)"

definition stamps :: "sync_rate_limiter \<Rightarrow> string \<Rightarrow> nat list" where
  "stamps rl p = (case hm_get (rl_limits rl) p of Some ts \<Rightarrow> ts | None \<Rightarrow> [])"

lemma stamps_allow:
  "stamps (fst (allow_sync now p rl)) q =
     (if q = p then filter (\<lambda>t. now - t < rl_window rl) (stamps rl p) @ (if snd (allow_sync now p rl) then [now] else [])
      else stamps rl q)"
  by (simp add: allow_sync_def stamps_def Let_def)

lemma allow_sync_iff:
  "snd (allow_sync now p rl) \<longleftrightarrow>
     length (filter (\<lambda>t. now - t < rl_window rl) (stamps rl p)) < rl_max_per_window rl"
  by (auto simp: allow_sync_def stamps_def Let_def)

lemma allow_sync_fields:
  "rl_window (fst (allow_sync now p rl)) = rl_window rl" "rl_max_per_window (fst (allow_sync now p rl)) = rl_max_per_window rl"
  "hm_wf (rl_limits rl) \<Longrightarrow> hm_wf (rl_limits (fst (allow_sync now p rl)))"
  by (simp_all add: allow_sync_def Let_def)

lemma stamps_cleanup:
  assumes "hm_wf (rl_limits rl)"
  shows "stamps (limiter_cleanup_expired now rl) q = filter (\<lambda>t. now - t < rl_window rl) (stamps rl q)"
proof -
  let ?f = "\<lambda>ts. filter (\<lambda>t. now - t < rl_window rl) ts"
  let ?m = "map (\<lambda>(p, ts). (p, ?f ts)) (rl_limits rl)"
  have wf: "hm_wf ?m" using assms by (simp add: comp_def case_prod_unfold)
  have "hm_get ?m q = map_option ?f (hm_get (rl_limits rl) q)" by (simp add: map_of_map)
  then show ?thesis
    by (simp add: limiter_cleanup_expired_def stamps_def hm_get_filter [OF wf] split: option.splits)
qed

lemma cleanup_wf: "hm_wf (rl_limits rl) \<Longrightarrow> hm_wf (rl_limits (limiter_cleanup_expired now rl))"
  by (simp add: limiter_cleanup_expired_def comp_def case_prod_unfold)

lemma cleanup_fields:
  "rl_window (limiter_cleanup_expired now rl) = rl_window rl"
  "rl_max_per_window (limiter_cleanup_expired now rl) = rl_max_per_window rl"
  by (simp_all add: limiter_cleanup_expired_def)

text \<open>At most \<open>m\<close> of the given times lie in any window of length \<open>w\<close>.\<close>

definition within_limit :: "nat \<Rightarrow> nat \<Rightarrow> nat list \<Rightarrow> bool" where
  "within_limit w m G \<longleftrightarrow> (\<forall>t. length (filter (\<lambda>s. s \<le> t \<and> t - s < w) G) \<le> m)"

lemma within_limit_snoc:
  assumes lim: "within_limit w m G" and old: "\<forall>s \<in> set G. s \<le> x"
    and room: "length (filter (\<lambda>s. x - s < w) G) < m"
  shows "within_limit w m (G @ [x])"
  unfolding within_limit_def
proof
  fix t
  consider "t < x" | "x \<le> t" "t - x < w" | "x \<le> t" "w \<le> t - x" by linarith
  then show "length (filter (\<lambda>s. s \<le> t \<and> t - s < w) (G @ [x])) \<le> m"
  proof cases
    case 1
    then show ?thesis using lim by (simp add: within_limit_def)
  next
    case 2
    have "length (filter (\<lambda>s. s \<le> t \<and> t - s < w) G) \<le> length (filter (\<lambda>s. x - s < w) G)"
      using 2 by (induction G) auto
    then show ?thesis using 2 room by simp
  next
    case 3
    have "filter (\<lambda>s. s \<le> t \<and> t - s < w) G = []"
      using old 3 by (auto simp: filter_empty_conv)
    then show ?thesis using 3 by simp
  qed
qed

definition limiter_inv :: "nat \<Rightarrow> nat \<Rightarrow> nat \<Rightarrow> sync_rate_limiter \<times> (string \<times> nat) list \<Rightarrow> bool" where
  "limiter_inv w m T s \<longleftrightarrow>
     hm_wf (rl_limits (fst s)) \<and> rl_window (fst s) = w \<and> rl_max_per_window (fst s) = m \<and>
     (\<forall>p. (\<forall>t \<in> set (granted_to p (snd s)). t \<le> T) \<and> within_limit w m (granted_to p (snd s)) \<and>
          filter (\<lambda>t. T - t < w) (stamps (fst s) p) = filter (\<lambda>t. T - t < w) (granted_to p (snd s)))"

lemma filter_window_mono:
  fixes T x w :: nat
  assumes "T \<le> x" and "filter (\<lambda>t. T - t < w) xs = filter (\<lambda>t. T - t < w) ys"
  shows "filter (\<lambda>t. x - t < w) xs = filter (\<lambda>t. x - t < w) ys"
proof -
  have "filter (\<lambda>t. x - t < w) (filter (\<lambda>t. T - t < w) zs) = filter (\<lambda>t. x - t < w) zs" for zs
    using le_less_trans [OF diff_le_mono [OF assms(1)]] by (induction zs) auto
  then show ?thesis using assms(2) by metis
qed

lemma granted_to_snoc: "granted_to q (G @ [(p, t)]) = granted_to q G @ (if q = p then [t] else [])"
  by (simp add: granted_to_def)

lemma limiter_inv_step:
  assumes inv: "limiter_inv w m T s" and time: "T \<le> event_time ev"
  shows "limiter_inv w m (event_time ev) (limiter_step ev s)"
proof -
  obtain rl G where s: "s = (rl, G)" by (cases s)
  let ?x = "event_time ev"
  have wf: "hm_wf (rl_limits rl)" "rl_window rl = w" "rl_max_per_window rl = m"
    and old_T: "\<And>p t. t \<in> set (granted_to p G) \<Longrightarrow> t \<le> T"
    and lim: "\<And>p. within_limit w m (granted_to p G)"
    and eq_T: "\<And>p. filter (\<lambda>t. T - t < w) (stamps rl p) = filter (\<lambda>t. T - t < w) (granted_to p G)"
    using inv unfolding limiter_inv_def s by simp_all
  have old: "t \<le> ?x" if "t \<in> set (granted_to p G)" for p t
    using old_T [OF that] time by simp
  have eq: "filter (\<lambda>t. ?x - t < w) (stamps rl p) = filter (\<lambda>t. ?x - t < w) (granted_to p G)" for p
    using time eq_T by (rule filter_window_mono)
  show ?thesis
  proof (cases ev)
    case (Cleanup t)
    then show ?thesis using wf old lim eq
      by (auto simp: s limiter_inv_def stamps_cleanup cleanup_wf cleanup_fields)
  next
    case (Request p t)
    obtain rl' ok where run: "allow_sync t p rl = (rl', ok)" by (cases "allow_sync t p rl")
    have ok: "ok \<longleftrightarrow> length (filter (\<lambda>s. t - s < w) (granted_to p G)) < m"
      using allow_sync_iff [of t p rl] eq [of p] by (simp add: run wf Request)
    have step: "limiter_step ev s = (rl', if ok then G @ [(p, t)] else G)" by (simp add: s Request run)
    have rl': "rl_window rl' = w" "rl_max_per_window rl' = m" "hm_wf (rl_limits rl')"
      using allow_sync_fields [where now = t and p = p and rl = rl] wf by (simp_all add: run)
    have st: "stamps rl' q = (if q = p then filter (\<lambda>s. t - s < w) (stamps rl p) @ (if ok then [t] else []) else stamps rl q)" for q
      using stamps_allow [of t p rl q] by (simp add: run wf)
    have "limiter_inv w m t (rl', if ok then G @ [(p, t)] else G)"
      unfolding limiter_inv_def
    proof (intro conjI allI)
      fix q
      show "\<forall>s \<in> set (granted_to q (snd (rl', if ok then G @ [(p, t)] else G))). s \<le> t"
        using old Request by (auto simp: granted_to_snoc)
      show "within_limit w m (granted_to q (snd (rl', if ok then G @ [(p, t)] else G)))"
        using lim old ok Request by (auto simp: granted_to_snoc intro!: within_limit_snoc)
      show "filter (\<lambda>s. t - s < w) (stamps (fst (rl', if ok then G @ [(p, t)] else G)) q) =
          filter (\<lambda>s. t - s < w) (granted_to q (snd (rl', if ok then G @ [(p, t)] else G)))"
        using eq [of q] Request by (auto simp: st granted_to_snoc)
    qed (use rl' in simp_all)
    then show ?thesis unfolding step by (simp add: Request)
  qed
qed

lemma limiter_run_inv:
  "sorted (T # map event_time evs) \<Longrightarrow> limiter_inv w m T s \<Longrightarrow>
   \<exists>T'. limiter_inv w m T' (fold limiter_step evs s)"
proof (induction evs arbitrary: T s)
  case (Cons ev evs)
  then show ?case using Cons.IH [of "event_time ev"] limiter_inv_step [of w m T s ev] by simp
qed auto

text \<open>
  C20. The limiter enforces its sliding window. Over any sequence of requests and clean-ups with a
  monotonic clock, no peer is granted more than the configured number of syncs within any window of
  the configured length, wherever the window starts, and cleaning up never lets a peer exceed it.
\<close>

theorem limiter_window_bound:
  assumes "sorted (map event_time evs)"
  shows "length (filter (\<lambda>s. s \<le> t \<and> t - s < w) (granted_to p (snd (limiter_run evs (limiter_new w m))))) \<le> m"
proof -
  have "limiter_inv w m 0 (limiter_new w m, [])"
    by (simp add: limiter_inv_def limiter_new_def granted_to_def within_limit_def stamps_def)
  then obtain T where "limiter_inv w m T (limiter_run evs (limiter_new w m))"
    using limiter_run_inv [of 0 evs w m] assms unfolding limiter_run_def by fastforce
  then show ?thesis by (auto simp: limiter_inv_def within_limit_def)
qed

theorem limiter_window_bound_witness:
  "length (filter (\<lambda>s. s \<le> 9 \<and> 9 - s < 10)
     (granted_to ''p'' (snd (limiter_run [Request ''p'' 1, Request ''p'' 2, Cleanup 3, Request ''p'' 4] (limiter_new 10 2))))) \<le> 2"
  by (rule limiter_window_bound) simp

text \<open>
  The limiter does not starve a peer: a peer none of whose recorded syncs lies within the window is
  granted its next request, whenever the limit is positive.
\<close>

lemma limiter_grants_idle_peer:
  assumes "0 < rl_max_per_window rl" and "\<forall>t \<in> set (stamps rl p). rl_window rl \<le> now - t"
  shows "snd (allow_sync now p rl) \<and> last (stamps (fst (allow_sync now p rl)) p) = now"
proof -
  have "filter (\<lambda>t. now - t < rl_window rl) (stamps rl p) = []"
    using assms(2) by (auto simp: filter_empty_conv not_less)
  then show ?thesis using assms(1) by (simp add: allow_sync_iff stamps_allow)
qed

end
