(* ===== verification/Privacy_Traffic.thy ===== *)
theory Privacy_Traffic
  imports Drift_Prelude Complex_Main
begin

text \<open>
  Resistance to traffic analysis: message padding (\<open>src/core/src/privacy/padding.rs\<close>), timing jitter
  (\<open>src/core/src/privacy/timing.rs\<close>) and cover traffic (\<open>src/core/src/privacy/cover.rs\<close>). What the
  random number generator returns is an argument of the definitions. Times of the cover scheduler are
  natural numbers of nanoseconds since the epoch; \<open>f64\<close> is idealised to real numbers.
\<close>

section \<open>Padding\<close>

definition STANDARD_SIZES :: "nat list" where
  "STANDARD_SIZES = [256, 512, 1024, 2048, 4096]"

datatype padding_scheme = NoPadding | Fixed nat | PowerOfTwo | Random nat nat

datatype padding_error = PaddingInvalidConfig string | MessageTooLarge nat | InvalidPaddingFormat

function fill_zeros :: "nat \<Rightarrow> bytes \<Rightarrow> bytes" where
  "fill_zeros target padded =
     (if length padded < target then fill_zeros target (padded @ [0]) else padded)"
  by pat_completeness auto
termination
  by (relation "measure (\<lambda>(target, padded). target - length padded)") auto

declare fill_zeros.simps [simp del]

definition pad_message :: "bytes \<Rightarrow> nat \<Rightarrow> padding_error + bytes" where
  "pad_message msg target =
     (if length msg > target then Inl (MessageTooLarge target)
      else Inr (fill_zeros target (msg @ [0x80])))"

text \<open>\<open>Iterator::rposition\<close>: the last position that satisfies the predicate.\<close>

fun rposition :: "('a \<Rightarrow> bool) \<Rightarrow> 'a list \<Rightarrow> nat option" where
  "rposition P [] = None"
| "rposition P (x # xs) =
     (case rposition P xs of Some i \<Rightarrow> Some (Suc i) | None \<Rightarrow> if P x then Some 0 else None)"

definition unpad_message :: "bytes \<Rightarrow> padding_error + bytes" where
  "unpad_message padded =
     (case rposition (\<lambda>b. b = 0x80) padded of
        None \<Rightarrow> Inl InvalidPaddingFormat
      | Some marker_pos \<Rightarrow>
          if list_all (\<lambda>b. b = 0) (drop (marker_pos + 1) padded) then Inr (take marker_pos padded)
          else Inl InvalidPaddingFormat)"

definition pad_to_next_standard_size :: "bytes \<Rightarrow> padding_error + bytes" where
  "pad_to_next_standard_size msg =
     (case find (\<lambda>sz. length msg \<le> sz) STANDARD_SIZES of
        None \<Rightarrow> Inl (PaddingInvalidConfig ''Message exceeds max standard size of 4096'')
      | Some target \<Rightarrow> pad_message msg target)"

text \<open>The smallest power of two that is at least \<open>n\<close>, by doubling.\<close>

function next_power_from :: "nat \<Rightarrow> nat \<Rightarrow> nat" where
  "next_power_from p n = (if p < n \<and> 0 < p then next_power_from (2 * p) n else p)"
  by pat_completeness auto
termination by (relation "measure (\<lambda>(p, n). n - p)") auto

declare next_power_from.simps [simp del]

definition next_power_of_two :: "nat \<Rightarrow> nat" where
  "next_power_of_two n = next_power_from 1 n"

definition apply_padding_scheme :: "(nat \<Rightarrow> nat \<Rightarrow> nat) \<Rightarrow> bytes \<Rightarrow> padding_scheme \<Rightarrow> padding_error + bytes" where
  "apply_padding_scheme gen_range msg scheme =
     (case scheme of
        NoPadding \<Rightarrow> Inr msg
      | Fixed sz \<Rightarrow> pad_message msg sz
      | PowerOfTwo \<Rightarrow> pad_message msg (next_power_of_two (length msg))
      | Random mn mx \<Rightarrow>
          if mn > mx \<or> mn = 0 then Inl (PaddingInvalidConfig ''Invalid random range'')
          else let target = gen_range mn mx
               in if target < length msg then Inl (MessageTooLarge target)
                  else pad_message msg target)"

section \<open>Timing jitter\<close>

datatype jitter_distribution = Uniform | Exponential

record jitter_config =
  jc_min_delay_ms :: u32
  jc_max_delay_ms :: u32
  jc_distribution :: jitter_distribution

definition jitter_config_default :: jitter_config where
  "jitter_config_default = \<lparr>jc_min_delay_ms = 50, jc_max_delay_ms = 500, jc_distribution = Uniform\<rparr>"

datatype jitter_error = JitterInvalidConfig string

definition jitter_validate :: "jitter_config \<Rightarrow> jitter_error + unit" where
  "jitter_validate c =
     (if jc_min_delay_ms c > jc_max_delay_ms c then Inl (JitterInvalidConfig ''min_delay_ms must not exceed max_delay_ms'')
      else if jc_max_delay_ms c = 0 then Inl (JitterInvalidConfig ''max_delay_ms must be greater than 0'')
      else Inr ())"

datatype message_priority = HighPriority | NormalPriority | LowPriority

fun priority_jitter_config :: "message_priority \<Rightarrow> jitter_config" where
  "priority_jitter_config HighPriority = \<lparr>jc_min_delay_ms = 0, jc_max_delay_ms = 50, jc_distribution = Uniform\<rparr>"
| "priority_jitter_config NormalPriority = \<lparr>jc_min_delay_ms = 50, jc_max_delay_ms = 500, jc_distribution = Uniform\<rparr>"
| "priority_jitter_config LowPriority = \<lparr>jc_min_delay_ms = 100, jc_max_delay_ms = 2000, jc_distribution = Exponential\<rparr>"

record relay_timing_policy =
  tp_high_priority_config :: jitter_config
  tp_normal_config :: jitter_config
  tp_low_priority_config :: jitter_config

definition relay_timing_policy_default :: relay_timing_policy where
  "relay_timing_policy_default =
     \<lparr>tp_high_priority_config = priority_jitter_config HighPriority,
      tp_normal_config = priority_jitter_config NormalPriority,
      tp_low_priority_config = priority_jitter_config LowPriority\<rparr>"

text \<open>\<open>(-u.ln() * 100.0) as u32\<close> for a sample of the unit interval: the cast truncates and saturates.\<close>

definition exponential_ms :: "real \<Rightarrow> u32" where
  "exponential_ms u =
     (if u = 0 then - 1 else word_of_nat (min (nat \<lfloor>- ln u * 100\<rfloor>) (2 ^ 32 - 1)))"

definition compute_jitter :: "(u32 \<Rightarrow> u32 \<Rightarrow> u32) \<Rightarrow> real \<Rightarrow> jitter_config \<Rightarrow> u64" where
  "compute_jitter gen_range uniform c =
     ucast (case jc_distribution c of
        Uniform \<Rightarrow> gen_range (jc_min_delay_ms c) (jc_max_delay_ms c)
      | Exponential \<Rightarrow>
          jc_min_delay_ms c + min (exponential_ms uniform) (jc_max_delay_ms c - jc_min_delay_ms c))"

definition timing_jitter_new :: "jitter_config \<Rightarrow> jitter_error + jitter_config" where
  "timing_jitter_new c = try_res (jitter_validate c) (\<lambda>_. Inr c)"

definition jitter_with_priority :: "message_priority \<Rightarrow> jitter_error + jitter_config" where
  "jitter_with_priority p = timing_jitter_new (priority_jitter_config p)"

section \<open>Cover traffic\<close>

datatype cover_error = CoverInvalidConfig string | InvalidMessageSize

record cover_config =
  cc_rate_per_minute :: u32
  cc_message_size :: nat
  cc_enabled :: bool

definition cover_config_default :: cover_config where
  "cover_config_default = \<lparr>cc_rate_per_minute = 10, cc_message_size = 1024, cc_enabled = True\<rparr>"

definition cover_validate :: "cover_config \<Rightarrow> cover_error + unit" where
  "cover_validate c =
     (if cc_rate_per_minute c = 0 \<and> cc_enabled c then Inl (CoverInvalidConfig ''rate_per_minute must be > 0 when enabled'')
      else if cc_message_size c = 0 then Inl (CoverInvalidConfig ''message_size must be > 0'')
      else if cc_message_size c > 65536 then Inl (CoverInvalidConfig ''message_size exceeds maximum (65536 bytes)'')
      else Inr ())"

definition message_interval_ms :: "cover_config \<Rightarrow> nat" where
  "message_interval_ms c =
     (if cc_rate_per_minute c = 0 then 0 else max (60000 div unat (cc_rate_per_minute c)) 1)"

record cover_message =
  cm_recipient_hint :: bytes
  cm_encrypted_payload :: bytes
  cm_ephemeral_key :: bytes
  cm_is_cover :: bool

text \<open>\<open>fill_bytes\<close> threads the state of the random number generator.\<close>

definition generate_cover_message ::
  "('g \<Rightarrow> nat \<Rightarrow> bytes \<times> 'g) \<Rightarrow> cover_config \<Rightarrow> 'g \<Rightarrow> (cover_error + cover_message) \<times> 'g" where
  "generate_cover_message fill_bytes c g =
     (if \<not> cc_enabled c then (Inl (CoverInvalidConfig ''Cover traffic generation is disabled''), g)
      else let (recipient_hint, g1) = fill_bytes g 32;
               (encrypted_payload, g2) = fill_bytes g1 (cc_message_size c);
               (ephemeral_key, g3) = fill_bytes g2 32
           in (Inr \<lparr>cm_recipient_hint = recipient_hint, cm_encrypted_payload = encrypted_payload,
                    cm_ephemeral_key = ephemeral_key, cm_is_cover = True\<rparr>, g3))"

definition generator_new :: "cover_config \<Rightarrow> cover_error + cover_config" where
  "generator_new c = try_res (cover_validate c) (\<lambda>_. Inr c)"

record cover_scheduler =
  cs_config :: cover_config
  cs_last_generation_time :: nat

definition scheduler_new :: "cover_config \<Rightarrow> cover_error + cover_scheduler" where
  "scheduler_new c = try_res (cover_validate c) (\<lambda>_. Inr \<lparr>cs_config = c, cs_last_generation_time = 0\<rparr>)"

definition should_generate :: "nat \<Rightarrow> cover_scheduler \<Rightarrow> bool" where
  "should_generate now cs =
     (if \<not> cc_enabled (cs_config cs) \<or> cc_rate_per_minute (cs_config cs) = 0 then False
      else if cs_last_generation_time cs \<le> now
           then now - cs_last_generation_time cs > message_interval_ms (cs_config cs) * 1000000
           else True)"

definition generate_and_update ::
  "('g \<Rightarrow> nat \<Rightarrow> bytes \<times> 'g) \<Rightarrow> nat \<Rightarrow> cover_scheduler \<Rightarrow> 'g \<Rightarrow>
   cover_scheduler \<times> (cover_error + cover_message) \<times> 'g" where
  "generate_and_update fill_bytes now cs g =
     (case generator_new (cs_config cs) of
        Inl e \<Rightarrow> (cs, Inl e, g)
      | Inr c \<Rightarrow>
          (case generate_cover_message fill_bytes c g of
             (Inl e, g') \<Rightarrow> (cs, Inl e, g')
           | (Inr msg, g') \<Rightarrow> (cs\<lparr>cs_last_generation_time := now\<rparr>, Inr msg, g')))"

definition reset_timer :: "cover_scheduler \<Rightarrow> cover_scheduler" where
  "reset_timer cs = cs\<lparr>cs_last_generation_time := 0\<rparr>"

section \<open>What padding keeps and hides\<close>

lemma fill_zeros_replicate: "fill_zeros n xs = xs @ replicate (n - length xs) 0"
proof (induction n xs rule: fill_zeros.induct)
  case (1 n xs)
  show ?case
  proof (cases "length xs < n")
    case True
    then have "n - length xs = Suc (n - Suc (length xs))" by simp
    then show ?thesis using 1 True by (simp add: fill_zeros.simps [of n xs])
  qed (simp add: fill_zeros.simps [of n xs])
qed

lemma rposition_append:
  "rposition P (xs @ ys) = (case rposition P ys of Some i \<Rightarrow> Some (length xs + i) | None \<Rightarrow> rposition P xs)"
  by (induction xs) (auto split: option.splits)

lemma rposition_zeros: "rposition (\<lambda>b. b = 0x80) (replicate n (0 :: u8)) = None"
  by (induction n) simp_all

lemma unpad_padded: "unpad_message (msg @ [0x80] @ replicate n 0) = Inr msg"
  by (simp add: unpad_message_def rposition_append rposition_zeros list_all_iff)

lemma pad_message_ok: "length msg \<le> n \<Longrightarrow> pad_message msg n = Inr (msg @ [0x80] @ replicate (n - Suc (length msg)) 0)"
  by (simp add: pad_message_def fill_zeros_replicate)

lemma next_power_from_ge: "0 < p \<Longrightarrow> n \<le> next_power_from p n"
  by (induction p n rule: next_power_from.induct) (subst next_power_from.simps, auto)

lemma next_power_from_pow: "\<exists>k. next_power_from (2 ^ i) n = 2 ^ k"
proof (induction "2 ^ i :: nat" n arbitrary: i rule: next_power_from.induct)
  case (1 n)
  show ?case
  proof (cases "2 ^ i < n")
    case True
    then show ?thesis using 1 [of "Suc i"] by (simp add: next_power_from.simps [of "2 ^ i" n])
  qed (auto simp: next_power_from.simps [of "2 ^ i" n])
qed

section \<open>Properties of padding and jitter\<close>

text \<open>
  C31. Padding can be undone: whatever padding scheme produced a message, unpadding returns the
  original bytes, also when they contain the marker byte. Only \<open>None\<close>, which adds nothing, is
  excluded.
\<close>

theorem padding_roundtrip:
  assumes "apply_padding_scheme gen_range msg scheme = Inr padded" and "scheme \<noteq> NoPadding"
  shows "unpad_message padded = Inr msg"
proof -
  obtain n where "pad_message msg n = Inr padded"
    using assms by (cases scheme) (auto simp: apply_padding_scheme_def Let_def split: if_splits)
  moreover from this have "length msg \<le> n" by (auto simp: pad_message_def split: if_splits)
  ultimately show ?thesis using unpad_padded [of msg "n - Suc (length msg)"] by (simp add: pad_message_ok)
qed

theorem padding_roundtrip_witness:
  "\<exists>padded. apply_padding_scheme (\<lambda>a b. a) [0x80, 7, 0x80] (Fixed 5) = Inr padded \<and> unpad_message padded = Inr [0x80, 7, 0x80]"
  using padding_roundtrip [of "\<lambda>a b. a" "[0x80, 7, 0x80]" "Fixed 5"]
  by (simp add: apply_padding_scheme_def pad_message_ok)

text \<open>
  A padded message has exactly the requested size, except that a message that already fills it
  grows to one byte more. Hence a message whose length is a standard size, or a power of two under that
  scheme, leaves with a length that no other message has.
\<close>

lemma padded_length:
  assumes "pad_message msg n = Inr padded"
  shows "length padded = (if length msg = n then Suc n else n)
       \<and> (n = next_power_of_two (length msg) \<longrightarrow> (\<exists>k. n = 2 ^ k))
       \<and> (pad_to_next_standard_size msg = Inr padded \<longrightarrow>
            (length padded \<in> set STANDARD_SIZES \<longleftrightarrow> length msg \<notin> set STANDARD_SIZES))"
proof -
  have le: "length msg \<le> m" and len: "length p = (if length msg = m then Suc m else m)"
    if "pad_message msg m = Inr p" for m p
  proof -
    show "length msg \<le> m" using that by (auto simp: pad_message_def split: if_splits)
    then show "length p = (if length msg = m then Suc m else m)" using that by (auto simp: pad_message_ok)
  qed
  have "length padded \<in> set STANDARD_SIZES \<longleftrightarrow> length msg \<notin> set STANDARD_SIZES"
    if std: "pad_to_next_standard_size msg = Inr padded"
  proof -
    obtain m where m: "find (\<lambda>sz. length msg \<le> sz) STANDARD_SIZES = Some m" "pad_message msg m = Inr padded"
      using std by (auto simp: pad_to_next_standard_size_def split: option.splits)
    then show ?thesis using len [OF m(2)] le [OF m(2)]
      by (auto simp: STANDARD_SIZES_def split: if_splits)
  qed
  moreover have "\<exists>k. next_power_of_two (length msg) = 2 ^ k"
    using next_power_from_pow [of 0] by (simp add: next_power_of_two_def)
  ultimately show ?thesis using len [OF assms] by blast
qed

text \<open>
  A jitter delay lies between the configured bounds, for both distributions, whenever the
  configuration passes validation and the generator respects its range.
\<close>

lemma jitter_within_bounds:
  assumes "timing_jitter_new c = Inr c" and "0 \<le> u"
    and "jc_min_delay_ms c \<le> gen_range (jc_min_delay_ms c) (jc_max_delay_ms c)"
    and "gen_range (jc_min_delay_ms c) (jc_max_delay_ms c) \<le> jc_max_delay_ms c"
  shows "ucast (jc_min_delay_ms c) \<le> compute_jitter gen_range u c \<and> compute_jitter gen_range u c \<le> ucast (jc_max_delay_ms c)"
proof -
  have le: "jc_min_delay_ms c \<le> jc_max_delay_ms c"
    using assms(1) by (auto simp: timing_jitter_new_def jitter_validate_def split: if_splits)
  let ?a = "jc_min_delay_ms c" and ?b = "jc_max_delay_ms c"
  have sum: "?a \<le> ?a + min x (?b - ?a) \<and> ?a + min x (?b - ?a) \<le> ?b" for x
  proof -
    have d: "unat (?b - ?a) = unat ?b - unat ?a" using le by (rule unat_sub)
    have m: "unat (min x (?b - ?a)) \<le> unat ?b - unat ?a"
      using d by (metis min.cobounded2 word_le_nat_alt)
    then have "unat ?a + unat (min x (?b - ?a)) \<le> unat ?b" using le by (simp add: word_le_nat_alt)
    moreover from this have "unat (?a + min x (?b - ?a)) = unat ?a + unat (min x (?b - ?a))"
      using unat_bound [of ?b] by (simp add: unat_word_ariths)
    ultimately show ?thesis by (simp add: word_le_nat_alt)
  qed
  have cast: "ucast v \<le> (ucast w :: u64) \<longleftrightarrow> v \<le> w" for v w :: u32
    by (simp add: word_le_nat_alt unsigned_ucast_eq take_bit_nat_eq_self unsigned_less [THEN less_le_trans])
  show ?thesis using sum assms(3,4) by (cases "jc_distribution c") (simp_all add: compute_jitter_def cast)
qed

section \<open>The rate of cover traffic\<close>

text \<open>A scheduler polled at the given times; the result lists the times at which a message was made.\<close>

fun cover_polls :: "('g \<Rightarrow> nat \<Rightarrow> bytes \<times> 'g) \<Rightarrow> nat list \<Rightarrow> cover_scheduler \<Rightarrow> 'g \<Rightarrow> nat list" where
  "cover_polls fill_bytes [] cs g = []"
| "cover_polls fill_bytes (t # ts) cs g =
     (if should_generate t cs then
        (case generate_and_update fill_bytes t cs g of
           (cs', Inr msg, g') \<Rightarrow> t # cover_polls fill_bytes ts cs' g'
         | (cs', Inl e, g') \<Rightarrow> cover_polls fill_bytes ts cs' g')
      else cover_polls fill_bytes ts cs g)"

lemma generate_and_update_config: "cs_config (fst (generate_and_update fill_bytes t cs g)) = cs_config cs"
  by (simp add: generate_and_update_def split: sum.splits prod.splits)

lemma generate_and_update_time:
  "cs_last_generation_time (fst (generate_and_update fill_bytes t cs g)) =
     (case fst (snd (generate_and_update fill_bytes t cs g)) of Inr _ \<Rightarrow> t | Inl _ \<Rightarrow> cs_last_generation_time cs)"
  by (simp add: generate_and_update_def split: sum.splits prod.splits)

lemma cover_polls_spaced:
  "sorted (cs_last_generation_time cs # ts) \<Longrightarrow>
   sorted_wrt (\<lambda>a b. a + message_interval_ms (cs_config cs) * 1000000 < b)
     (cs_last_generation_time cs # cover_polls fill_bytes ts cs g)"
proof (induction ts arbitrary: cs g)
  case (Cons t ts)
  let ?gap = "message_interval_ms (cs_config cs) * 1000000"
  have skip: ?case if "cover_polls fill_bytes (t # ts) cs g = cover_polls fill_bytes ts cs g'" for g'
    using Cons.IH [of cs g'] Cons.prems that by simp
  show ?case
  proof (cases "should_generate t cs")
    case due: True
    obtain cs' r g' where run: "generate_and_update fill_bytes t cs g = (cs', r, g')" by (cases "generate_and_update fill_bytes t cs g")
    have cfg: "cs_config cs' = cs_config cs" using generate_and_update_config [of fill_bytes t cs g] by (simp add: run)
    have gap: "cs_last_generation_time cs + ?gap < t"
      using due Cons.prems by (auto simp: should_generate_def split: if_splits)
    show ?thesis
    proof (cases r)
      case (Inl e)
      then have "cs' = cs" using run by (auto simp: generate_and_update_def split: sum.splits prod.splits)
      then show ?thesis using skip due run Inl by simp
    next
      case (Inr msg)
      have time: "cs_last_generation_time cs' = t" using generate_and_update_time [of fill_bytes t cs g] by (simp add: run Inr)
      have "sorted_wrt (\<lambda>a b. a + ?gap < b) (t # cover_polls fill_bytes ts cs' g')"
        using Cons.IH [of cs' g'] Cons.prems by (simp add: time cfg)
      then show ?thesis using gap due run Inr by force
    qed
  qed (use skip in simp)
qed simp

text \<open>
  Cover traffic keeps its rate: however often a scheduler is polled with a monotonic clock, two
  consecutive cover messages are more than the configured interval apart.
\<close>

lemma cover_traffic_spacing:
  assumes "sorted (cs_last_generation_time cs # ts)"
  shows "sorted_wrt (\<lambda>a b. a + message_interval_ms (cs_config cs) * 1000000 < b) (cover_polls fill_bytes ts cs g)"
  using cover_polls_spaced [OF assms, of fill_bytes g] by simp

end
