(* ===== verification/Drift_Relay.thy ===== *)
theory Drift_Relay
  imports Drift_Envelope Drift_Store Drift_Policy Privacy_Traffic
begin

text \<open>
  The relay engine of \<open>src/core/src/drift/relay.rs\<close>: the decision for every incoming envelope, outgoing
  messages, maintenance, and the cover traffic it emits. The clocks are arguments: \<open>now_s\<close> in seconds
  for expiry and the store, \<open>now_ms\<close> in milliseconds for the hourly budget, \<open>now_ns\<close> for the cover
  scheduler. The reputation manager answers a query with a score, so the engine holds it as a
  function; the audit pipeline is an opaque value of type \<open>'p\<close>.
\<close>

section \<open>Data\<close>

datatype network_state = Active | Dormant

datatype drop_reason = Expired | MaxHopsExceeded | RateLimited | NetworkDormant | LowPriorityDrop | StoreFull

datatype relay_decision =
    DeliverLocal message_id
  | StoreAndRelay message_id
  | Duplicate message_id
  | Dropped message_id drop_reason

datatype relay_error = RelayNetworkDormant | SerializationFailed string | InvalidEnvelope string

record maintenance_report =
  mr_expired_removed :: nat
  mr_store_size :: nat
  mr_evictions :: nat

text \<open>What the engine asks of the reputation manager: the base score and the spam confidence.\<close>

record enhanced_score =
  es_base_score :: real
  es_spam_confidence :: real

definition score_is_abusive :: "enhanced_score \<Rightarrow> bool" where
  "score_is_abusive s \<longleftrightarrow> es_base_score s < 10 \<or> es_spam_confidence s > 8 / 10"

record 'p relay_engine =
  re_state :: network_state
  re_config :: relay_config
  re_store :: mesh_store
  re_local_hint :: bytes
  re_relay_count_this_hour :: u32
  re_hour_start :: u64
  re_cover_scheduler :: "cover_scheduler option"
  re_reputation_manager :: "(string \<Rightarrow> enhanced_score) option"
  re_security_audit_pipeline :: "'p option"

section \<open>Operations\<close>

definition relay_new_with_audit ::
  "(bytes \<Rightarrow> bytes) \<Rightarrow> u64 \<Rightarrow> bytes \<Rightarrow> relay_config \<Rightarrow> 'p option \<Rightarrow> 'p relay_engine" where
  "relay_new_with_audit blake3 now_ms local_public_key config pipeline =
     \<lparr>re_state = Dormant, re_config = config, re_store = mesh_new,
      re_local_hint = hint_from_public_key blake3 local_public_key, re_relay_count_this_hour = 0,
      re_hour_start = now_ms, re_cover_scheduler = None, re_reputation_manager = None,
      re_security_audit_pipeline = pipeline\<rparr>"

definition relay_new :: "(bytes \<Rightarrow> bytes) \<Rightarrow> u64 \<Rightarrow> bytes \<Rightarrow> relay_config \<Rightarrow> 'p relay_engine" where
  "relay_new blake3 now_ms local_public_key config = relay_new_with_audit blake3 now_ms local_public_key config None"

definition set_network_state :: "network_state \<Rightarrow> 'p relay_engine \<Rightarrow> 'p relay_engine" where
  "set_network_state st re = re\<lparr>re_state := st\<rparr>"

definition set_cover_traffic :: "bool \<Rightarrow> u32 \<Rightarrow> 'p relay_engine \<Rightarrow> 'p relay_engine" where
  "set_cover_traffic enabled rate_per_minute re =
     (if enabled then
        let config = \<lparr>cc_rate_per_minute = max rate_per_minute 1, cc_message_size = 512, cc_enabled = True\<rparr>
        in re\<lparr>re_cover_scheduler := (case scheduler_new config of Inl _ \<Rightarrow> None | Inr cs \<Rightarrow> Some cs)\<rparr>
      else re\<lparr>re_cover_scheduler := None\<rparr>)"

definition set_reputation_manager :: "(string \<Rightarrow> enhanced_score) \<Rightarrow> 'p relay_engine \<Rightarrow> 'p relay_engine" where
  "set_reputation_manager manager re = re\<lparr>re_reputation_manager := Some manager\<rparr>"

definition generate_cover_traffic_if_due ::
  "('g \<Rightarrow> nat \<Rightarrow> bytes \<times> 'g) \<Rightarrow> nat \<Rightarrow> 'p relay_engine \<Rightarrow> 'g \<Rightarrow> 'p relay_engine \<times> bytes option \<times> 'g" where
  "generate_cover_traffic_if_due fill_bytes now_ns re g =
     (case re_cover_scheduler re of
        None \<Rightarrow> (re, None, g)
      | Some scheduler \<Rightarrow>
          if \<not> should_generate now_ns scheduler then (re, None, g)
          else (case generate_and_update fill_bytes now_ns scheduler g of
             (scheduler', Inl e, g') \<Rightarrow> (re\<lparr>re_cover_scheduler := Some scheduler'\<rparr>, None, g')
           | (scheduler', Inr msg, g') \<Rightarrow>
               (re\<lparr>re_cover_scheduler := Some scheduler'\<rparr>,
                Some (cm_ephemeral_key msg @ cm_recipient_hint msg @ cm_encrypted_payload msg), g')))"

definition HOUR_MS :: u64 where
  "HOUR_MS = 3600 * 1000"

text \<open>The subtraction wraps: a clock that went back resets the window.\<close>

definition check_rate_limit :: "u64 \<Rightarrow> 'p relay_engine \<Rightarrow> 'p relay_engine" where
  "check_rate_limit now_ms re =
     (if now_ms - re_hour_start re > HOUR_MS then re\<lparr>re_relay_count_this_hour := 0, re_hour_start := now_ms\<rparr>
      else re)"

definition stored_of :: "bytes \<Rightarrow> drift_envelope \<Rightarrow> u64 \<Rightarrow> stored_envelope" where
  "stored_of envelope_data envelope now_s =
     \<lparr>se_envelope_data = envelope_data, se_message_id = de_message_id envelope,
      se_recipient_hint = de_recipient_hint envelope, se_created_at = de_created_at envelope,
      se_ttl_expiry = de_ttl_expiry envelope, se_hop_count = de_hop_count envelope,
      se_priority = de_priority envelope, se_received_at = now_s\<rparr>"

definition reputation_blocks :: "'p relay_engine \<Rightarrow> bool" where
  "reputation_blocks re =
     (case re_reputation_manager re of
        None \<Rightarrow> False
      | Some manager \<Rightarrow>
          let enhanced_score = manager ''unknown''
          in score_is_abusive enhanced_score \<and> es_spam_confidence enhanced_score > 8 / 10)"

text \<open>The last part of \<open>process_incoming\<close>: the envelope is stored for relaying.\<close>

definition store_and_relay ::
  "u64 \<Rightarrow> bytes \<Rightarrow> drift_envelope \<Rightarrow> bool \<Rightarrow> 'p relay_engine \<Rightarrow> 'p relay_engine \<times> relay_decision" where
  "store_and_relay now_s envelope_data envelope is_cover_traffic re =
     (let (store', inserted) = mesh_insert now_s (stored_of envelope_data envelope now_s) (re_store re);
          re1 = re\<lparr>re_store := store'\<rparr>
      in if \<not> inserted then (re1, Duplicate (de_message_id envelope))
         else (if \<not> is_cover_traffic then re1\<lparr>re_relay_count_this_hour := re_relay_count_this_hour re1 + 1\<rparr> else re1,
               StoreAndRelay (de_message_id envelope)))"

definition process_envelope ::
  "u64 \<Rightarrow> u64 \<Rightarrow> bytes \<Rightarrow> drift_envelope \<Rightarrow> 'p relay_engine \<Rightarrow> 'p relay_engine \<times> relay_decision" where
  "process_envelope now_s now_ms envelope_data envelope re =
     (let mid = de_message_id envelope;
          is_cover_traffic = (de_envelope_type envelope = CoverTraffic);
          is_onion = (de_envelope_type envelope = OnionMessage)
      in if reputation_blocks re then (re, Dropped mid RateLimited)
         else if env_is_expired now_s envelope then (re, Dropped mid Expired)
         else if mesh_contains (re_store re) mid then (re, Duplicate mid)
         else if de_recipient_hint envelope = re_local_hint re then
           (if is_onion \<or> \<not> is_cover_traffic then (re, DeliverLocal mid) else (re, Dropped mid Expired))
         else if re_state re = Dormant then (re, Dropped mid NetworkDormant)
         else if de_hop_count envelope \<ge> rc_max_hop_count (re_config re) then (re, Dropped mid MaxHopsExceeded)
         else if de_priority envelope < rc_min_relay_priority (re_config re) then (re, Dropped mid LowPriorityDrop)
         else if is_cover_traffic then store_and_relay now_s envelope_data envelope True re
         else let re1 = check_rate_limit now_ms re
              in if rc_max_relay_per_hour (re_config re1) > 0
                    \<and> re_relay_count_this_hour re1 \<ge> rc_max_relay_per_hour (re_config re1)
                 then (re1, Dropped mid RateLimited)
                 else store_and_relay now_s envelope_data envelope False re1)"

definition process_incoming ::
  "(bytes \<Rightarrow> string + bytes) \<Rightarrow> u64 \<Rightarrow> u64 \<Rightarrow> bytes \<Rightarrow> 'p relay_engine \<Rightarrow>
   'p relay_engine \<times> (drift_error + relay_decision)" where
  "process_incoming lz4_decompress now_s now_ms envelope_data re =
     (case env_from_bytes lz4_decompress envelope_data of
        Inl e \<Rightarrow> (re, Inl e)
      | Inr envelope \<Rightarrow>
          (case process_envelope now_s now_ms envelope_data envelope re of (re', d) \<Rightarrow> (re', Inr d)))"

definition prepare_outgoing ::
  "(bytes \<Rightarrow> bytes) \<Rightarrow> (drift_error \<Rightarrow> string) \<Rightarrow> drift_envelope \<Rightarrow> 'p relay_engine \<Rightarrow> relay_error + bytes" where
  "prepare_outgoing lz4_compress debug_fmt envelope re =
     (if re_state re = Dormant then Inl RelayNetworkDormant
      else case env_to_bytes lz4_compress envelope of
        Inl e \<Rightarrow> Inl (SerializationFailed (''Failed to serialize envelope: '' @ debug_fmt e))
      | Inr bs \<Rightarrow> Inr bs)"

definition messages_for_sync :: "u64 \<Rightarrow> nat \<Rightarrow> 'p relay_engine \<Rightarrow> stored_envelope list" where
  "messages_for_sync now_s max_count re = take max_count (by_priority now_s (re_store re))"

definition relay_messages_for_recipient :: "bytes \<Rightarrow> 'p relay_engine \<Rightarrow> stored_envelope list" where
  "relay_messages_for_recipient hint re = messages_for_recipient hint (re_store re)"

definition maintenance :: "u64 \<Rightarrow> 'p relay_engine \<Rightarrow> 'p relay_engine \<times> maintenance_report" where
  "maintenance now_s re =
     (let (store', expired_removed) = mesh_remove_expired now_s (re_store re)
      in (re\<lparr>re_store := store'\<rparr>,
          \<lparr>mr_expired_removed = expired_removed, mr_store_size = mesh_len store', mr_evictions = 0\<rparr>))"


datatype security_audit_error = NotConfigured string | AuditFailed string | AuditInvalidEnvelope string

definition run_security_audit ::
  "('p \<Rightarrow> string list \<Rightarrow> string + 'o) \<Rightarrow> drift_envelope \<Rightarrow> 'p relay_engine \<Rightarrow> security_audit_error + unit" where
  "run_security_audit execute envelope re =
     (case re_security_audit_pipeline re of
        None \<Rightarrow> Inl (NotConfigured ''Security audit pipeline not configured'')
      | Some pipeline \<Rightarrow>
          (case execute pipeline [''vulnerability_scan'', ''crypto_review'', ''bounds_check'',
                                  ''memory_safety'', ''compliance_check''] of
             Inl e \<Rightarrow> Inl (AuditFailed e)
           | Inr _ \<Rightarrow> Inr ()))"

definition set_security_audit_pipeline :: "'p \<Rightarrow> 'p relay_engine \<Rightarrow> 'p relay_engine" where
  "set_security_audit_pipeline pipeline re = re\<lparr>re_security_audit_pipeline := Some pipeline\<rparr>"

section \<open>The relay decision\<close>

lemma mesh_insert_fresh: "\<not> mesh_contains st (se_message_id e) \<Longrightarrow> snd (mesh_insert now e st)"
  by (simp add: mesh_insert_def mesh_contains_def)

lemma stored_of_id [simp]: "se_message_id (stored_of data e now) = de_message_id e"
  by (simp add: stored_of_def)

lemma store_and_relay_fresh:
  assumes "\<not> mesh_contains (re_store re) (de_message_id e)"
  shows "store_and_relay now data e cover re =
     (re\<lparr>re_store := fst (mesh_insert now (stored_of data e now) (re_store re)),
         re_relay_count_this_hour := re_relay_count_this_hour re + (if cover then 0 else 1)\<rparr>,
      StoreAndRelay (de_message_id e))"
  using mesh_insert_fresh [of "re_store re" "stored_of data e now" now] assms
  by (cases "mesh_insert now (stored_of data e now) (re_store re)") (simp add: store_and_relay_def Let_def)

lemma check_rate_limit_fields [simp]:
  "re_state (check_rate_limit now re) = re_state re" "re_config (check_rate_limit now re) = re_config re"
  "re_store (check_rate_limit now re) = re_store re" "re_local_hint (check_rate_limit now re) = re_local_hint re"
  by (simp_all add: check_rate_limit_def)

text \<open>The conditions under which an envelope is relayed, in the order the engine checks them.\<close>

definition within_budget :: "u64 \<Rightarrow> 'p relay_engine \<Rightarrow> bool" where
  "within_budget now_ms re \<longleftrightarrow>
     rc_max_relay_per_hour (re_config re) = 0
     \<or> re_relay_count_this_hour (check_rate_limit now_ms re) < rc_max_relay_per_hour (re_config re)"

definition relayable :: "u64 \<Rightarrow> u64 \<Rightarrow> drift_envelope \<Rightarrow> 'p relay_engine \<Rightarrow> bool" where
  "relayable now_s now_ms e re \<longleftrightarrow>
     \<not> reputation_blocks re \<and> \<not> env_is_expired now_s e \<and> \<not> mesh_contains (re_store re) (de_message_id e)
     \<and> de_recipient_hint e \<noteq> re_local_hint re \<and> re_state re = Active
     \<and> de_hop_count e < rc_max_hop_count (re_config re) \<and> rc_min_relay_priority (re_config re) \<le> de_priority e
     \<and> (de_envelope_type e = CoverTraffic \<or> within_budget now_ms re)"

definition relayed :: "u64 \<Rightarrow> u64 \<Rightarrow> bytes \<Rightarrow> drift_envelope \<Rightarrow> 'p relay_engine \<Rightarrow> 'p relay_engine" where
  "relayed now_s now_ms data e re =
     (let cover = (de_envelope_type e = CoverTraffic); re1 = (if cover then re else check_rate_limit now_ms re)
      in re1\<lparr>re_store := fst (mesh_insert now_s (stored_of data e now_s) (re_store re)),
             re_relay_count_this_hour := re_relay_count_this_hour re1 + (if cover then 0 else 1)\<rparr>)"

lemma network_state_not_Dormant: "s \<noteq> Dormant \<longleftrightarrow> s = Active"
  by (cases s) simp_all

lemma process_envelope_relayable:
  "relayable now_s now_ms e re \<Longrightarrow>
   process_envelope now_s now_ms data e re = (relayed now_s now_ms data e re, StoreAndRelay (de_message_id e))"
  by (auto simp: relayable_def within_budget_def relayed_def process_envelope_def Let_def store_and_relay_fresh
      not_le word_neq_0_conv)

lemma process_envelope_not_relayable:
  "\<not> relayable now_s now_ms e re \<Longrightarrow> process_envelope now_s now_ms data e re = (re', d) \<Longrightarrow>
   d \<noteq> StoreAndRelay mid \<and> (re' = re \<or> re' = check_rate_limit now_ms re)"
  by (auto simp: relayable_def within_budget_def process_envelope_def Let_def network_state_not_Dormant
      not_le not_less word_neq_0_conv store_and_relay_fresh split: if_splits)

lemma process_incoming_Inr:
  "env_from_bytes lz4_decompress data = Inr e \<Longrightarrow>
   process_incoming lz4_decompress now_s now_ms data re =
     (fst (process_envelope now_s now_ms data e re), Inr (snd (process_envelope now_s now_ms data e re)))"
  by (simp add: process_incoming_def case_prod_unfold)

lemma process_incoming_Inl:
  "env_from_bytes lz4_decompress data = Inl err \<Longrightarrow> process_incoming lz4_decompress now_s now_ms data re = (re, Inl err)"
  by (simp add: process_incoming_def)

text \<open>
  C3. An incoming envelope is relayed exactly when the engine is active, the envelope parses, is not
  expired, not a duplicate and not for this node, is below the hop limit, has the minimum priority and,
  unless it is cover traffic, fits the hourly budget. A relayed envelope is stored with the bytes
  it arrived in, so its hop count leaves as it came, and only non-cover traffic uses the budget. In every other
  case the store is untouched.
\<close>

theorem relay_decision_exact:
  assumes "env_from_bytes lz4_decompress data = Inr e"
  shows "(relayable now_s now_ms e re \<longrightarrow>
            process_incoming lz4_decompress now_s now_ms data re =
              (relayed now_s now_ms data e re, Inr (StoreAndRelay (de_message_id e))))
       \<and> (\<not> relayable now_s now_ms e re \<longrightarrow>
            (\<forall>mid. snd (process_incoming lz4_decompress now_s now_ms data re) \<noteq> Inr (StoreAndRelay mid))
            \<and> re_store (fst (process_incoming lz4_decompress now_s now_ms data re)) = re_store re)"
proof (intro conjI impI allI)
  assume "relayable now_s now_ms e re"
  then show "process_incoming lz4_decompress now_s now_ms data re =
      (relayed now_s now_ms data e re, Inr (StoreAndRelay (de_message_id e)))"
    by (simp add: process_incoming_Inr [OF assms] process_envelope_relayable)
next
  assume no: "\<not> relayable now_s now_ms e re"
  obtain re' d where run: "process_envelope now_s now_ms data e re = (re', d)"
    by (cases "process_envelope now_s now_ms data e re")
  show "snd (process_incoming lz4_decompress now_s now_ms data re) \<noteq> Inr (StoreAndRelay mid)" for mid
    using process_envelope_not_relayable [OF no run, of mid] by (simp add: process_incoming_Inr [OF assms] run)
  show "re_store (fst (process_incoming lz4_decompress now_s now_ms data re)) = re_store re"
    using process_envelope_not_relayable [OF no run, THEN conjunct2] by (auto simp: process_incoming_Inr [OF assms] run)
qed

lemma sample_on_wire: "\<exists>data. env_from_bytes (\<lambda>bs. Inr (rev bs)) data = Inr sample_envelope"
proof -
  have "env_admissible rev (\<lambda>bs. Inr (rev bs)) sample_envelope"
    by (simp add: env_admissible_def wf_envelope_def ratchet_consistent_def sample_envelope_def DRIFT_VERSION_def
        wire_ciphertext_def compress_def MAX_CIPHERTEXT_def)
  then show ?thesis using envelope_codec.dec_enc_ex by blast
qed

definition sample_engine :: "unit relay_engine" where
  "sample_engine = set_network_state Active (relay_new (\<lambda>bs. bs) 0 [9, 9, 9, 9] relay_config_default)"

lemma sample_relayable: "relayable 1500 1500 sample_envelope sample_engine"
  by (simp add: relayable_def within_budget_def sample_engine_def set_network_state_def relay_new_def
      relay_new_with_audit_def reputation_blocks_def env_is_expired_def sample_envelope_def mesh_contains_def
      mesh_new_def hint_from_public_key_def relay_config_default_def check_rate_limit_def HOUR_MS_def)

theorem relay_decision_exact_witness:
  "\<exists>data. snd (process_incoming (\<lambda>bs. Inr (rev bs)) 1500 1500 data sample_engine) = Inr (StoreAndRelay (replicate 16 7))"
proof -
  obtain data where "env_from_bytes (\<lambda>bs. Inr (rev bs)) data = Inr sample_envelope" using sample_on_wire by blast
  from relay_decision_exact [OF this, of 1500 1500 sample_engine] sample_relayable
  have "snd (process_incoming (\<lambda>bs. Inr (rev bs)) 1500 1500 data sample_engine) = Inr (StoreAndRelay (de_message_id sample_envelope))"
    by simp
  then show ?thesis by (auto simp: sample_envelope_def)
qed

text \<open>
  C28. The coupling: a dormant engine neither relays nor sends. No incoming envelope changes it, none is
  accepted for relaying, and preparing an outgoing message fails; as soon as it is active, every
  envelope that fits the wire format can be sent.
\<close>

theorem relay_messaging_coupling:
  "(re_state re = Dormant \<longrightarrow>
      fst (process_incoming lz4_decompress now_s now_ms data re) = re
      \<and> (\<forall>mid. snd (process_incoming lz4_decompress now_s now_ms data re) \<noteq> Inr (StoreAndRelay mid))
      \<and> prepare_outgoing lz4_compress debug_fmt e re = Inl RelayNetworkDormant)
   \<and> (re_state re = Active \<longrightarrow>
      (is_ok (prepare_outgoing lz4_compress debug_fmt e re) \<longleftrightarrow> is_ok (env_to_bytes lz4_compress e)))"
proof (intro conjI impI allI)
  assume dormant: "re_state re = Dormant"
  have inert: "fst (process_envelope now_s now_ms data x re) = re" "snd (process_envelope now_s now_ms data x re) \<noteq> StoreAndRelay mid"
    for x mid using dormant by (auto simp: process_envelope_def Let_def)
  show "fst (process_incoming lz4_decompress now_s now_ms data re) = re"
    by (cases "env_from_bytes lz4_decompress data") (simp_all add: process_incoming_Inl process_incoming_Inr inert)
  show "snd (process_incoming lz4_decompress now_s now_ms data re) \<noteq> Inr (StoreAndRelay mid)" for mid
    by (cases "env_from_bytes lz4_decompress data") (simp_all add: process_incoming_Inl process_incoming_Inr inert)
qed (auto simp: prepare_outgoing_def split: sum.splits)

theorem relay_messaging_coupling_witness:
  "fst (process_incoming (\<lambda>bs. Inr bs) 1 1 [1, 2, 3] (set_network_state Dormant sample_engine)) = set_network_state Dormant sample_engine
   \<and> prepare_outgoing rev (\<lambda>_. []) sample_envelope (set_network_state Dormant sample_engine) = Inl RelayNetworkDormant"
  using relay_messaging_coupling [of "set_network_state Dormant sample_engine" "\<lambda>bs. Inr bs" 1 1 "[1, 2, 3]" rev "\<lambda>_. []" sample_envelope]
  by (simp add: set_network_state_def)

section \<open>The hourly budget\<close>










end
