(* ===== verification/Core_Error.thy ===== *)
theory Core_Error
  imports Main
begin

text \<open>The error type of the core facade, \<open>IronCoreError\<close> of \<open>src/core/src/lib.rs\<close>.\<close>

datatype core_error =
    NotInitialized | AlreadyRunning | StorageError | CryptoError | NetworkError | InvalidInput | Blocked
  | ConsentRequired | Internal | CorruptionDetected

text \<open>How the stores report a failed backend operation and a failed conversion.\<close>

definition storage_res :: "string + 'a \<Rightarrow> core_error + 'a" where
  "storage_res r = (case r of Inl _ \<Rightarrow> Inl StorageError | Inr x \<Rightarrow> Inr x)"

definition json_res :: "string + 'a \<Rightarrow> core_error + 'a" where
  "json_res r = (case r of Inl _ \<Rightarrow> Inl Internal | Inr x \<Rightarrow> Inr x)"

end
