(* ===== verification/Privacy_Onion.thy ===== *)
theory Privacy_Onion
  imports Drift_Prelude Core_Error Complex_Main
begin

text \<open>
  Onion routing: the layered encryption of \<open>src/core/src/privacy/onion.rs\<close>, the choice of relays in
  \<open>src/core/src/privacy/circuit.rs\<close>, and the two entry points of \<open>src/core/src/iron_core.rs\<close> that
  wrap and peel onions. X25519, XChaCha20-Poly1305, BLAKE3 key derivation, bincode and the random choices
  are parameters. Relay selection loops until it has enough hops, so it is a partial function
  whose value is \<open>None\<close> when the loop does not end; \<open>f32\<close> scores are real numbers.
\<close>

section \<open>Layers\<close>

record crypto_suite =
  cr_public :: "bytes \<Rightarrow> bytes"
  cr_dh :: "bytes \<Rightarrow> bytes \<Rightarrow> bytes"
  cr_derive_key :: "string \<Rightarrow> bytes \<Rightarrow> bytes"
  cr_encrypt :: "bytes \<Rightarrow> bytes \<Rightarrow> bytes \<Rightarrow> bytes \<Rightarrow> bytes option"
  cr_decrypt :: "bytes \<Rightarrow> bytes \<Rightarrow> bytes \<Rightarrow> bytes \<Rightarrow> bytes option"

definition MAX_ONION_HOPS :: nat where
  "MAX_ONION_HOPS = 5"

definition X25519_KEY_SIZE :: nat where
  "X25519_KEY_SIZE = 32"

definition XCHACHA_NONCE_SIZE :: nat where
  "XCHACHA_NONCE_SIZE = 24"

datatype onion_error =
    OnionInvalidEnvelope | EncryptionFailed | DecryptionFailed | TooManyHops nat | InvalidRoutingInfo
  | NoLayersRemaining | InvalidHopAddress | OnionIoError string

record onion_layer =
  ol_ephemeral_pk :: bytes
  ol_encrypted_routing_info :: bytes
  ol_encrypted_payload :: bytes

record onion_envelope =
  oe_current_layer :: onion_layer
  oe_remaining_layers :: bytes

definition derive_layer_key :: "crypto_suite \<Rightarrow> bytes \<Rightarrow> bytes" where
  "derive_layer_key C shared_secret = cr_derive_key C ''SCMessenger-onion-layer-key-v1'' shared_secret"

definition derive_nonce :: "crypto_suite \<Rightarrow> bytes \<Rightarrow> u8 \<Rightarrow> bytes" where
  "derive_nonce C shared_secret counter =
     take XCHACHA_NONCE_SIZE (cr_derive_key C ''SCMessenger-onion-layer-nonce-v1'' (shared_secret @ [counter]))"

text \<open>One layer: the routing information and the payload, sealed under two nonces of one shared secret.\<close>

definition seal_layer :: "crypto_suite \<Rightarrow> bytes \<Rightarrow> bytes \<Rightarrow> bytes \<Rightarrow> bytes \<Rightarrow> onion_error + onion_layer" where
  "seal_layer C ephemeral_secret public_key routing_info payload =
     (let shared_secret = cr_dh C ephemeral_secret public_key;
          key = derive_layer_key C shared_secret;
          routing_nonce = derive_nonce C shared_secret 0;
          payload_nonce = derive_nonce C shared_secret 1
      in case cr_encrypt C key routing_nonce routing_info routing_nonce of
           None \<Rightarrow> Inl EncryptionFailed
         | Some encrypted_routing_info \<Rightarrow>
             (case cr_encrypt C key payload_nonce payload payload_nonce of
                None \<Rightarrow> Inl EncryptionFailed
              | Some encrypted_payload \<Rightarrow>
                  Inr \<lparr>ol_ephemeral_pk = cr_public C ephemeral_secret,
                       ol_encrypted_routing_info = encrypted_routing_info,
                       ol_encrypted_payload = encrypted_payload\<rparr>))"

definition layer_res :: "string + 'a \<Rightarrow> onion_error + 'a" where
  "layer_res r = (case r of Inl _ \<Rightarrow> Inl OnionInvalidEnvelope | Inr x \<Rightarrow> Inr x)"

text \<open>The ephemeral secret of the layer for hop \<open>i\<close> is \<open>eph i\<close>.\<close>

fun wrap_layers ::
  "crypto_suite \<Rightarrow> (onion_layer \<Rightarrow> string + bytes) \<Rightarrow> (nat \<Rightarrow> bytes) \<Rightarrow> bytes list \<Rightarrow> nat list \<Rightarrow> bytes \<Rightarrow>
   onion_error + bytes" where
  "wrap_layers C serialize eph path [] remaining_layers = Inr remaining_layers"
| "wrap_layers C serialize eph path (i # is) remaining_layers =
     try_res (seal_layer C (eph i) (path ! i) (path ! (i + 1)) remaining_layers) (\<lambda>current_layer.
     try_res (layer_res (serialize current_layer)) (\<lambda>bs. wrap_layers C serialize eph path is bs))"

definition construct_onion ::
  "crypto_suite \<Rightarrow> (onion_layer \<Rightarrow> string + bytes) \<Rightarrow> (bytes \<Rightarrow> string + onion_layer) \<Rightarrow> (nat \<Rightarrow> bytes) \<Rightarrow>
   bytes list \<Rightarrow> bytes \<Rightarrow> onion_error + onion_envelope" where
  "construct_onion C serialize deserialize eph path payload =
     (if path = [] \<or> length path > MAX_ONION_HOPS then Inl (TooManyHops MAX_ONION_HOPS)
      else
        let last_hop = length path - 1
        in try_res (seal_layer C (eph last_hop) (path ! last_hop) [] payload) (\<lambda>current_layer.
           try_res (layer_res (serialize current_layer)) (\<lambda>remaining_layers.
           try_res (wrap_layers C serialize eph path (rev [0..<last_hop]) remaining_layers) (\<lambda>outermost.
           try_res (layer_res (deserialize outermost)) (\<lambda>outermost_layer.
           Inr \<lparr>oe_current_layer = outermost_layer, oe_remaining_layers = []\<rparr>)))))"

definition peel_layer ::
  "crypto_suite \<Rightarrow> onion_envelope \<Rightarrow> bytes \<Rightarrow> onion_error + (bytes option \<times> bytes)" where
  "peel_layer C envelope relay_secret_key =
     (let layer = oe_current_layer envelope
      in if length (ol_ephemeral_pk layer) \<noteq> X25519_KEY_SIZE then Inl OnionInvalidEnvelope
         else
           let shared_secret = cr_dh C relay_secret_key (ol_ephemeral_pk layer);
               key = derive_layer_key C shared_secret;
               routing_nonce = derive_nonce C shared_secret 0;
               payload_nonce = derive_nonce C shared_secret 1
           in case (if ol_encrypted_routing_info layer = [] then Some []
                    else cr_decrypt C key routing_nonce (ol_encrypted_routing_info layer) routing_nonce) of
                None \<Rightarrow> Inl DecryptionFailed
              | Some routing_info \<Rightarrow>
                  (case cr_decrypt C key payload_nonce (ol_encrypted_payload layer) payload_nonce of
                     None \<Rightarrow> Inl DecryptionFailed
                   | Some payload \<Rightarrow>
                       if routing_info = [] then Inr (None, payload)
                       else if length routing_info \<noteq> X25519_KEY_SIZE then Inl InvalidHopAddress
                       else Inr (Some routing_info, payload)))"

section \<open>The entry points of the core\<close>

text \<open>\<open>hex_decode\<close> decodes the key strings that \<open>serde_json\<close> parsed out of the argument.\<close>

fun decode_path :: "(string \<Rightarrow> string + bytes) \<Rightarrow> string list \<Rightarrow> core_error + bytes list" where
  "decode_path hex_decode [] = Inr []"
| "decode_path hex_decode (h # hs) =
     (case hex_decode h of
        Inl _ \<Rightarrow> Inl InvalidInput
      | Inr bs \<Rightarrow> if length bs \<noteq> 32 then Inl InvalidInput
                 else try_res (decode_path hex_decode hs) (\<lambda>ks. Inr (bs # ks)))"

definition prepare_onion_message ::
  "crypto_suite \<Rightarrow> (onion_layer \<Rightarrow> string + bytes) \<Rightarrow> (bytes \<Rightarrow> string + onion_layer) \<Rightarrow>
   (onion_envelope \<Rightarrow> string + bytes) \<Rightarrow> (string \<Rightarrow> string + string list) \<Rightarrow> (string \<Rightarrow> string + bytes) \<Rightarrow>
   (nat \<Rightarrow> bytes) \<Rightarrow> bytes \<Rightarrow> string \<Rightarrow> core_error + bytes" where
  "prepare_onion_message C ser_layer deser_layer ser_envelope parse_json hex_decode eph envelope_data relay_keys_json =
     (case parse_json relay_keys_json of
        Inl _ \<Rightarrow> Inl InvalidInput
      | Inr relay_keys \<Rightarrow>
          if relay_keys = [] then Inr envelope_data
          else try_res (decode_path hex_decode relay_keys) (\<lambda>path.
            case construct_onion C ser_layer deser_layer eph path envelope_data of
              Inl _ \<Rightarrow> Inl CryptoError
            | Inr envelope \<Rightarrow> (case ser_envelope envelope of Inl _ \<Rightarrow> Inl Internal | Inr bs \<Rightarrow> Inr bs)))"

record peel_result =
  pr_next_hop :: "bytes option"
  pr_remaining_data :: bytes

definition peel_onion_layer ::
  "crypto_suite \<Rightarrow> (bytes \<Rightarrow> string + onion_envelope) \<Rightarrow> (bytes \<Rightarrow> string + bytes) \<Rightarrow> bytes \<Rightarrow> bytes \<Rightarrow>
   core_error + peel_result" where
  "peel_onion_layer C deser_envelope ser_bytes onion_data relay_secret_key =
     (if length relay_secret_key \<noteq> 32 then Inl InvalidInput
      else case deser_envelope onion_data of
        Inl _ \<Rightarrow> Inl InvalidInput
      | Inr envelope \<Rightarrow>
          (case peel_layer C envelope relay_secret_key of
             Inl _ \<Rightarrow> Inl CryptoError
           | Inr (next_hop, remaining) \<Rightarrow>
               Inr \<lparr>pr_next_hop = next_hop,
                    pr_remaining_data = (case ser_bytes remaining of Inl _ \<Rightarrow> remaining | Inr bs \<Rightarrow> bs)\<rparr>))"

section \<open>Circuits\<close>

datatype circuit_error = InsufficientPeers | PeerNotFound | CircuitInvalidConfig | DuplicatePeer

record peer_info =
  pi_peer_id :: string
  pi_public_key :: bytes
  pi_reliability_score :: real
  pi_network_segment :: string

record circuit_path =
  cp_circuit_id :: u64
  cp_hops :: "(string \<times> bytes) list"
  cp_destination :: "peer_info option"

fun hop_keys :: "(string \<times> bytes) list \<Rightarrow> circuit_error + bytes list" where
  "hop_keys [] = Inr []"
| "hop_keys ((_, pk) # hops) =
     (if length pk \<noteq> 32 then Inl CircuitInvalidConfig else try_res (hop_keys hops) (\<lambda>ks. Inr (pk # ks)))"

definition public_keys :: "circuit_path \<Rightarrow> circuit_error + bytes list" where
  "public_keys path =
     try_res (hop_keys (cp_hops path)) (\<lambda>ks.
       case cp_destination path of
         None \<Rightarrow> Inr ks
       | Some dest \<Rightarrow>
           if length (pi_public_key dest) \<noteq> 32 then Inl CircuitInvalidConfig else Inr (ks @ [pi_public_key dest]))"

record circuit_config =
  cf_min_hops :: nat
  cf_max_hops :: nat
  cf_prefer_diverse_paths :: bool
  cf_min_reliability :: real

definition circuit_config_default :: circuit_config where
  "circuit_config_default =
     \<lparr>cf_min_hops = 3, cf_max_hops = 5, cf_prefer_diverse_paths = True, cf_min_reliability = 1 / 2\<rparr>"

definition circuit_validate :: "circuit_config \<Rightarrow> circuit_error + unit" where
  "circuit_validate c =
     (if cf_min_hops c = 0 \<or> cf_max_hops c = 0 then Inl CircuitInvalidConfig
      else if cf_min_hops c > cf_max_hops c then Inl CircuitInvalidConfig
      else if cf_min_reliability c < 0 \<or> cf_min_reliability c > 1 then Inl CircuitInvalidConfig
      else Inr ())"

record circuit_builder =
  cb_peers :: "peer_info list"
  cb_config :: circuit_config

definition circuit_builder_new :: "peer_info list \<Rightarrow> circuit_config \<Rightarrow> circuit_error + circuit_builder" where
  "circuit_builder_new peers config =
     try_res (circuit_validate config) (\<lambda>_. Inr \<lparr>cb_peers = peers, cb_config = config\<rparr>)"

definition eligible_peers :: "circuit_builder \<Rightarrow> peer_info \<Rightarrow> peer_info list" where
  "eligible_peers cb destination =
     filter (\<lambda>p. cf_min_reliability (cb_config cb) \<le> pi_reliability_score p \<and> pi_peer_id p \<noteq> pi_peer_id destination)
       (cb_peers cb)"

definition peers_of :: "(string, peer_info list) hmap \<Rightarrow> string \<Rightarrow> peer_info list" where
  "peers_of by_segment seg = (case hm_get by_segment seg of Some ps \<Rightarrow> ps | None \<Rightarrow> [])"

fun group_by_segment :: "peer_info list \<Rightarrow> (string, peer_info list) hmap \<Rightarrow> (string, peer_info list) hmap" where
  "group_by_segment [] m = m"
| "group_by_segment (p # ps) m =
     group_by_segment ps (hm_insert (pi_network_segment p) (peers_of m (pi_network_segment p) @ [p]) m)"

text \<open>\<open>Iterator::max_by\<close>: of several largest elements the last one.\<close>

fun max_by_reliability :: "peer_info list \<Rightarrow> peer_info option" where
  "max_by_reliability [] = None"
| "max_by_reliability (p # ps) =
     Some (fold (\<lambda>q best. if pi_reliability_score best > pi_reliability_score q then best else q) ps p)"

partial_function (option) diverse_loop ::
  "(string, peer_info list) hmap \<Rightarrow> string list \<Rightarrow> nat \<Rightarrow> (string \<times> bytes) list \<Rightarrow> string list \<Rightarrow> nat \<Rightarrow>
   (circuit_error + (string \<times> bytes) list) option" where
  "diverse_loop by_segment segments num_hops selected used_peers segment_idx =
     (if length selected < num_hops then
        if segments = [] then Some (Inl InsufficientPeers)
        else case max_by_reliability (filter (\<lambda>p. pi_peer_id p \<notin> set used_peers)
                    (peers_of by_segment (segments ! (segment_idx mod length segments)))) of
               Some peer \<Rightarrow>
                 diverse_loop by_segment segments num_hops (selected @ [(pi_peer_id peer, pi_public_key peer)])
                   (pi_peer_id peer # used_peers) (segment_idx + 1)
             | None \<Rightarrow> diverse_loop by_segment segments num_hops selected used_peers (segment_idx + 1)
      else Some (Inr selected))"

text \<open>\<open>key_order\<close> is the order in which the hash map lists its keys.\<close>

definition select_diverse_hops ::
  "(string list \<Rightarrow> string list) \<Rightarrow> circuit_builder \<Rightarrow> nat \<Rightarrow> peer_info \<Rightarrow>
   (circuit_error + (string \<times> bytes) list) option" where
  "select_diverse_hops key_order cb num_hops destination =
     (let eligible = eligible_peers cb destination
      in if length eligible < num_hops then Some (Inl InsufficientPeers)
         else let by_segment = group_by_segment eligible []
              in diverse_loop by_segment (key_order (map fst by_segment)) num_hops [] [pi_peer_id destination] 0)"

definition select_random_hops ::
  "(peer_info list \<Rightarrow> nat \<Rightarrow> peer_info list) \<Rightarrow> circuit_builder \<Rightarrow> nat \<Rightarrow> peer_info \<Rightarrow>
   circuit_error + (string \<times> bytes) list" where
  "select_random_hops choose_multiple cb num_hops destination =
     (let eligible = eligible_peers cb destination
      in if length eligible < num_hops then Inl InsufficientPeers
         else Inr (map (\<lambda>p. (pi_peer_id p, pi_public_key p)) (choose_multiple eligible num_hops)))"

definition build_circuit ::
  "(nat \<Rightarrow> nat \<Rightarrow> nat) \<Rightarrow> (string list \<Rightarrow> string list) \<Rightarrow> (peer_info list \<Rightarrow> nat \<Rightarrow> peer_info list) \<Rightarrow> u64 \<Rightarrow>
   circuit_builder \<Rightarrow> peer_info \<Rightarrow> (circuit_error + circuit_path) option" where
  "build_circuit gen_range key_order choose_multiple random_id cb destination =
     (let num_hops = gen_range (cf_min_hops (cb_config cb)) (cf_max_hops (cb_config cb))
      in if num_hops > length (cb_peers cb) then Some (Inl InsufficientPeers)
         else case (if cf_prefer_diverse_paths (cb_config cb)
                    then select_diverse_hops key_order cb num_hops destination
                    else Some (select_random_hops choose_multiple cb num_hops destination)) of
                None \<Rightarrow> None
              | Some (Inl e) \<Rightarrow> Some (Inl e)
              | Some (Inr selected_hops) \<Rightarrow>
                  Some (Inr \<lparr>cp_circuit_id = random_id, cp_hops = selected_hops, cp_destination = Some destination\<rparr>))"

fun update_first :: "string \<Rightarrow> real \<Rightarrow> peer_info list \<Rightarrow> peer_info list option" where
  "update_first peer_id score [] = None"
| "update_first peer_id score (p # ps) =
     (if pi_peer_id p = peer_id then Some (p\<lparr>pi_reliability_score := max 0 (min 1 score)\<rparr> # ps)
      else map_option (Cons p) (update_first peer_id score ps))"

definition update_peer_reliability ::
  "string \<Rightarrow> real \<Rightarrow> circuit_builder \<Rightarrow> circuit_builder \<times> (circuit_error + unit)" where
  "update_peer_reliability peer_id score cb =
     (case update_first peer_id score (cb_peers cb) of
        None \<Rightarrow> (cb, Inl PeerNotFound)
      | Some ps \<Rightarrow> (cb\<lparr>cb_peers := ps\<rparr>, Inr ()))"

section \<open>Peeling what was wrapped\<close>

text \<open>
  What the protocol relies on: key agreement is symmetric, public keys have 32 bytes, the cipher accepts
  every message, adds a tag, and decrypts what it encrypted; and a layer survives serialisation.
\<close>

definition sound_suite :: "crypto_suite \<Rightarrow> bool" where
  "sound_suite C \<longleftrightarrow>
     (\<forall>a b. cr_dh C a (cr_public C b) = cr_dh C b (cr_public C a)) \<and> (\<forall>a. length (cr_public C a) = 32) \<and>
     (\<forall>k n m a. \<exists>c. cr_encrypt C k n m a = Some c \<and> c \<noteq> [] \<and> cr_decrypt C k n c a = Some m)"

definition lossless_layers :: "(onion_layer \<Rightarrow> string + bytes) \<Rightarrow> (bytes \<Rightarrow> string + onion_layer) \<Rightarrow> bool" where
  "lossless_layers serialize deserialize \<longleftrightarrow> (\<forall>l. \<exists>bs. serialize l = Inr bs \<and> deserialize bs = Inr l)"

abbreviation as_envelope :: "onion_layer \<Rightarrow> onion_envelope" where
  "as_envelope l \<equiv> \<lparr>oe_current_layer = l, oe_remaining_layers = []\<rparr>"

lemma peel_sealed:
  assumes "sound_suite C" and "routing = [] \<or> length routing = 32"
  obtains l where "seal_layer C eph (cr_public C sk) routing payload = Inr l"
    and "peel_layer C (as_envelope l) sk = Inr (if routing = [] then None else Some routing, payload)"
proof -
  let ?s = "cr_dh C eph (cr_public C sk)"
  have sym: "cr_dh C sk (cr_public C eph) = ?s" and len: "length (cr_public C eph) = 32"
    using assms(1) unfolding sound_suite_def by blast+
  obtain r where r: "cr_encrypt C (derive_layer_key C ?s) (derive_nonce C ?s 0) routing (derive_nonce C ?s 0) = Some r" "r \<noteq> []"
    "cr_decrypt C (derive_layer_key C ?s) (derive_nonce C ?s 0) r (derive_nonce C ?s 0) = Some routing"
    using assms(1) unfolding sound_suite_def by blast
  obtain p where p: "cr_encrypt C (derive_layer_key C ?s) (derive_nonce C ?s 1) payload (derive_nonce C ?s 1) = Some p"
    "cr_decrypt C (derive_layer_key C ?s) (derive_nonce C ?s 1) p (derive_nonce C ?s 1) = Some payload"
    using assms(1) unfolding sound_suite_def by blast
  show thesis
    using that [of "\<lparr>ol_ephemeral_pk = cr_public C eph, ol_encrypted_routing_info = r, ol_encrypted_payload = p\<rparr>"]
      assms(2) r p sym len
    by (auto simp: seal_layer_def peel_layer_def Let_def X25519_KEY_SIZE_def)
qed

text \<open>
  An onion on its way: each node of the list peels a layer with its secret key and hands the remaining
  layers to the next one. The result lists the next hops the nodes learn, and the final payload.
\<close>

fun onion_walk ::
  "crypto_suite \<Rightarrow> (bytes \<Rightarrow> string + onion_layer) \<Rightarrow> bytes list \<Rightarrow> onion_envelope \<Rightarrow> onion_error + (bytes list \<times> bytes)" where
  "onion_walk C deserialize [] envelope = Inl NoLayersRemaining"
| "onion_walk C deserialize (sk # sks) envelope =
     try_res (peel_layer C envelope sk) (\<lambda>(next_hop, rest).
       case next_hop of
         None \<Rightarrow> Inr ([], rest)
       | Some hop \<Rightarrow>
           try_res (layer_res (deserialize rest)) (\<lambda>l.
           try_res (onion_walk C deserialize sks (as_envelope l)) (\<lambda>(hops, payload). Inr (hop # hops, payload))))"

definition walks :: "crypto_suite \<Rightarrow> (bytes \<Rightarrow> string + onion_layer) \<Rightarrow> bytes list \<Rightarrow> bytes \<Rightarrow> bytes \<Rightarrow> bool" where
  "walks C deserialize sks payload bs \<longleftrightarrow>
     (\<exists>l. deserialize bs = Inr l \<and>
          onion_walk C deserialize sks (as_envelope l) = Inr (map (cr_public C) (tl sks), payload))"

lemma walks_wrap:
  assumes sound: "sound_suite C" and lossless: "lossless_layers serialize deserialize"
    and path: "path = map (cr_public C) sks" and k: "k < length sks"
    and bs: "walks C deserialize (drop k sks) payload bs"
  shows "\<exists>outer. wrap_layers C serialize eph path (rev [0..<k]) bs = Inr outer \<and> walks C deserialize sks payload outer"
  using k bs
proof (induction k arbitrary: bs)
  case 0
  then show ?case by simp
next
  case (Suc k)
  have len: "length (cr_public C x) = 32" for x using sound by (simp add: sound_suite_def)
  then have ne: "cr_public C x \<noteq> []" for x by (metis list.size(3) zero_neq_numeral)
  have pk: "path ! k = cr_public C (sks ! k)" "path ! (k + 1) = cr_public C (sks ! Suc k)"
    using Suc.prems(1) by (simp_all add: path)
  obtain l where l: "seal_layer C (eph k) (path ! k) (path ! (k + 1)) bs = Inr l"
    "peel_layer C (as_envelope l) (sks ! k) = Inr (Some (path ! (k + 1)), bs)"
  proof -
    have "cr_public C (sks ! Suc k) = [] \<or> length (cr_public C (sks ! Suc k)) = 32" by (simp add: len)
    then obtain l where "seal_layer C (eph k) (cr_public C (sks ! k)) (cr_public C (sks ! Suc k)) bs = Inr l"
      "peel_layer C (as_envelope l) (sks ! k)
        = Inr (if cr_public C (sks ! Suc k) = [] then None else Some (cr_public C (sks ! Suc k)), bs)"
      by (rule peel_sealed [OF sound])
    then show thesis using that unfolding pk by (simp only: ne if_False)
  qed
  obtain bs' where bs': "serialize l = Inr bs'" "deserialize bs' = Inr l"
    using lossless by (auto simp: lossless_layers_def)
  obtain l0 where l0: "deserialize bs = Inr l0"
    "onion_walk C deserialize (drop (Suc k) sks) (as_envelope l0) = Inr (map (cr_public C) (tl (drop (Suc k) sks)), payload)"
    using Suc.prems(2) unfolding walks_def by blast
  have drop: "drop k sks = sks ! k # drop (Suc k) sks" "drop (Suc k) sks = sks ! Suc k # tl (drop (Suc k) sks)"
    using Suc.prems(1) by (metis Cons_nth_drop_Suc Suc_lessD list.sel(3))+
  have "onion_walk C deserialize (sks ! k # drop (Suc k) sks) (as_envelope l)
      = Inr (cr_public C (sks ! Suc k) # map (cr_public C) (tl (drop (Suc k) sks)), payload)"
    by (simp only: onion_walk.simps l(2) l0 try_res_simps layer_res_def sum.case option.case prod.case pk)
  also have "cr_public C (sks ! Suc k) # map (cr_public C) (tl (drop (Suc k) sks)) = map (cr_public C) (drop (Suc k) sks)"
    by (metis drop(2) list.simps(9))
  finally have "walks C deserialize (drop k sks) payload bs'"
    unfolding walks_def drop(1) using bs'(2) by simp
  then obtain outer where "wrap_layers C serialize eph path (rev [0..<k]) bs' = Inr outer" "walks C deserialize sks payload outer"
    using Suc.IH [of bs'] Suc.prems(1) by auto
  then show ?case using l(1) bs'(1) by (simp add: layer_res_def)
qed

text \<open>
  C6. Onion routing delivers. For a path of one to five nodes, constructing the onion succeeds, and
  passing it along the path, each node peeling with its own key, gives every relay on the way the key of
  the hop after it, in the order of the path, and the last node the payload. This is a statement about delivery; what an onion
  hides from a relay rests on the cipher, which is a parameter here, and is not claimed.
\<close>

theorem onion_delivers:
  assumes sound: "sound_suite C" and lossless: "lossless_layers serialize deserialize"
    and "sks \<noteq> []" and "length sks \<le> 5"
  shows "\<exists>envelope. construct_onion C serialize deserialize eph (map (cr_public C) sks) payload = Inr envelope
           \<and> onion_walk C deserialize sks envelope = Inr (map (cr_public C) (tl sks), payload)"
proof -
  let ?path = "map (cr_public C) sks" and ?n = "length sks - 1"
  have n: "?n < length sks" using assms(3) by (cases sks) simp_all
  obtain l where l: "seal_layer C (eph ?n) (?path ! ?n) [] payload = Inr l"
    "peel_layer C (as_envelope l) (sks ! ?n) = Inr (None, payload)"
    using peel_sealed [OF sound, of "[]" "eph ?n" "sks ! ?n" payload] n by auto
  obtain bs where bs: "serialize l = Inr bs" "deserialize bs = Inr l"
    using lossless by (auto simp: lossless_layers_def)
  have "drop ?n sks = [sks ! ?n]" using n by (simp add: Cons_nth_drop_Suc [symmetric])
  then have "walks C deserialize (drop ?n sks) payload bs" using l(2) bs(2) by (simp add: walks_def)
  then obtain outer where outer: "wrap_layers C serialize eph ?path (rev [0..<?n]) bs = Inr outer"
    and "walks C deserialize sks payload outer"
    using walks_wrap [OF sound lossless refl n] by blast
  then obtain l' where "deserialize outer = Inr l'"
    "onion_walk C deserialize sks (as_envelope l') = Inr (map (cr_public C) (tl sks), payload)"
    by (auto simp: walks_def)
  then show ?thesis
    using assms(3,4) l(1) bs(1) outer by (simp add: construct_onion_def MAX_ONION_HOPS_def layer_res_def)
qed


text \<open>A suite for concrete inputs: the identity cipher with a tag byte.\<close>

definition toy_suite :: crypto_suite where
  "toy_suite =
     \<lparr>cr_public = (\<lambda>sk. replicate 32 (case sk of [] \<Rightarrow> 0 | b # _ \<Rightarrow> b)), cr_dh = (\<lambda>a b. []),
      cr_derive_key = (\<lambda>ctx s. replicate 32 0), cr_encrypt = (\<lambda>k n m a. Some (7 # m)),
      cr_decrypt = (\<lambda>k n c a. case c of [] \<Rightarrow> None | _ # m \<Rightarrow> Some m)\<rparr>"

lemma sound_toy_suite: "sound_suite toy_suite"
  by (simp add: sound_suite_def toy_suite_def)

text \<open>A lossless layer format for concrete inputs: unary lengths.\<close>

definition toy_ser :: "onion_layer \<Rightarrow> string + bytes" where
  "toy_ser l = Inr (replicate (length (ol_ephemeral_pk l)) 1 @ [0] @ replicate (length (ol_encrypted_routing_info l)) 1 @ [0]
     @ ol_ephemeral_pk l @ ol_encrypted_routing_info l @ ol_encrypted_payload l)"

definition toy_deser :: "bytes \<Rightarrow> string + onion_layer" where
  "toy_deser bs =
     (let n = length (takeWhile (\<lambda>b. b = 1) bs); bs1 = drop (Suc n) bs;
          m = length (takeWhile (\<lambda>b. b = 1) bs1); bs2 = drop (Suc m) bs1
      in Inr \<lparr>ol_ephemeral_pk = take n bs2, ol_encrypted_routing_info = take m (drop n bs2),
              ol_encrypted_payload = drop (n + m) bs2\<rparr>)"

lemma lossless_toy: "lossless_layers toy_ser toy_deser"
proof -
  have "takeWhile (\<lambda>b. b = 1) (replicate k 1 @ 0 # xs) = replicate k (1 :: u8)" for k xs
    by (induction k) simp_all
  then show ?thesis by (simp add: lossless_layers_def toy_ser_def toy_deser_def Let_def)
qed

theorem onion_delivers_witness:
  "\<exists>envelope. construct_onion toy_suite toy_ser toy_deser (\<lambda>i. [word_of_nat i]) (map (cr_public toy_suite) [[1], [2], [3]]) [42] = Inr envelope
     \<and> onion_walk toy_suite toy_deser [[1], [2], [3]] envelope = Inr ([replicate 32 2, replicate 32 3], [42])"
  using onion_delivers [OF sound_toy_suite lossless_toy, of "[[1], [2], [3]]" "\<lambda>i. [word_of_nat i]" "[42]"]
  by (simp add: toy_suite_def)

section \<open>Forwarding through the core\<close>

definition u64_to_le :: "nat \<Rightarrow> bytes" where
  "u64_to_le n = nat_to_le 8 n"

text \<open>
  The documented format of bincode for byte vectors, a length in eight bytes followed by the bytes, and for
  the envelope, its four byte vectors in a row: decoding succeeds only on such a string.
\<close>

definition vec_bytes :: "bytes \<Rightarrow> bytes" where
  "vec_bytes xs = u64_to_le (length xs) @ xs"

definition bincode_vectors :: "(bytes \<Rightarrow> string + bytes) \<Rightarrow> (bytes \<Rightarrow> string + onion_envelope) \<Rightarrow> bool" where
  "bincode_vectors ser_bytes deser_envelope \<longleftrightarrow>
     (\<forall>xs. ser_bytes xs = Inr (vec_bytes xs)) \<and>
     (\<forall>data e. deser_envelope data = Inr e \<longrightarrow>
        (\<exists>trailing. data = vec_bytes (ol_ephemeral_pk (oe_current_layer e))
            @ vec_bytes (ol_encrypted_routing_info (oe_current_layer e))
            @ vec_bytes (ol_encrypted_payload (oe_current_layer e)) @ vec_bytes (oe_remaining_layers e) @ trailing)
        \<and> length (ol_ephemeral_pk (oe_current_layer e)) < 2 ^ 64)"

lemma vec_bytes_prefix:
  assumes "vec_bytes xs = vec_bytes ys @ rest" and "length xs < 2 ^ 64" and "length ys < 2 ^ 64"
  shows "rest = []"
proof -
  have eqs: "nat_to_le 8 (length xs) = nat_to_le 8 (length ys)" "xs = ys @ rest"
    using assms(1) unfolding vec_bytes_def u64_to_le_def by auto
  have "length xs mod 256 ^ 8 = length ys mod 256 ^ 8"
    using arg_cong [OF eqs(1), of nat_of_le] by (simp only: nat_of_le_to_le)
  then have "length xs = length ys" using assms(2,3) by simp
  then show ?thesis using eqs(2) by simp
qed

text \<open>
  C23. An onion cannot be forwarded through the core: what \<open>peel_onion_layer\<close> returns to a relay as
  the remaining data is rejected by \<open>peel_onion_layer\<close> of the next hop, whatever the keys, because
  the remaining layers are serialised once more as a byte vector and not as an envelope.
\<close>

theorem peeled_onion_rejected:
  assumes format: "bincode_vectors ser_bytes deser_envelope"
    and peeled: "peel_onion_layer C deser_envelope ser_bytes onion_data sk = Inr result"
    and small: "length (pr_remaining_data result) < 2 ^ 64"
  shows "peel_onion_layer C deser_envelope ser_bytes (pr_remaining_data result) sk' = Inl InvalidInput"
proof -
  obtain xs where xs: "pr_remaining_data result = vec_bytes xs"
    using format peeled by (auto simp: peel_onion_layer_def bincode_vectors_def split: if_splits sum.splits prod.splits)
  have False if env: "deser_envelope (vec_bytes xs) = Inr e" for e
  proof -
    let ?pk = "ol_ephemeral_pk (oe_current_layer e)"
    from format env have pk: "length ?pk < 2 ^ 64" unfolding bincode_vectors_def by blast
    obtain rest where
      "vec_bytes xs = vec_bytes ?pk @ vec_bytes (ol_encrypted_routing_info (oe_current_layer e)) @ rest"
      using format env unfolding bincode_vectors_def by blast
    then have "vec_bytes (ol_encrypted_routing_info (oe_current_layer e)) @ rest = []"
      by (rule vec_bytes_prefix) (use small pk in \<open>simp_all add: xs vec_bytes_def\<close>)
    then show False by (simp add: vec_bytes_def u64_to_le_def flip: length_0_conv)
  qed
  then have "\<exists>err. deser_envelope (vec_bytes xs) = Inl err" by (cases "deser_envelope (vec_bytes xs)") blast+
  then show ?thesis by (auto simp: peel_onion_layer_def xs)
qed

text \<open>A decoder of the documented format for concrete inputs.\<close>

definition dec_vec :: "bytes \<Rightarrow> (bytes \<times> bytes) option" where
  "dec_vec bs =
     (let n = nat_of_le (take 8 bs); rest = drop 8 bs
      in if length bs < 8 \<or> length rest < n then None else Some (take n rest, drop n rest))"

definition dec_envelope :: "bytes \<Rightarrow> string + onion_envelope" where
  "dec_envelope bs =
     (case dec_vec bs of None \<Rightarrow> Inl ''short'' | Some (pk, bs1) \<Rightarrow>
      (case dec_vec bs1 of None \<Rightarrow> Inl ''short'' | Some (routing, bs2) \<Rightarrow>
       (case dec_vec bs2 of None \<Rightarrow> Inl ''short'' | Some (payload, bs3) \<Rightarrow>
        (case dec_vec bs3 of None \<Rightarrow> Inl ''short'' | Some (remaining, _) \<Rightarrow>
           Inr \<lparr>oe_current_layer = \<lparr>ol_ephemeral_pk = pk, ol_encrypted_routing_info = routing, ol_encrypted_payload = payload\<rparr>,
                oe_remaining_layers = remaining\<rparr>))))"

lemma dec_vec_vec_bytes: "length v < 2 ^ 64 \<Longrightarrow> dec_vec (vec_bytes v @ rest) = Some (v, rest)"
  by (simp add: dec_vec_def vec_bytes_def u64_to_le_def nat_of_le_to_le)

lemma dec_vec_SomeD:
  assumes "dec_vec bs = Some (v, rest)"
  shows "bs = vec_bytes v @ rest \<and> length v < 2 ^ 64"
proof -
  define n where "n = nat_of_le (take 8 bs)"
  have eqs: "8 \<le> length bs" "n \<le> length (drop 8 bs)" "v = take n (drop 8 bs)" "rest = drop n (drop 8 bs)"
    using assms unfolding dec_vec_def Let_def n_def [symmetric] by (auto split: if_splits)
  have len: "length v = n" using eqs(2,3) by simp
  have "length (take 8 bs) = 8" using eqs(1) by simp
  then have "nat_to_le 8 n = take 8 bs" "n < 256 ^ 8"
    unfolding n_def using nat_to_le_of_le [of "take 8 bs" 8] nat_of_le_bound [of "take 8 bs"] by auto
  moreover have "bs = take 8 bs @ v @ rest" unfolding eqs by (simp only: append_take_drop_id)
  ultimately show ?thesis unfolding vec_bytes_def u64_to_le_def len by simp
qed

lemma bincode_vectors_dec: "bincode_vectors (\<lambda>xs. Inr (vec_bytes xs)) dec_envelope"
proof -
  have "(\<exists>trailing. data = vec_bytes (ol_ephemeral_pk (oe_current_layer e))
            @ vec_bytes (ol_encrypted_routing_info (oe_current_layer e))
            @ vec_bytes (ol_encrypted_payload (oe_current_layer e)) @ vec_bytes (oe_remaining_layers e) @ trailing)
        \<and> length (ol_ephemeral_pk (oe_current_layer e)) < 2 ^ 64" if "dec_envelope data = Inr e" for data e
    using that unfolding dec_envelope_def
    by (auto split: option.splits prod.splits dest!: dec_vec_SomeD)
  then show ?thesis unfolding bincode_vectors_def by blast
qed

definition sample_onion :: bytes where
  "sample_onion = vec_bytes (replicate 32 0) @ vec_bytes (7 # replicate 32 9) @ vec_bytes [7, 42] @ vec_bytes []"

lemma peel_sample_onion:
  "peel_onion_layer toy_suite dec_envelope (\<lambda>xs. Inr (vec_bytes xs)) sample_onion (replicate 32 0)
     = Inr \<lparr>pr_next_hop = Some (replicate 32 9), pr_remaining_data = vec_bytes [42]\<rparr>"
proof -
  have "dec_envelope sample_onion =
      Inr \<lparr>oe_current_layer = \<lparr>ol_ephemeral_pk = replicate 32 0, ol_encrypted_routing_info = 7 # replicate 32 9,
                              ol_encrypted_payload = [7, 42]\<rparr>, oe_remaining_layers = []\<rparr>"
    using dec_vec_vec_bytes [of "[]" "[]"] by (simp add: dec_envelope_def sample_onion_def dec_vec_vec_bytes)
  then show ?thesis
    by (simp add: peel_onion_layer_def peel_layer_def toy_suite_def X25519_KEY_SIZE_def)
qed

theorem peeled_onion_rejected_witness:
  "\<exists>result. peel_onion_layer toy_suite dec_envelope (\<lambda>xs. Inr (vec_bytes xs)) sample_onion (replicate 32 0) = Inr result
     \<and> pr_next_hop result = Some (replicate 32 9)
     \<and> peel_onion_layer toy_suite dec_envelope (\<lambda>xs. Inr (vec_bytes xs)) (pr_remaining_data result) (replicate 32 9) = Inl InvalidInput"
  using peeled_onion_rejected [OF bincode_vectors_dec peel_sample_onion, of "replicate 32 9"] peel_sample_onion
  by (simp add: vec_bytes_def u64_to_le_def)

section \<open>Choosing relays\<close>

lemma max_by_reliability_fold:
  "fold (\<lambda>q best. if pi_reliability_score best > pi_reliability_score q then best else q) ps p \<in> set (p # ps)"
  by (induction ps arbitrary: p) (auto split: if_splits)

lemma max_by_reliability_SomeD: "max_by_reliability ps = Some p \<Longrightarrow> p \<in> set ps"
  using max_by_reliability_fold by (cases ps) auto

lemma max_by_reliability_None [simp]: "max_by_reliability ps = None \<longleftrightarrow> ps = []"
  by (cases ps) auto

lemma peers_of_insert: "peers_of (hm_insert k v m) s = (if s = k then v else peers_of m s)"
  by (simp add: peers_of_def)

lemma peers_of_group:
  "peers_of (group_by_segment ps m) s = peers_of m s @ filter (\<lambda>p. pi_network_segment p = s) ps"
  by (induction ps arbitrary: m) (auto simp: peers_of_insert)


lemma hm_insert_keys: "fst ` set (hm_insert k v m) = insert k (fst ` set m)"
  using dom_update [of k v m] by (simp add: dom_map_of_conv_image_fst)

lemma keys_group: "fst ` set (group_by_segment ps m) = fst ` set m \<union> pi_network_segment ` set ps"
  by (induction ps arbitrary: m) (auto simp: hm_insert_keys)

text \<open>The loop's view of the peers: the segments hold eligible peers only, and between them all of them.\<close>

definition covers :: "(string, peer_info list) hmap \<Rightarrow> string list \<Rightarrow> peer_info list \<Rightarrow> bool" where
  "covers by_segment segments eligible \<longleftrightarrow>
     (\<forall>s. set (peers_of by_segment s) \<subseteq> set eligible) \<and>
     (\<forall>p \<in> set eligible. \<exists>j < length segments. p \<in> set (peers_of by_segment (segments ! j)))"

definition candidate :: "(string, peer_info list) hmap \<Rightarrow> string list \<Rightarrow> string list \<Rightarrow> nat \<Rightarrow> peer_info option" where
  "candidate by_segment segments used_peers segment_idx =
     max_by_reliability (filter (\<lambda>p. pi_peer_id p \<notin> set used_peers)
       (peers_of by_segment (segments ! (segment_idx mod length segments))))"

abbreviation hop_of :: "peer_info \<Rightarrow> string \<times> bytes" where
  "hop_of p \<equiv> (pi_peer_id p, pi_public_key p)"

definition loop_inv :: "peer_info list \<Rightarrow> string \<Rightarrow> (string \<times> bytes) list \<Rightarrow> string list \<Rightarrow> bool" where
  "loop_inv eligible dest selected used_peers \<longleftrightarrow>
     set used_peers = insert dest (fst ` set selected) \<and> distinct (map fst selected) \<and>
     set selected \<subseteq> hop_of ` set eligible"

lemma diverse_loop_unfold:
  assumes "length selected < num_hops" and "segments \<noteq> []"
  shows "diverse_loop by_segment segments num_hops selected used_peers i =
    (case candidate by_segment segments used_peers i of
       Some p \<Rightarrow> diverse_loop by_segment segments num_hops (selected @ [hop_of p]) (pi_peer_id p # used_peers) (i + 1)
     | None \<Rightarrow> diverse_loop by_segment segments num_hops selected used_peers (i + 1))"
  using assms by (subst diverse_loop.simps) (simp add: candidate_def)

lemma candidate_SomeD:
  assumes "candidate by_segment segments used_peers i = Some p" and "covers by_segment segments eligible"
  shows "p \<in> set eligible" and "pi_peer_id p \<notin> set used_peers"
  using max_by_reliability_SomeD [OF assms(1) [unfolded candidate_def]] assms(2)
  by (auto simp: covers_def)

lemma loop_inv_step:
  assumes "loop_inv eligible dest selected used_peers" and "covers by_segment segments eligible"
    and "candidate by_segment segments used_peers i = Some p"
  shows "loop_inv eligible dest (selected @ [hop_of p]) (pi_peer_id p # used_peers)"
  using assms(1) candidate_SomeD [OF assms(3,2)] by (auto simp: loop_inv_def)

lemma loop_inv_card:
  assumes "loop_inv eligible dest selected used_peers"
  shows "card (fst ` set selected) = length selected" and "length selected \<le> card (pi_peer_id ` set eligible)"
proof -
  show len: "card (fst ` set selected) = length selected"
    using assms distinct_card [of "map fst selected"] by (simp add: loop_inv_def)
  have "fst ` set selected \<subseteq> pi_peer_id ` set eligible" using assms by (auto simp: loop_inv_def)
  from card_mono [OF _ this] len show "length selected \<le> card (pi_peer_id ` set eligible)" by simp
qed

text \<open>Going round the segments, the loop meets every unused peer.\<close>

lemma candidate_ahead:
  assumes "covers by_segment segments eligible" and "p \<in> set eligible" and "pi_peer_id p \<notin> set used_peers"
  shows "\<exists>d. candidate by_segment segments used_peers (i + d) \<noteq> None"
proof -
  obtain j where j: "j < length segments" "p \<in> set (peers_of by_segment (segments ! j))"
    using assms(1,2) by (auto simp: covers_def)
  have "i \<le> length segments * i" using j(1) by (cases "length segments") simp_all
  then have "i + (j + length segments * i - i) = j + length segments * i" by linarith
  then have "(i + (j + length segments * i - i)) mod length segments = j" using j(1) by (simp only: mod_mult_self2 mod_less)
  then have "candidate by_segment segments used_peers (i + (j + length segments * i - i)) \<noteq> None"
    using j(2) assms(3) by (auto simp: candidate_def filter_empty_conv)
  then show ?thesis by blast
qed

lemma diverse_loop_next:
  assumes "candidate by_segment segments used_peers (i + d) \<noteq> None" and "length selected < num_hops" and "segments \<noteq> []"
  shows "\<exists>j p. candidate by_segment segments used_peers j = Some p \<and>
    diverse_loop by_segment segments num_hops selected used_peers i
      = diverse_loop by_segment segments num_hops (selected @ [hop_of p]) (pi_peer_id p # used_peers) (j + 1)"
  using assms(1)
proof (induction d arbitrary: i)
  case 0
  then obtain p where p: "candidate by_segment segments used_peers i = Some p" by auto
  show ?case
    by (rule exI [of _ i], rule exI [of _ p], subst diverse_loop_unfold [OF assms(2,3)]) (simp add: p)
next
  case (Suc d)
  show ?case
  proof (cases "candidate by_segment segments used_peers i")
    case None
    have eq: "diverse_loop by_segment segments num_hops selected used_peers i
      = diverse_loop by_segment segments num_hops selected used_peers (i + 1)"
      by (subst diverse_loop_unfold [OF assms(2,3)]) (simp add: None)
    have "candidate by_segment segments used_peers ((i + 1) + d) \<noteq> None" using Suc.prems by simp
    then show ?thesis by (subst eq) (rule Suc.IH)
  next
    case (Some p)
    show ?thesis
      by (rule exI [of _ i], rule exI [of _ p], subst diverse_loop_unfold [OF assms(2,3)]) (simp add: Some)
  qed
qed

lemma diverse_loop_fills:
  assumes "covers by_segment segments eligible" and "dest \<notin> pi_peer_id ` set eligible"
    and "num_hops \<le> card (pi_peer_id ` set eligible)"
    and "loop_inv eligible dest selected used_peers" and "length selected \<le> num_hops"
  shows "\<exists>hops used. diverse_loop by_segment segments num_hops selected used_peers i = Some (Inr hops)
     \<and> length hops = num_hops \<and> loop_inv eligible dest hops used"
  using assms(4,5)
proof (induction "num_hops - length selected" arbitrary: selected used_peers i)
  case 0
  then have "length selected = num_hops" by simp
  then show ?case using 0(2) by (subst diverse_loop.simps) auto
next
  case (Suc n)
  then have less: "length selected < num_hops" by simp
  have "\<not> pi_peer_id ` set eligible \<subseteq> fst ` set selected"
    using card_mono [of "fst ` set selected" "pi_peer_id ` set eligible"] loop_inv_card(1) [OF Suc.prems(1)] less assms(3)
    by auto
  then obtain p where p: "p \<in> set eligible" "pi_peer_id p \<notin> set used_peers"
    using Suc.prems(1) assms(2) by (auto simp: loop_inv_def)
  have ne: "segments \<noteq> []" using assms(1) p(1) by (auto simp: covers_def)
  obtain d where "candidate by_segment segments used_peers (i + d) \<noteq> None"
    using candidate_ahead [OF assms(1) p] by blast
  from diverse_loop_next [OF this less ne] obtain j q where q: "candidate by_segment segments used_peers j = Some q"
    and eq: "diverse_loop by_segment segments num_hops selected used_peers i
      = diverse_loop by_segment segments num_hops (selected @ [hop_of q]) (pi_peer_id q # used_peers) (j + 1)"
    by blast
  show ?case unfolding eq
    by (rule Suc.hyps(1)) (use Suc.hyps(2) less loop_inv_step [OF Suc.prems(1) assms(1) q] in simp_all)
qed

lemma diverse_loop_never_returns:
  assumes "diverse_loop by_segment segments num_hops selected used_peers i = Some r"
    and "covers by_segment segments eligible" and "segments \<noteq> []"
    and "loop_inv eligible dest selected used_peers"
  shows "num_hops \<le> card (pi_peer_id ` set eligible)"
proof -
  have "covers by_segment segments eligible \<longrightarrow> segments \<noteq> [] \<longrightarrow> loop_inv eligible dest selected used_peers
    \<longrightarrow> num_hops \<le> card (pi_peer_id ` set eligible)"
  proof (rule diverse_loop.raw_induct [where P = "\<lambda>m segs n sel used i r. covers m segs eligible \<longrightarrow> segs \<noteq> [] \<longrightarrow>
      loop_inv eligible dest sel used \<longrightarrow> n \<le> card (pi_peer_id ` set eligible)", OF _ assms(1)], intro impI, goal_cases)
    case (1 loop m segs n sel used i r)
    show ?case
    proof (cases "length sel < n")
      case False
      then show ?thesis using loop_inv_card(2) [OF 1(5)] by simp
    next
      case True
      show ?thesis
      proof (cases "candidate m segs used i")
        case None
        then have "loop m segs n sel used (i + 1) = Some r"
          using 1(2,4) True unfolding candidate_def by simp
        then show ?thesis using 1(1,3,4,5) by blast
      next
        case (Some p)
        then have "loop m segs n (sel @ [hop_of p]) (pi_peer_id p # used) (i + 1) = Some r"
          using 1(2,4) True unfolding candidate_def by simp
        then show ?thesis using 1(1,3,4) loop_inv_step [OF 1(5,3) Some] by blast
      qed
    qed
  qed
  then show ?thesis using assms(2-4) by blast
qed

lemma covers_group:
  assumes "set (key_order (map fst (group_by_segment eligible []))) = fst ` set (group_by_segment eligible [])"
  shows "covers (group_by_segment eligible []) (key_order (map fst (group_by_segment eligible []))) eligible"
proof -
  have "\<exists>j < length (key_order (map fst (group_by_segment eligible []))).
      p \<in> set (peers_of (group_by_segment eligible []) (key_order (map fst (group_by_segment eligible [])) ! j))"
    if "p \<in> set eligible" for p
  proof -
    have "pi_network_segment p \<in> set (key_order (map fst (group_by_segment eligible [])))"
      using that by (simp add: assms keys_group)
    then obtain j where "j < length (key_order (map fst (group_by_segment eligible [])))"
      "key_order (map fst (group_by_segment eligible [])) ! j = pi_network_segment p"
      by (auto simp: in_set_conv_nth)
    then show ?thesis using that by (intro exI [of _ j]) (simp add: peers_of_group)
  qed
  then show ?thesis by (auto simp: covers_def peers_of_group peers_of_def [of "[]"])
qed

lemma eligible_not_destination: "pi_peer_id destination \<notin> pi_peer_id ` set (eligible_peers cb destination)"
  by (auto simp: eligible_peers_def)

lemma loop_inv_start: "loop_inv eligible dest [] [dest]"
  by (simp add: loop_inv_def)

text \<open>
  C22. Diverse selection ends when it can. If at least \<open>num_hops\<close> different peers are eligible, the
  selection loop returns \<open>num_hops\<close> pairwise different relays, all of them eligible peers with their own keys and none
  of them the destination, in whatever order the hash map lists the segments.
\<close>

theorem diverse_hops_found:
  assumes "\<And>ks. set (key_order ks) = set ks"
    and "num_hops \<le> card (pi_peer_id ` set (eligible_peers cb destination))"
  shows "\<exists>hops. select_diverse_hops key_order cb num_hops destination = Some (Inr hops)
    \<and> length hops = num_hops \<and> distinct (map fst hops) \<and> set hops \<subseteq> hop_of ` set (eligible_peers cb destination)
    \<and> pi_peer_id destination \<notin> fst ` set hops"
proof -
  let ?es = "eligible_peers cb destination"
  have "num_hops \<le> length ?es" using assms(2) card_length [of "map pi_peer_id ?es"] by simp
  then have eq: "select_diverse_hops key_order cb num_hops destination = diverse_loop (group_by_segment ?es [])
      (key_order (map fst (group_by_segment ?es []))) num_hops [] [pi_peer_id destination] 0"
    by (simp add: select_diverse_hops_def Let_def)
  obtain hops used where run: "diverse_loop (group_by_segment ?es []) (key_order (map fst (group_by_segment ?es [])))
      num_hops [] [pi_peer_id destination] 0 = Some (Inr hops)" "length hops = num_hops"
    and inv: "loop_inv ?es (pi_peer_id destination) hops used"
    using diverse_loop_fills [OF covers_group [of key_order ?es] eligible_not_destination assms(2) loop_inv_start, of 0]
      assms(1) [of "map fst (group_by_segment ?es [])"] by auto
  have "distinct (map fst hops)" and sub: "set hops \<subseteq> hop_of ` set ?es" using inv by (simp_all add: loop_inv_def)
  moreover from sub have "pi_peer_id destination \<notin> fst ` set hops"
    using eligible_not_destination [of destination cb] by auto
  ultimately show ?thesis using run unfolding eq by blast
qed

text \<open>
  C29. Diverse selection may never end: when the peer list has enough eligible entries but fewer than
  \<open>num_hops\<close> different peer identifiers among them, the guard on the number of entries lets the loop start and
  the loop does not return.
\<close>

theorem diverse_hops_diverges:
  assumes "\<And>ks. set (key_order ks) = set ks"
    and "num_hops \<le> length (eligible_peers cb destination)"
    and "card (pi_peer_id ` set (eligible_peers cb destination)) < num_hops"
  shows "select_diverse_hops key_order cb num_hops destination = None"
proof (rule ccontr)
  let ?es = "eligible_peers cb destination"
  let ?segs = "key_order (map fst (group_by_segment ?es []))"
  assume "select_diverse_hops key_order cb num_hops destination \<noteq> None"
  then obtain r where r: "diverse_loop (group_by_segment ?es []) ?segs num_hops [] [pi_peer_id destination] 0 = Some r"
    using assms(2) by (auto simp: select_diverse_hops_def Let_def)
  have cov: "covers (group_by_segment ?es []) ?segs ?es" by (rule covers_group) (simp add: assms(1))
  moreover have "?es \<noteq> []" using assms(2,3) by auto
  ultimately have "?segs \<noteq> []" by (cases ?es) (auto simp: covers_def)
  from diverse_loop_never_returns [OF r cov this loop_inv_start] show False using assms(3) by simp
qed


definition sample_peer :: "string \<Rightarrow> string \<Rightarrow> peer_info" where
  "sample_peer i seg = \<lparr>pi_peer_id = i, pi_public_key = replicate 32 1, pi_reliability_score = 1, pi_network_segment = seg\<rparr>"

definition sample_builder :: "string list \<Rightarrow> circuit_builder" where
  "sample_builder ids = \<lparr>cb_peers = map (\<lambda>i. sample_peer i ''lan'') ids, cb_config = circuit_config_default\<rparr>"

lemma sample_peer_id [simp]: "pi_peer_id (sample_peer i seg) = i"
  by (simp add: sample_peer_def)

lemma eligible_sample:
  assumes "''d'' \<notin> set ids"
  shows "eligible_peers (sample_builder ids) (sample_peer ''d'' ''wan'') = map (\<lambda>i. sample_peer i ''lan'') ids"
proof -
  have "p \<in> set (map (\<lambda>i. sample_peer i ''lan'') ids) \<Longrightarrow> 1 / 2 \<le> pi_reliability_score p \<and> pi_peer_id p \<noteq> ''d''" for p
    using assms by (auto simp: sample_peer_def)
  then show ?thesis
    unfolding eligible_peers_def sample_builder_def circuit_config_default_def by (simp only: circuit_builder.simps circuit_config.simps sample_peer_id filter_True ball_simps) (auto intro!: filter_True)
qed

theorem diverse_hops_found_witness:
  "\<exists>hops. select_diverse_hops rev (sample_builder [''a'', ''b'', ''c'']) 3 (sample_peer ''d'' ''wan'') = Some (Inr hops)
     \<and> length hops = 3 \<and> distinct (map fst hops)"
proof -
  have "3 \<le> card (pi_peer_id ` set (eligible_peers (sample_builder [''a'', ''b'', ''c'']) (sample_peer ''d'' ''wan'')))"
    by (simp add: eligible_sample card_insert_if)
  from diverse_hops_found [of rev, OF _ this] show ?thesis by auto
qed

theorem diverse_hops_diverges_witness:
  "select_diverse_hops rev (sample_builder [''a'', ''b'', ''a'']) 3 (sample_peer ''d'' ''wan'') = None"
  by (rule diverse_hops_diverges) (simp_all add: eligible_sample card_insert_if)

section \<open>Circuits and onions\<close>

lemma diverse_loop_length:
  assumes "diverse_loop m segs n sel used i = Some (Inr hops)" and "length sel \<le> n"
  shows "length hops = n"
proof -
  have "length sel \<le> n \<longrightarrow> (\<forall>hops'. (Inr hops :: circuit_error + (string \<times> bytes) list) = Inr hops' \<longrightarrow> length hops' = n)"
  proof (rule diverse_loop.raw_induct [where P = "\<lambda>m segs n sel used i r. length sel \<le> n \<longrightarrow>
      (\<forall>hops. r = Inr hops \<longrightarrow> length hops = n)", OF _ assms(1)], intro impI allI, goal_cases)
    case (1 loop m segs n sel used i r hops)
    show ?case
    proof (cases "length sel < n")
      case False
      then show ?thesis using 1(2,3,4) by simp
    next
      case True
      then have ne: "segs \<noteq> []" using 1(2,4) by auto
      show ?thesis
      proof (cases "candidate m segs used i")
        case None
        then have "loop m segs n sel used (i + 1) = Some r"
          using 1(2) True ne unfolding candidate_def by simp
        then show ?thesis using 1(1,3,4) by blast
      next
        case (Some p)
        then have "loop m segs n (sel @ [hop_of p]) (pi_peer_id p # used) (i + 1) = Some r"
          using 1(2) True ne unfolding candidate_def by simp
        moreover have "length (sel @ [hop_of p]) \<le> n" using True by simp
        ultimately show ?thesis using 1(1,4) by blast
      qed
    qed
  qed
  then show ?thesis using assms(2) by blast
qed

lemma length_hop_keys: "hop_keys hops = Inr ks \<Longrightarrow> length ks = length hops"
  by (induction hops arbitrary: ks) (auto split: if_splits)

lemma length_public_keys:
  "public_keys path = Inr keys \<Longrightarrow> length keys = length (cp_hops path) + (if cp_destination path = None then 0 else 1)"
  by (auto simp: public_keys_def length_hop_keys split: option.splits if_splits)

lemma try_res_eq_Inl: "try_res r f = Inl e \<longleftrightarrow> r = Inl e \<or> (\<exists>x. r = Inr x \<and> f x = Inl e)"
  by (cases r) simp_all

lemma seal_layer_errors: "seal_layer C s pk routing payload = Inl e \<Longrightarrow> e = EncryptionFailed"
  by (auto simp: seal_layer_def Let_def split: option.splits)

lemma layer_res_errors: "layer_res r = Inl e \<Longrightarrow> e = OnionInvalidEnvelope"
  by (simp add: layer_res_def split: sum.splits)

lemma wrap_layers_errors: "wrap_layers C ser eph path is bs = Inl e \<Longrightarrow> e \<noteq> TooManyHops k"
proof (induction "is" arbitrary: bs)
  case (Cons i "is")
  then show ?case unfolding wrap_layers.simps try_res_eq_Inl
    by (blast dest: seal_layer_errors layer_res_errors)
qed simp

lemma construct_onion_limit:
  assumes "path \<noteq> []"
  shows "construct_onion C ser deser eph path payload = Inl (TooManyHops k) \<longleftrightarrow> k = 5 \<and> 5 < length path"
proof (cases "5 < length path")
  case True
  then show ?thesis by (auto simp: construct_onion_def MAX_ONION_HOPS_def)
next
  case False
  have "construct_onion C ser deser eph path payload \<noteq> Inl (TooManyHops k)"
  proof
    assume "construct_onion C ser deser eph path payload = Inl (TooManyHops k)"
    then show False using False assms
      unfolding construct_onion_def MAX_ONION_HOPS_def Let_def
      by (simp add: try_res_eq_Inl) (blast dest: seal_layer_errors layer_res_errors wrap_layers_errors)
  qed
  then show ?thesis using False by simp
qed

lemma build_circuit_length:
  assumes "\<And>ps k. k \<le> length ps \<Longrightarrow> length (choose_multiple ps k) = k"
    and "build_circuit gen_range key_order choose_multiple rid cb dest = Some (Inr path)"
  shows "length (cp_hops path) = gen_range (cf_min_hops (cb_config cb)) (cf_max_hops (cb_config cb))"
    and "cp_destination path = Some dest"
proof -
  let ?n = "gen_range (cf_min_hops (cb_config cb)) (cf_max_hops (cb_config cb))"
  have diverse: "length hops = ?n" if "select_diverse_hops key_order cb ?n dest = Some (Inr hops)" for hops
    using that diverse_loop_length by (fastforce simp: select_diverse_hops_def Let_def split: if_splits)
  have random: "length hops = ?n" if "select_random_hops choose_multiple cb ?n dest = Inr hops" for hops
    using that assms(1) by (auto simp: select_random_hops_def Let_def split: if_splits)
  show "length (cp_hops path) = ?n" and "cp_destination path = Some dest"
    using assms(2) diverse random unfolding build_circuit_def Let_def
    by (auto split: if_splits option.splits sum.splits)
qed

text \<open>
  The circuit builder and the onion constructor disagree about the limit: the keys of a circuit are those of its
  hops and of the destination, so the onion for a circuit is refused with \<open>TooManyHops\<close> exactly when the number of
  hops drawn is five or more, and the default configuration draws up to five.
\<close>

lemma circuit_exceeds_onion_limit:
  assumes "\<And>ps k. k \<le> length ps \<Longrightarrow> length (choose_multiple ps k) = k"
    and "build_circuit gen_range key_order choose_multiple rid cb dest = Some (Inr path)"
    and "public_keys path = Inr keys"
  shows "construct_onion C ser deser eph keys payload = Inl (TooManyHops 5)
           \<longleftrightarrow> 5 \<le> gen_range (cf_min_hops (cb_config cb)) (cf_max_hops (cb_config cb))"
proof -
  have "length keys = Suc (gen_range (cf_min_hops (cb_config cb)) (cf_max_hops (cb_config cb)))"
    using length_public_keys [OF assms(3)] build_circuit_length [OF assms(1,2)] by simp
  moreover from this have "keys \<noteq> []" by auto
  ultimately show ?thesis by (auto simp: construct_onion_limit)
qed

end
