(* ===== verification/Store_Inbox.thy ===== *)
theory Store_Inbox
  imports Store_Backend
begin

text \<open>
  The inbox of \<open>src/core/src/store/inbox.rs\<close> with both backends, and the duplicate statistics of
  \<open>src/core/src/store/dedup.rs\<close>. The hash of a message id (BLAKE3), the serialisation and the iteration
  order of a hash set are parameters. The loop that evicts old ids would not end if the two records of
  seen ids disagreed, so \<open>receive\<close> has an optional result; on every reachable inbox it returns.
\<close>

section \<open>State\<close>

definition MAX_SEEN_IDS :: nat where
  "MAX_SEEN_IDS = 50000"

definition SEEN_IDS_KEY :: bytes where
  "SEEN_IDS_KEY = as_bytes ''inbox_seen_ids''"

definition MESSAGES_PREFIX :: bytes where
  "MESSAGES_PREFIX = as_bytes ''inbox_msg_''"

record received_message =
  rm_message_id :: string
  rm_sender_id :: string
  rm_payload :: bytes
  rm_received_at :: u64
  rm_sender_public_key_hex :: "string option"

text \<open>A hash set is the list of its elements without repetition.\<close>

datatype 's inbox_backend =
    InboxMemory (seen_ids: "bytes list") (seen_order: "bytes list") (inbox_messages: "(string, received_message list) hmap") (inbox_total: nat)
  | InboxPersistent (inbox_db: 's)

record 's inbox =
  ib_backend :: "'s inbox_backend"
  ib_storage_manager :: "('s \<Rightarrow> 's) option"

definition inbox_new :: "'s inbox" where
  "inbox_new = \<lparr>ib_backend = InboxMemory [] [] [] 0, ib_storage_manager = None\<rparr>"

definition inbox_persistent_with_storage :: "'s \<Rightarrow> ('s \<Rightarrow> 's) \<Rightarrow> 's inbox" where
  "inbox_persistent_with_storage backend perform_maintenance =
     \<lparr>ib_backend = InboxPersistent backend, ib_storage_manager = Some perform_maintenance\<rparr>"

definition inbox_persistent :: "'s \<Rightarrow> 's inbox" where
  "inbox_persistent backend = \<lparr>ib_backend = InboxPersistent backend, ib_storage_manager = None\<rparr>"

definition inbox_trigger_maintenance :: "'s inbox \<Rightarrow> 's inbox" where
  "inbox_trigger_maintenance ib =
     (case (ib_storage_manager ib, ib_backend ib) of
        (Some perform_maintenance, InboxPersistent s) \<Rightarrow> ib\<lparr>ib_backend := InboxPersistent (perform_maintenance s)\<rparr>
      | _ \<Rightarrow> ib)"

text \<open>What serialises the seen ids and the messages, and the order in which a set iterates.\<close>

record inbox_env =
  ie_hash :: "bytes \<Rightarrow> bytes"
  ie_ser_seen :: "bytes list \<Rightarrow> string + bytes"
  ie_deser_seen :: "bytes \<Rightarrow> string + bytes list"
  ie_ser_msg :: "received_message \<Rightarrow> string + bytes"
  ie_deser_msg :: "bytes \<Rightarrow> string + received_message"
  ie_iter :: "bytes list \<Rightarrow> bytes list"

section \<open>Operations\<close>

definition id_hash :: "inbox_env \<Rightarrow> string \<Rightarrow> bytes" where
  "id_hash V message_id = ie_hash V (as_bytes message_id)"

definition load_seen :: "inbox_env \<Rightarrow> 's storage_backend \<Rightarrow> 's \<Rightarrow> bytes list" where
  "load_seen V B db =
     (case bk_get B SEEN_IDS_KEY db of
        Inl _ \<Rightarrow> []
      | Inr None \<Rightarrow> []
      | Inr (Some bs) \<Rightarrow> (case ie_deser_seen V bs of Inl _ \<Rightarrow> [] | Inr ids \<Rightarrow> ids))"

definition is_duplicate :: "inbox_env \<Rightarrow> 's storage_backend \<Rightarrow> string \<Rightarrow> 's inbox \<Rightarrow> bool" where
  "is_duplicate V B message_id ib =
     (case ib_backend ib of
        InboxMemory seen order messages cnt \<Rightarrow> id_hash V message_id \<in> set seen
      | InboxPersistent db \<Rightarrow> id_hash V message_id \<in> set (load_seen V B db))"

text \<open>The \<open>while\<close> loop of \<open>receive\<close>; \<open>None\<close> when it runs for ever.\<close>

fun evict_seen :: "nat \<Rightarrow> bytes list \<Rightarrow> bytes list \<Rightarrow> (bytes list \<times> bytes list) option" where
  "evict_seen mx seen [] = (if mx < length seen then None else Some (seen, []))"
| "evict_seen mx seen (old_hash # order) =
     (if mx < length seen then evict_seen mx (removeAll old_hash seen) order else Some (seen, old_hash # order))"

definition message_key :: "string \<Rightarrow> string \<Rightarrow> bytes" where
  "message_key sender_id message_id = as_bytes (''inbox_msg_'' @ sender_id @ ''_'' @ message_id)"

definition messages_of :: "(string, received_message list) hmap \<Rightarrow> string \<Rightarrow> received_message list" where
  "messages_of messages sender_id = (case hm_get messages sender_id of Some ms \<Rightarrow> ms | None \<Rightarrow> [])"

definition receive_persistent :: "inbox_env \<Rightarrow> 's storage_backend \<Rightarrow> received_message \<Rightarrow> 's \<Rightarrow> 's" where
  "receive_persistent V B msg db =
     (let seen = load_seen V B db @ [id_hash V (rm_message_id msg)];
          kept = (if MAX_SEEN_IDS < length seen
                  then filter (\<lambda>h. h \<notin> set (take 1000 (ie_iter V seen))) seen else seen);
          db1 = (case ie_ser_seen V kept of Inl _ \<Rightarrow> db | Inr bs \<Rightarrow> snd (bk_put B SEEN_IDS_KEY bs db))
      in case ie_ser_msg V msg of
           Inl _ \<Rightarrow> db1
         | Inr bs \<Rightarrow> snd (bk_flush B (snd (bk_put B (message_key (rm_sender_id msg) (rm_message_id msg)) bs db1))))"

definition receive :: "inbox_env \<Rightarrow> 's storage_backend \<Rightarrow> received_message \<Rightarrow> 's inbox \<Rightarrow> ('s inbox \<times> bool) option" where
  "receive V B msg ib =
     (case ib_backend ib of
        InboxMemory seen order messages cnt \<Rightarrow>
          let hash = id_hash V (rm_message_id msg)
          in if hash \<in> set seen then Some (ib, False)
             else (case evict_seen MAX_SEEN_IDS (seen @ [hash]) (order @ [hash]) of
                     None \<Rightarrow> None
                   | Some (seen', order') \<Rightarrow>
                       Some (inbox_trigger_maintenance
                               (ib\<lparr>ib_backend := InboxMemory seen' order'
                                     (hm_insert (rm_sender_id msg) (messages_of messages (rm_sender_id msg) @ [msg]) messages)
                                     (cnt + 1)\<rparr>), True))
      | InboxPersistent db \<Rightarrow>
          if id_hash V (rm_message_id msg) \<in> set (load_seen V B db) then Some (ib, False)
          else Some (inbox_trigger_maintenance (ib\<lparr>ib_backend := InboxPersistent (receive_persistent V B msg db)\<rparr>), True))"

definition messages_from :: "inbox_env \<Rightarrow> 's storage_backend \<Rightarrow> string \<Rightarrow> 's inbox \<Rightarrow> received_message list" where
  "messages_from V B sender_id ib =
     (case ib_backend ib of
        InboxMemory seen order messages cnt \<Rightarrow> messages_of messages sender_id
      | InboxPersistent db \<Rightarrow>
          map snd (decoded (ie_deser_msg V) (scan_or_empty B (as_bytes (''inbox_msg_'' @ sender_id @ ''_'')) db)))"

definition all_messages :: "inbox_env \<Rightarrow> 's storage_backend \<Rightarrow> 's inbox \<Rightarrow> received_message list" where
  "all_messages V B ib =
     (case ib_backend ib of
        InboxMemory seen order messages cnt \<Rightarrow> concat (map snd messages)
      | InboxPersistent db \<Rightarrow> map snd (decoded (ie_deser_msg V) (scan_or_empty B MESSAGES_PREFIX db)))"

definition inbox_total_count :: "'s storage_backend \<Rightarrow> 's inbox \<Rightarrow> nat" where
  "inbox_total_count B ib =
     (case ib_backend ib of
        InboxMemory seen order messages cnt \<Rightarrow> cnt
      | InboxPersistent db \<Rightarrow> count_or_zero B MESSAGES_PREFIX db)"

definition inbox_sender_count :: "inbox_env \<Rightarrow> 's storage_backend \<Rightarrow> 's inbox \<Rightarrow> nat" where
  "inbox_sender_count V B ib =
     (case ib_backend ib of
        InboxMemory seen order messages cnt \<Rightarrow> length messages
      | InboxPersistent db \<Rightarrow>
          card (set (map (\<lambda>(k, m). rm_sender_id m) (decoded (ie_deser_msg V) (scan_or_empty B MESSAGES_PREFIX db)))))"

definition get_inbox_count :: "'s storage_backend \<Rightarrow> 's inbox \<Rightarrow> u32" where
  "get_inbox_count B ib = word_of_nat (inbox_total_count B ib)"

definition drain_received_messages :: "inbox_env \<Rightarrow> 's storage_backend \<Rightarrow> 's inbox \<Rightarrow> 's inbox \<times> received_message list" where
  "drain_received_messages V B ib =
     (case ib_backend ib of
        InboxMemory seen order messages cnt \<Rightarrow>
          (ib\<lparr>ib_backend := InboxMemory seen order [] 0\<rparr>, concat (map snd messages))
      | InboxPersistent db \<Rightarrow>
          let results = scan_or_empty B MESSAGES_PREFIX db
          in (ib\<lparr>ib_backend := InboxPersistent (snd (bk_flush B (remove_keys B (map fst results) db)))\<rparr>,
              map snd (decoded (ie_deser_msg V) results)))"

definition clear_messages :: "'s storage_backend \<Rightarrow> 's inbox \<Rightarrow> 's inbox" where
  "clear_messages B ib =
     (case ib_backend ib of
        InboxMemory seen order messages cnt \<Rightarrow> ib\<lparr>ib_backend := InboxMemory seen order [] 0\<rparr>
      | InboxPersistent db \<Rightarrow>
          (case bk_scan_prefix B MESSAGES_PREFIX db of
             Inl _ \<Rightarrow> ib
           | Inr results \<Rightarrow>
               ib\<lparr>ib_backend := InboxPersistent (snd (bk_flush B (remove_keys B (map fst results) db)))\<rparr>))"

section \<open>Duplicate statistics\<close>

record dedup_stats =
  ds_message_id :: string
  ds_first_received_at :: u64
  ds_duplicate_count :: u32
  ds_first_transport :: "string option"

definition dedup_stats_new :: "string \<Rightarrow> u64 \<Rightarrow> dedup_stats" where
  "dedup_stats_new message_id first_received_at =
     \<lparr>ds_message_id = message_id, ds_first_received_at = first_received_at, ds_duplicate_count = 0, ds_first_transport = None\<rparr>"

definition record_duplicate :: "dedup_stats \<Rightarrow> dedup_stats" where
  "record_duplicate e = e\<lparr>ds_duplicate_count := sat_add (ds_duplicate_count e) 1\<rparr>"

record dedup_tracker =
  dt_entries :: "(string, dedup_stats) hmap"
  dt_max_entries :: nat

definition tracker_new :: dedup_tracker where
  "tracker_new = \<lparr>dt_entries = [], dt_max_entries = 10000\<rparr>"

definition tracker_with_max_entries :: "nat \<Rightarrow> dedup_tracker" where
  "tracker_with_max_entries max_entries = \<lparr>dt_entries = [], dt_max_entries = max_entries\<rparr>"

text \<open>Strings compare byte by byte; \<open>min_by_key\<close> keeps the first of several smallest elements.\<close>

fun bytes_less :: "bytes \<Rightarrow> bytes \<Rightarrow> bool" where
  "bytes_less _ [] = False"
| "bytes_less [] (_ # _) = True"
| "bytes_less (x # xs) (y # ys) = (x < y \<or> x = y \<and> bytes_less xs ys)"

definition older :: "dedup_stats \<Rightarrow> dedup_stats \<Rightarrow> bool" where
  "older a b \<longleftrightarrow> ds_first_received_at a < ds_first_received_at b \<or>
     ds_first_received_at a = ds_first_received_at b \<and> bytes_less (as_bytes (ds_message_id a)) (as_bytes (ds_message_id b))"

fun oldest_entry :: "(string, dedup_stats) hmap \<Rightarrow> string option" where
  "oldest_entry [] = None"
| "oldest_entry (e # es) = Some (fst (fold (\<lambda>x best. if older (snd x) (snd best) then x else best) es e))"

definition record_received :: "u64 \<Rightarrow> string \<Rightarrow> string option \<Rightarrow> dedup_tracker \<Rightarrow> dedup_tracker \<times> dedup_stats" where
  "record_received now_ms message_id first_transport dt =
     (case hm_get (dt_entries dt) message_id of
        Some e \<Rightarrow> (dt\<lparr>dt_entries := hm_insert message_id (record_duplicate e) (dt_entries dt)\<rparr>, record_duplicate e)
      | None \<Rightarrow>
          let stats = (dedup_stats_new message_id now_ms)\<lparr>ds_first_transport := first_transport\<rparr>;
              es = (if dt_max_entries dt \<le> length (dt_entries dt)
                    then (case oldest_entry (dt_entries dt) of
                            Some k \<Rightarrow> hm_remove k (dt_entries dt) | None \<Rightarrow> dt_entries dt)
                    else dt_entries dt)
          in (dt\<lparr>dt_entries := hm_insert message_id stats es\<rparr>, stats))"

definition get_dedup_stats :: "string \<Rightarrow> dedup_tracker \<Rightarrow> dedup_stats option" where
  "get_dedup_stats message_id dt = hm_get (dt_entries dt) message_id"

definition tracker_clear :: "dedup_tracker \<Rightarrow> dedup_tracker" where
  "tracker_clear dt = dt\<lparr>dt_entries := []\<rparr>"

record dedup_aggregate =
  da_total_entries :: nat
  da_total_duplicates :: u32
  da_entries_with_transport :: nat

definition dedup_aggregate :: "dedup_tracker \<Rightarrow> dedup_aggregate" where
  "dedup_aggregate dt =
     \<lparr>da_total_entries = length (dt_entries dt),
      da_total_duplicates = (\<Sum>(k, e)\<leftarrow>dt_entries dt. ds_duplicate_count e),
      da_entries_with_transport = length (filter (\<lambda>(k, e). ds_first_transport e \<noteq> None) (dt_entries dt))\<rparr>"

section \<open>The seen ids\<close>

definition seen_inv :: "bytes list \<Rightarrow> bytes list \<Rightarrow> bool" where
  "seen_inv seen order \<longleftrightarrow> distinct seen \<and> distinct order \<and> set seen = set order \<and> length order \<le> MAX_SEEN_IDS"

lemma evict_seen_drop:
  assumes "distinct seen" and "distinct order" and "set seen = set order"
  shows "\<exists>seen'. evict_seen mx seen order = Some (seen', drop (length order - mx) order)
    \<and> distinct seen' \<and> set seen' = set (drop (length order - mx) order)"
  using assms
proof (induction order arbitrary: seen)
  case (Cons h order)
  have len: "length seen = Suc (length order)" using Cons.prems by (metis distinct_card length_Cons)
  show ?case
  proof (cases "mx < length seen")
    case True
    have "set (removeAll h seen) = set order" using Cons.prems by auto
    then show ?thesis using Cons.IH [of "removeAll h seen"] Cons.prems True len by (auto simp: Suc_diff_le distinct_removeAll)
  next
    case False
    then show ?thesis using Cons.prems len by auto
  qed
qed auto

definition inbox_memory_inv :: "'s inbox \<Rightarrow> bool" where
  "inbox_memory_inv ib \<longleftrightarrow>
     (\<exists>seen order messages. ib_backend ib = InboxMemory seen order messages (length (concat (map snd messages)))
        \<and> seen_inv seen order \<and> hm_wf messages)"

lemma concat_insert:
  "hm_wf m \<Longrightarrow> length (concat (map snd (hm_insert k (messages_of m k @ [x]) m))) = Suc (length (concat (map snd m)))"
proof (induction m)
  case (Cons p m)
  obtain k' ms where p: "p = (k', ms)" by (cases p)
  show ?case using Cons by (simp add: p messages_of_def)
qed (simp add: messages_of_def)

lemma receive_new:
  assumes ib: "ib_backend ib = InboxMemory seen order messages (length (concat (map snd messages)))"
    and inv: "seen_inv seen order" "hm_wf messages" and new: "id_hash V (rm_message_id msg) \<notin> set seen"
  defines "order' \<equiv> drop (Suc (length order) - MAX_SEEN_IDS) (order @ [id_hash V (rm_message_id msg)])"
  shows "\<exists>ib' seen'. receive V B msg ib = Some (ib', True) \<and> inbox_memory_inv ib' \<and> seen_inv seen' order'
    \<and> ib_backend ib' = InboxMemory seen' order'
        (hm_insert (rm_sender_id msg) (messages_of messages (rm_sender_id msg) @ [msg]) messages)
        (Suc (length (concat (map snd messages))))"
proof -
  let ?h = "id_hash V (rm_message_id msg)"
  have pre: "distinct (seen @ [?h])" "distinct (order @ [?h])" "set (seen @ [?h]) = set (order @ [?h])"
    using inv(1) new by (auto simp: seen_inv_def)
  obtain seen' where seen': "evict_seen MAX_SEEN_IDS (seen @ [?h]) (order @ [?h]) = Some (seen', order')"
    "distinct seen'" "set seen' = set order'"
    using evict_seen_drop [OF pre, of MAX_SEEN_IDS] by (auto simp: order'_def)
  moreover have "distinct order'" unfolding order'_def using pre(2) by (rule distinct_drop)
  moreover have "length order' \<le> MAX_SEEN_IDS" by (simp add: order'_def)
  ultimately have "seen_inv seen' order'" by (simp add: seen_inv_def)
  then show ?thesis
    using ib inv new seen'(1) concat_insert [OF inv(2), of "rm_sender_id msg" msg]
    by (auto simp: receive_def Let_def inbox_trigger_maintenance_def inbox_memory_inv_def split: option.splits)
qed

lemma receive_duplicate:
  "ib_backend ib = InboxMemory seen order messages n \<Longrightarrow> id_hash V (rm_message_id msg) \<in> set seen \<Longrightarrow>
    receive V B msg ib = Some (ib, False)"
  by (simp add: receive_def Let_def)

inductive inbox_memory_reachable :: "inbox_env \<Rightarrow> 's storage_backend \<Rightarrow> 's inbox \<Rightarrow> bool" for V B where
  reach_new: "inbox_memory_reachable V B inbox_new"
| reach_receive: "inbox_memory_reachable V B ib \<Longrightarrow> receive V B msg ib = Some (ib', b) \<Longrightarrow> inbox_memory_reachable V B ib'"
| reach_drain: "inbox_memory_reachable V B ib \<Longrightarrow> inbox_memory_reachable V B (fst (drain_received_messages V B ib))"
| reach_clear: "inbox_memory_reachable V B ib \<Longrightarrow> inbox_memory_reachable V B (clear_messages B ib)"

lemma inbox_receive_inv:
  assumes "inbox_memory_inv ib" and "receive V B msg ib = Some (ib', b)"
  shows "inbox_memory_inv ib'"
proof -
  obtain seen order messages where ib: "ib_backend ib = InboxMemory seen order messages (length (concat (map snd messages)))"
    "seen_inv seen order" "hm_wf messages"
    using assms(1) by (auto simp: inbox_memory_inv_def)
  show ?thesis
  proof (cases "id_hash V (rm_message_id msg) \<in> set seen")
    case True
    then show ?thesis using receive_duplicate [OF ib(1) True, of B] assms by simp
  next
    case False
    then show ?thesis using receive_new [OF ib False, of B] assms(2) by auto
  qed
qed

lemma inbox_memory_reachable_inv: "inbox_memory_reachable V B ib \<Longrightarrow> inbox_memory_inv ib"
proof (induction rule: inbox_memory_reachable.induct)
  case reach_new
  then show ?case by (simp add: inbox_new_def inbox_memory_inv_def seen_inv_def)
next
  case (reach_receive ib msg ib' b)
  then show ?case using inbox_receive_inv by blast
qed (auto simp: inbox_memory_inv_def drain_received_messages_def clear_messages_def)

lemma inbox_receive_total:
  assumes "inbox_memory_reachable V B ib"
  shows "\<exists>ib' b. receive V B msg ib = Some (ib', b)"
proof -
  obtain seen order messages where ib: "ib_backend ib = InboxMemory seen order messages (length (concat (map snd messages)))"
    "seen_inv seen order" "hm_wf messages"
    using inbox_memory_reachable_inv [OF assms] by (auto simp: inbox_memory_inv_def)
  then show ?thesis
    using receive_duplicate [OF ib(1), of V msg B] receive_new [OF ib, of V msg B] by blast
qed

text \<open>
  C37. Receiving is exact: on every inbox in memory reached from a new one, \<open>receive\<close> returns,
  answers true exactly for ids that are not remembered, then stores the message last in its sender's
  list and remembers the id, and leaves the inbox alone otherwise; the total is the number of stored messages.
\<close>

theorem inbox_receive_exact:
  assumes "inbox_memory_reachable V B ib"
  shows "\<exists>ib'. receive V B msg ib = Some (ib', \<not> is_duplicate V B (rm_message_id msg) ib)
    \<and> is_duplicate V B (rm_message_id msg) ib'
    \<and> (is_duplicate V B (rm_message_id msg) ib \<longrightarrow> ib' = ib)
    \<and> (\<not> is_duplicate V B (rm_message_id msg) ib \<longrightarrow>
         inbox_total_count B ib' = inbox_total_count B ib + 1
         \<and> (\<forall>s. messages_from V B s ib' = messages_from V B s ib @ (if s = rm_sender_id msg then [msg] else [])))
    \<and> inbox_total_count B ib' = length (all_messages V B ib')"
proof -
  obtain seen order messages where ib: "ib_backend ib = InboxMemory seen order messages (length (concat (map snd messages)))"
    "seen_inv seen order" "hm_wf messages"
    using inbox_memory_reachable_inv [OF assms] by (auto simp: inbox_memory_inv_def)
  show ?thesis
  proof (cases "id_hash V (rm_message_id msg) \<in> set seen")
    case True
    then show ?thesis using receive_duplicate [OF ib(1) True, of B]
      by (simp add: is_duplicate_def ib(1) inbox_total_count_def all_messages_def)
  next
    case False
    let ?order = "drop (Suc (length order) - MAX_SEEN_IDS) (order @ [id_hash V (rm_message_id msg)])"
    obtain ib' seen' where ib': "receive V B msg ib = Some (ib', True)" "seen_inv seen' ?order"
      "ib_backend ib' = InboxMemory seen' ?order
        (hm_insert (rm_sender_id msg) (messages_of messages (rm_sender_id msg) @ [msg]) messages)
        (Suc (length (concat (map snd messages))))"
      using receive_new [OF ib False, of B] by blast
    have "length order \<le> MAX_SEEN_IDS" using ib(2) by (simp add: seen_inv_def)
    then have "id_hash V (rm_message_id msg) \<in> set ?order" by (simp add: MAX_SEEN_IDS_def)
    then have "id_hash V (rm_message_id msg) \<in> set seen'" using ib'(2) by (simp add: seen_inv_def)
    then show ?thesis
      using False ib'(1) ib(3) concat_insert [OF ib(3), of "rm_sender_id msg" msg]
      by (simp add: is_duplicate_def ib(1) ib'(3) inbox_total_count_def all_messages_def messages_from_def messages_of_def)
  qed
qed


text \<open>An id is recent to a degree when few enough other ids were remembered after it.\<close>

definition recent_seen :: "bytes \<Rightarrow> nat \<Rightarrow> 's inbox \<Rightarrow> bool" where
  "recent_seen h k ib \<longleftrightarrow>
     (\<exists>seen xs ys messages n. ib_backend ib = InboxMemory seen (xs @ h # ys) messages n \<and> h \<in> set seen \<and> length ys \<le> k)"

lemma drop_keeps_recent:
  assumes "length ys < mx"
  shows "\<exists>xs'. drop (length (xs @ h # ys) - mx) (xs @ h # ys) = xs' @ h # ys"
proof -
  have "length (xs @ h # ys) - mx \<le> length xs" using assms by simp
  then show ?thesis by auto
qed

lemma receive_keeps_recent:
  assumes inv: "inbox_memory_inv ib" and rec: "recent_seen h k ib" and k: "Suc k < MAX_SEEN_IDS"
    and step: "receive V B msg ib = Some (ib', b)"
  shows "recent_seen h (Suc k) ib'"
proof -
  obtain seen order messages where ib: "ib_backend ib = InboxMemory seen order messages (length (concat (map snd messages)))"
    "seen_inv seen order" "hm_wf messages"
    using inv by (auto simp: inbox_memory_inv_def)
  obtain xs ys where order: "order = xs @ h # ys" "length ys \<le> k" using rec ib(1) by (auto simp: recent_seen_def)
  show ?thesis
  proof (cases "id_hash V (rm_message_id msg) \<in> set seen")
    case True
    then have "ib' = ib" using receive_duplicate [OF ib(1) True, of B] step by simp
    then show ?thesis using rec by (fastforce simp: recent_seen_def)
  next
    case False
    let ?h = "id_hash V (rm_message_id msg)"
    obtain xs' where "drop (length (xs @ h # ys @ [?h]) - MAX_SEEN_IDS) (xs @ h # ys @ [?h]) = xs' @ h # ys @ [?h]"
      using drop_keeps_recent [of "ys @ [?h]" MAX_SEEN_IDS xs h] order(2) k by auto
    then have eq: "drop (Suc (length order) - MAX_SEEN_IDS) (order @ [?h]) = xs' @ h # ys @ [?h]" by (simp add: order(1))
    obtain seen' messages' n' where "ib_backend ib' = InboxMemory seen' (xs' @ h # ys @ [?h]) messages' n'"
      "seen_inv seen' (xs' @ h # ys @ [?h])"
      using receive_new [OF ib False, of B] step unfolding eq by auto
    moreover from this have "h \<in> set seen'" by (simp add: seen_inv_def)
    ultimately show ?thesis using order(2) by (fastforce simp: recent_seen_def)
  qed
qed

fun receive_all :: "inbox_env \<Rightarrow> 's storage_backend \<Rightarrow> received_message list \<Rightarrow> 's inbox \<Rightarrow> 's inbox option" where
  "receive_all V B [] ib = Some ib"
| "receive_all V B (m # ms) ib = (case receive V B m ib of None \<Rightarrow> None | Some (ib', _) \<Rightarrow> receive_all V B ms ib')"

lemma receive_all_keeps_recent:
  assumes "inbox_memory_reachable V B ib" and "recent_seen h k ib" and "k + length ms < MAX_SEEN_IDS"
  shows "\<exists>ib'. receive_all V B ms ib = Some ib' \<and> inbox_memory_reachable V B ib' \<and> recent_seen h (k + length ms) ib'"
  using assms
proof (induction ms arbitrary: ib k)
  case (Cons m ms)
  obtain ib1 b where step: "receive V B m ib = Some (ib1, b)"
    using inbox_receive_total [OF Cons.prems(1)] by blast
  have "recent_seen h (Suc k) ib1"
    using receive_keeps_recent [OF inbox_memory_reachable_inv [OF Cons.prems(1)] Cons.prems(2) _ step] Cons.prems(3) by simp
  then show ?case
    using Cons.IH [OF reach_receive [OF Cons.prems(1) step], of "Suc k"] Cons.prems(3) step by auto
qed simp

text \<open>
  C16. Replay protection of the inbox kept in memory: from every state such an inbox can reach, after a message was accepted, its id is
  refused as a duplicate throughout the next 49999 receptions, whatever they are. The persistent inbox has no such window: at
  capacity it drops a thousand ids in the iteration order of a hash set, possibly the one just recorded.
\<close>

theorem inbox_replay_window:
  assumes "inbox_memory_reachable V B ib" and "receive V B msg ib = Some (ib1, True)" and "length ms < 50000"
  shows "\<exists>ib2. receive_all V B ms ib1 = Some ib2 \<and> receive V B msg ib2 = Some (ib2, False)"
proof -
  obtain seen order messages where ib: "ib_backend ib = InboxMemory seen order messages (length (concat (map snd messages)))"
    "seen_inv seen order" "hm_wf messages"
    using inbox_memory_reachable_inv [OF assms(1)] by (auto simp: inbox_memory_inv_def)
  let ?h = "id_hash V (rm_message_id msg)"
  have new: "?h \<notin> set seen" using receive_duplicate [OF ib(1), of V msg B] assms(2) by auto
  obtain xs where "drop (Suc (length order) - MAX_SEEN_IDS) (order @ [?h]) = xs @ [?h]"
    using drop_keeps_recent [of "[]" MAX_SEEN_IDS order ?h] by (auto simp: MAX_SEEN_IDS_def)
  then have "recent_seen ?h 0 ib1"
    using receive_new [OF ib new, of B] assms(2) by (fastforce simp: recent_seen_def seen_inv_def)
  then obtain ib2 where ib2: "receive_all V B ms ib1 = Some ib2" "recent_seen ?h (length ms) ib2"
    using receive_all_keeps_recent [OF reach_receive [OF assms(1,2)], of ?h 0 ms] assms(3) by (auto simp: MAX_SEEN_IDS_def)
  then obtain seen' order' messages' n' where "ib_backend ib2 = InboxMemory seen' order' messages' n'" "?h \<in> set seen'"
    by (auto simp: recent_seen_def)
  from receive_duplicate [OF this, of B] ib2(1) show ?thesis by blast
qed

definition sample_env :: inbox_env where
  "sample_env = \<lparr>ie_hash = (\<lambda>b. b), ie_ser_seen = (\<lambda>ids. Inl []), ie_deser_seen = (\<lambda>b. Inl []), ie_ser_msg = (\<lambda>m. Inl []),
     ie_deser_msg = (\<lambda>b. Inl []), ie_iter = (\<lambda>ids. ids)\<rparr>"

definition sample_received :: "string \<Rightarrow> received_message" where
  "sample_received mid = \<lparr>rm_message_id = mid, rm_sender_id = ''bob'', rm_payload = [1], rm_received_at = 7, rm_sender_public_key_hex = None\<rparr>"

theorem inbox_receive_exact_witness:
  "\<exists>ib. receive sample_env memory_backend (sample_received ''a'') inbox_new = Some (ib, True)
    \<and> inbox_total_count memory_backend ib = 1"
  using inbox_receive_exact [OF reach_new, of sample_env memory_backend "sample_received ''a''"]
  by (auto simp: is_duplicate_def inbox_total_count_def inbox_new_def)

theorem inbox_replay_window_witness:
  "\<exists>ib1 ib2. receive sample_env memory_backend (sample_received ''a'') inbox_new = Some (ib1, True)
    \<and> receive_all sample_env memory_backend [sample_received ''b'', sample_received ''a''] ib1 = Some ib2
    \<and> receive sample_env memory_backend (sample_received ''a'') ib2 = Some (ib2, False)"
proof -
  obtain ib1 where step: "receive sample_env memory_backend (sample_received ''a'') inbox_new = Some (ib1, True)"
    by (simp add: receive_def inbox_new_def id_hash_def sample_env_def MAX_SEEN_IDS_def Let_def)
  from inbox_replay_window [OF reach_new this, of "[sample_received ''b'', sample_received ''a'']"] step
  show ?thesis by auto
qed

end
