(* ===== verification/Store_Table.thy ===== *)
theory Store_Table
  imports Store_Backend Core_Error
begin

text \<open>
  Several components keep one record per key under a fixed prefix of a shared \<open>StorageBackend\<close>: the history under
  \<open>msg_\<close>, contacts under \<open>contact:\<close>, blocks under \<open>blocked:\<close>. Such a group of entries is a table, a finite map from the rest
  of the key to the record, and this theory gives the laws of reading, writing and scanning a table
  over any reliable backend, and that tables with incomparable prefixes do not interfere.
\<close>

definition table_key :: "string \<Rightarrow> string \<Rightarrow> bytes" where
  "table_key p i = as_bytes (p @ i)"

definition table :: "string \<Rightarrow> ('r \<Rightarrow> bytes) \<Rightarrow> (bytes \<rightharpoonup> bytes) \<Rightarrow> (string \<rightharpoonup> 'r) \<Rightarrow> bool" where
  "table p ser E M \<longleftrightarrow> (\<forall>i. E (table_key p i) = map_option ser (M i))"

definition apart :: "string \<Rightarrow> string \<Rightarrow> bool" where
  "apart p q \<longleftrightarrow> (\<forall>i j. p @ i \<noteq> q @ j)"

lemma table_key_eq [simp]: "table_key p i = table_key p j \<longleftrightarrow> i = j"
  unfolding table_key_def as_bytes_eq by simp

lemma table_key_prefix [simp]: "starts_with (as_bytes p) (table_key p i)"
  unfolding table_key_def as_bytes_append by simp

lemma surj_as_bytes: "\<exists>s. k = as_bytes s"
proof -
  have "(word_of_nat (of_char (char_of (unat b) :: char)) :: u8) = b" for b :: u8
    using unat_bound [of b] by (simp add: word_unat_eq_iff)
  then have "as_bytes (map (\<lambda>b. char_of (unat b)) k) = k" by (simp add: as_bytes_def comp_def)
  then show ?thesis by metis
qed

lemma starts_with_table: "starts_with (as_bytes p) k \<longleftrightarrow> (\<exists>i. k = table_key p i)"
proof
  assume "starts_with (as_bytes p) k"
  moreover obtain s where "k = as_bytes s" using surj_as_bytes by blast
  ultimately show "\<exists>i. k = table_key p i" by (auto simp: starts_with_as_bytes table_key_def simp del: as_bytes_append)
qed auto

lemma apart_key [simp]: "apart p q \<Longrightarrow> table_key p i \<noteq> table_key q j"
  unfolding table_key_def as_bytes_eq by (simp add: apart_def)

lemma tableD: "table p ser E M \<Longrightarrow> E (table_key p i) = map_option ser (M i)"
  by (simp add: table_def)

lemma table_update: "table p ser E M \<Longrightarrow> table p ser (E(table_key p i \<mapsto> ser r)) (M(i \<mapsto> r))"
  by (simp add: table_def)

lemma table_delete: "table p ser E M \<Longrightarrow> table p ser (E(table_key p i := None)) (M(i := None))"
  by (simp add: table_def)

lemma table_restrict: "table p ser E M \<Longrightarrow> table p ser (E |` (- table_key p ` S)) (M |` (- S))"
  by (auto simp: table_def restrict_map_def image_iff)

lemma table_other: "table p ser E M \<Longrightarrow> apart p q \<Longrightarrow> table p ser (E(table_key q j := v)) M"
  by (simp add: table_def)

lemma table_restrict_other: "table p ser E M \<Longrightarrow> apart p q \<Longrightarrow> table p ser (E |` (- table_key q ` S)) M"
  by (auto simp: table_def restrict_map_def image_iff)

text \<open>What the entries of a scanned table decode to.\<close>

definition scans :: "string \<Rightarrow> ('r \<Rightarrow> bytes) \<Rightarrow> scan_result \<Rightarrow> (string \<rightharpoonup> 'r) \<Rightarrow> bool" where
  "scans p ser es M \<longleftrightarrow> distinct (map fst es) \<and> set es = {(table_key p i, ser r) | i r. M i = Some r}"

lemma scansE:
  assumes "scans p ser es M" and "(k, v) \<in> set es"
  obtains i r where "k = table_key p i" and "v = ser r" and "M i = Some r"
  using assms by (auto simp: scans_def)

lemma scans_keys: "scans p ser es M \<Longrightarrow> fst ` set es = table_key p ` dom M"
proof -
  have "{(table_key p i, ser r) | i r. M i = Some r} = (\<lambda>i. (table_key p i, ser (the (M i)))) ` dom M"
    by (auto simp: dom_def image_def)
  then show "scans p ser es M \<Longrightarrow> fst ` set es = table_key p ` dom M" by (simp add: scans_def image_image)
qed

lemma scans_finite: "scans p ser es M \<Longrightarrow> finite (dom M)"
proof -
  assume sc: "scans p ser es M"
  have "finite (table_key p ` dom M)" using scans_keys [OF sc] by (metis finite_imageI finite_set)
  moreover have "inj_on (table_key p) (dom M)" by (simp add: inj_on_def)
  ultimately show ?thesis by (rule finite_imageD)
qed

lemma scans_filter:
  assumes "scans p ser es M" and "\<And>r. deser (ser r) = Inr r"
  shows "set (filter (\<lambda>(k, v). P (projr (deser v))) es) = {(table_key p i, ser r) | i r. M i = Some r \<and> P r}"
  using assms by (auto simp: scans_def)

lemma scans_decoded:
  assumes "scans p ser es M" and inv: "\<And>r. deser (ser r) = Inr r"
  shows "(\<lambda>(k, v). projr (deser v)) ` set es = ran M"
proof (intro equalityI subsetI)
  fix r assume "r \<in> (\<lambda>(k, v). projr (deser v)) ` set es"
  then obtain k v where "(k, v) \<in> set es" "r = projr (deser v)" by auto
  then show "r \<in> ran M" using scansE [OF assms(1)] inv by (metis ranI sum.sel(2))
next
  fix r assume "r \<in> ran M"
  then obtain i where "M i = Some r" by (auto simp: ran_def)
  then have "(table_key p i, ser r) \<in> set es" using assms(1) by (auto simp: scans_def)
  then show "r \<in> (\<lambda>(k, v). projr (deser v)) ` set es" by (rule rev_image_eqI) (simp add: inv)
qed

lemma scans_card:
  assumes "scans p ser es M"
  shows "length es = card (dom M)"
proof -
  have "length es = card (fst ` set es)" using assms distinct_card [of "map fst es"] by (simp add: scans_def)
  moreover have "fst ` set es = table_key p ` dom M" by (rule scans_keys [OF assms])
  moreover have "card (table_key p ` dom M) = card (dom M)" by (rule card_image) (simp add: inj_on_def)
  ultimately show ?thesis by simp
qed

text \<open>Writes as the stores report them, and the question mark operator between writes.\<close>

definition st_put :: "'s storage_backend \<Rightarrow> bytes \<Rightarrow> bytes \<Rightarrow> 's \<Rightarrow> (core_error + unit) \<times> 's" where
  "st_put B k v s = (case bk_put B k v s of (r, s') \<Rightarrow> (storage_res r, s'))"

definition st_remove :: "'s storage_backend \<Rightarrow> bytes \<Rightarrow> 's \<Rightarrow> (core_error + unit) \<times> 's" where
  "st_remove B k s = (case bk_remove B k s of (r, s') \<Rightarrow> (storage_res r, s'))"

definition and_then :: "('e + 'a) \<times> 's \<Rightarrow> ('a \<Rightarrow> 's \<Rightarrow> ('e + 'b) \<times> 's) \<Rightarrow> ('e + 'b) \<times> 's" where
  "and_then p f = (case p of (Inl e, s) \<Rightarrow> (Inl e, s) | (Inr x, s) \<Rightarrow> f x s)"

lemma and_then_simps [simp]: "and_then (Inr x, s) f = f x s" "and_then (Inl e, s) f = (Inl e, s)"
  by (simp_all add: and_then_def)

text \<open>Loops over a scan that stop at the first error.\<close>

fun parse_all :: "(bytes \<Rightarrow> string + 'r) \<Rightarrow> scan_result \<Rightarrow> core_error + 'r list" where
  "parse_all from_json [] = Inr []"
| "parse_all from_json ((_, v) # es) =
     try_res (json_res (from_json v)) (\<lambda>r. try_res (parse_all from_json es) (\<lambda>rs. Inr (r # rs)))"

fun remove_each :: "'s storage_backend \<Rightarrow> bytes list \<Rightarrow> 's \<Rightarrow> (core_error + unit) \<times> 's" where
  "remove_each B [] s = (Inr (), s)"
| "remove_each B (k # ks) s =
     (case bk_remove B k s of (Inl _, s') \<Rightarrow> (Inl StorageError, s') | (Inr _, s') \<Rightarrow> remove_each B ks s')"

lemma parse_all_ok:
  assumes "\<forall>(k, v) \<in> set es. from_json v = Inr (rec v)"
  shows "parse_all from_json es = Inr (map (\<lambda>(k, v). rec v) es)"
  using assms by (induction es) (auto simp: json_res_def)

section \<open>Writes below given prefixes\<close>

definition only_under :: "string set \<Rightarrow> (bytes \<rightharpoonup> bytes) \<Rightarrow> (bytes \<rightharpoonup> bytes) \<Rightarrow> bool" where
  "only_under P E E' \<longleftrightarrow> (\<forall>k. (\<forall>p \<in> P. \<not> starts_with (as_bytes p) k) \<longrightarrow> E' k = E k)"

lemma only_under_refl [simp]: "only_under P E E"
  by (simp add: only_under_def)

lemma only_under_trans: "only_under P E1 E2 \<Longrightarrow> only_under P E2 E3 \<Longrightarrow> only_under P E1 E3"
  by (simp add: only_under_def)

lemma only_under_mono: "only_under P E E' \<Longrightarrow> P \<subseteq> Q \<Longrightarrow> only_under Q E E'"
  by (auto simp: only_under_def)

lemma only_under_update: "p \<in> P \<Longrightarrow> only_under P E (E(table_key p i := v))"
  by (auto simp: only_under_def)

lemma only_under_restrict:
  "(\<And>k. k \<in> K \<Longrightarrow> \<exists>p \<in> P. starts_with (as_bytes p) k) \<Longrightarrow> only_under P E (E |` (- K))"
  by (auto simp: only_under_def restrict_map_def)

lemma only_under_table: "only_under P E E' \<Longrightarrow> table q ser E M \<Longrightarrow> \<forall>p \<in> P. apart p q \<Longrightarrow> table q ser E' M"
  using apart_key unfolding only_under_def table_def starts_with_table by (metis (no_types))

context reliable_backend
begin

lemma st_putE:
  assumes "sound s"
  obtains s' where "st_put B k v s = (Inr (), s')" "sound s'" "entries s' = (entries s)(k \<mapsto> v)"
  using put_ok [OF assms, of k v] that by (auto simp: st_put_def storage_res_def)

lemma st_removeE:
  assumes "sound s"
  obtains s' where "st_remove B k s = (Inr (), s')" "sound s'" "entries s' = (entries s)(k := None)"
  using remove_ok [OF assms, of k] that by (auto simp: st_remove_def storage_res_def)

lemma remove_each_ok:
  "sound s \<Longrightarrow> \<exists>s'. remove_each B ks s = (Inr (), s') \<and> sound s' \<and> entries s' = entries s |` (- set ks)"
proof (induction ks arbitrary: s)
  case (Cons k ks)
  obtain s1 where s1: "bk_remove B k s = (Inr (), s1)" "sound s1" "entries s1 = (entries s)(k := None)"
    by (rule removeE [OF Cons.prems])
  obtain s' where s': "remove_each B ks s1 = (Inr (), s')" "sound s'" "entries s' = entries s1 |` (- set ks)"
    using Cons.IH [OF s1(2)] by blast
  have "entries s' = entries s |` (- set (k # ks))" unfolding s' s1 by (auto simp: restrict_map_def fun_eq_iff)
  then show ?case using s1 s' by simp
qed (simp add: restrict_map_def)

lemma table_scan:
  assumes "sound s" and "table p ser (entries s) M"
  obtains es where "bk_scan_prefix B (as_bytes p) s = Inr es" and "scans p ser es M"
proof -
  obtain es where es: "bk_scan_prefix B (as_bytes p) s = Inr es" "distinct (map fst es)"
    "set es = {(k, v). entries s k = Some v \<and> starts_with (as_bytes p) k}"
    by (rule scanE [OF assms(1)])
  have "set es = {(table_key p i, ser r) | i r. M i = Some r}"
    unfolding es(3) using tableD [OF assms(2)] by (auto simp: starts_with_table)
  then show thesis using that es by (simp add: scans_def)
qed

lemma table_count:
  assumes "sound s" and "table p ser (entries s) M"
  shows "bk_count_prefix B (as_bytes p) s = Inr (card (dom M))"
proof -
  obtain es where "bk_scan_prefix B (as_bytes p) s = Inr es" "scans p ser es M" by (rule table_scan [OF assms])
  then show ?thesis using count_ok [OF assms(1)] scans_card by metis
qed

lemma table_get:
  assumes "sound s" and "table p ser (entries s) M"
  shows "bk_get B (table_key p i) s = Inr (map_option ser (M i))"
  using get_ok [OF assms(1)] tableD [OF assms(2)] by simp

end

end
