(* ===== verification/Store_History.thy ===== *)
theory Store_History
  imports Store_Table "HOL-Library.Sublist"
begin

text \<open>
  The message history of \<open>src/core/src/store/history.rs\<close>: one JSON record per message under the prefix
  \<open>msg_\<close>. Operations that write return their result and the backend's new state, also when they
  stop at an error halfway. Serialisation and Unicode lower-casing are parameters. The lemmas show that over a reliable
  backend the history is a map from ids to records on which the operations act as
  documented; pruning and the retention cap are exact.
\<close>

section \<open>Records\<close>

datatype message_direction = Sent | Received

record message_record =
  hr_id :: string
  hr_direction :: message_direction
  hr_peer_id :: string
  hr_content :: string
  hr_timestamp :: u64
  hr_sender_timestamp :: u64
  hr_delivered :: bool
  hr_hidden :: bool

definition adjust_legacy_timestamps :: "message_record \<Rightarrow> message_record" where
  "adjust_legacy_timestamps r =
     (if hr_sender_timestamp r = 0 then r\<lparr>hr_sender_timestamp := hr_timestamp r\<rparr> else r)"

definition record_new_sent :: "u64 \<Rightarrow> string \<Rightarrow> string \<Rightarrow> string \<Rightarrow> message_record" where
  "record_new_sent now uuid peer_id content =
     \<lparr>hr_id = uuid, hr_direction = Sent, hr_peer_id = peer_id, hr_content = content, hr_timestamp = now,
      hr_sender_timestamp = now, hr_delivered = False, hr_hidden = False\<rparr>"

definition record_new_received :: "u64 \<Rightarrow> string \<Rightarrow> string \<Rightarrow> string \<Rightarrow> u64 \<Rightarrow> message_record" where
  "record_new_received now uuid peer_id content sender_timestamp =
     \<lparr>hr_id = uuid, hr_direction = Received, hr_peer_id = peer_id, hr_content = content, hr_timestamp = now,
      hr_sender_timestamp = sender_timestamp, hr_delivered = True, hr_hidden = False\<rparr>"

record history_stats =
  hs_total_messages :: u32
  hs_sent_count :: u32
  hs_received_count :: u32
  hs_undelivered_count :: u32

text \<open>\<open>str::eq_ignore_ascii_case\<close>.\<close>

definition ascii_lower :: "char \<Rightarrow> char" where
  "ascii_lower c = (let n = of_char c :: nat in if 65 \<le> n \<and> n \<le> 90 then char_of (n + 32) else c)"

definition eq_ignore_ascii_case :: "string \<Rightarrow> string \<Rightarrow> bool" where
  "eq_ignore_ascii_case a b \<longleftrightarrow> map ascii_lower a = map ascii_lower b"

section \<open>Reading\<close>

abbreviation msg_key :: "string \<Rightarrow> bytes" where
  "msg_key i \<equiv> table_key ''msg_'' i"

definition history_get ::
  "'s storage_backend \<Rightarrow> (bytes \<Rightarrow> string + message_record) \<Rightarrow> string \<Rightarrow> 's \<Rightarrow> core_error + message_record option" where
  "history_get B from_json i s =
     try_res (storage_res (bk_get B (msg_key i) s)) (\<lambda>found.
       case found of
         None \<Rightarrow> Inr None
       | Some data \<Rightarrow> try_res (json_res (from_json data)) (\<lambda>record. Inr (Some (adjust_legacy_timestamps record))))"

text \<open>\<open>sort_by_key\<close> with \<open>Reverse\<close>, which is stable, and \<open>truncate\<close>.\<close>

definition newest_first :: "u32 \<Rightarrow> message_record list \<Rightarrow> message_record list" where
  "newest_first limit rs = take (unat limit) (sort_key (\<lambda>r. - int (unat (hr_timestamp r))) rs)"

definition history_all ::
  "'s storage_backend \<Rightarrow> (bytes \<Rightarrow> string + message_record) \<Rightarrow> 's \<Rightarrow> core_error + message_record list" where
  "history_all B from_json s =
     try_res (storage_res (bk_scan_prefix B (as_bytes ''msg_'') s)) (\<lambda>es.
     try_res (parse_all from_json es) (\<lambda>rs. Inr (map adjust_legacy_timestamps rs)))"

definition recent_internal ::
  "'s storage_backend \<Rightarrow> (bytes \<Rightarrow> string + message_record) \<Rightarrow> string option \<Rightarrow> u32 \<Rightarrow> bool \<Rightarrow> 's \<Rightarrow>
   core_error + message_record list" where
  "recent_internal B from_json peer_filter limit include_hidden s =
     try_res (history_all B from_json s) (\<lambda>rs.
       Inr (newest_first limit
         (filter (\<lambda>r. (include_hidden \<or> \<not> hr_hidden r) \<and>
                    (case peer_filter of None \<Rightarrow> True | Some peer \<Rightarrow> eq_ignore_ascii_case (hr_peer_id r) peer)) rs)))"

definition history_recent where
  "history_recent B from_json peer_filter limit s = recent_internal B from_json peer_filter limit False s"

definition recent_including_hidden where
  "recent_including_hidden B from_json peer_filter limit s = recent_internal B from_json peer_filter limit True s"

definition conversation where
  "conversation B from_json peer_id limit s = history_recent B from_json (Some peer_id) limit s"

definition history_search ::
  "'s storage_backend \<Rightarrow> (bytes \<Rightarrow> string + message_record) \<Rightarrow> (string \<Rightarrow> string) \<Rightarrow> string \<Rightarrow> u32 \<Rightarrow> 's \<Rightarrow>
   core_error + message_record list" where
  "history_search B from_json to_lowercase query limit s =
     try_res (history_all B from_json s) (\<lambda>rs.
       Inr (newest_first limit
         (filter (\<lambda>r. \<not> hr_hidden r \<and> sublist (to_lowercase query) (to_lowercase (hr_content r))) rs)))"

definition count_record :: "message_record \<Rightarrow> history_stats \<Rightarrow> history_stats" where
  "count_record r st =
     (let st1 = st\<lparr>hs_total_messages := hs_total_messages st + 1\<rparr>
      in case hr_direction r of
           Sent \<Rightarrow> st1\<lparr>hs_sent_count := hs_sent_count st1 + 1,
                       hs_undelivered_count := hs_undelivered_count st1 + (if hr_delivered r then 0 else 1)\<rparr>
         | Received \<Rightarrow> st1\<lparr>hs_received_count := hs_received_count st1 + 1\<rparr>)"

definition history_stats_of ::
  "'s storage_backend \<Rightarrow> (bytes \<Rightarrow> string + message_record) \<Rightarrow> 's \<Rightarrow> core_error + history_stats" where
  "history_stats_of B from_json s =
     try_res (history_all B from_json s) (\<lambda>rs.
       Inr (fold count_record rs
              \<lparr>hs_total_messages = 0, hs_sent_count = 0, hs_received_count = 0, hs_undelivered_count = 0\<rparr>))"

definition history_count :: "'s storage_backend \<Rightarrow> 's \<Rightarrow> u32" where
  "history_count B s = word_of_nat (count_or_zero B (as_bytes ''msg_'') s)"

section \<open>Writing\<close>

definition history_add ::
  "'s storage_backend \<Rightarrow> (message_record \<Rightarrow> string + bytes) \<Rightarrow> message_record \<Rightarrow> 's \<Rightarrow> (core_error + unit) \<times> 's" where
  "history_add B to_json record s =
     (case to_json record of
        Inl _ \<Rightarrow> (Inl Internal, s)
      | Inr v \<Rightarrow> (case bk_put B (msg_key (hr_id record)) v s of (r, s') \<Rightarrow> (storage_res r, s')))"

definition mark_delivered ::
  "'s storage_backend \<Rightarrow> (message_record \<Rightarrow> string + bytes) \<Rightarrow> (bytes \<Rightarrow> string + message_record) \<Rightarrow> string \<Rightarrow> 's \<Rightarrow>
   (core_error + unit) \<times> 's" where
  "mark_delivered B to_json from_json i s =
     (case history_get B from_json i s of
        Inl e \<Rightarrow> (Inl e, s)
      | Inr None \<Rightarrow> (Inr (), s)
      | Inr (Some record) \<Rightarrow> history_add B to_json (record\<lparr>hr_delivered := True\<rparr>) s)"

text \<open>The loop of \<open>hide_messages_for_peer\<close> and \<open>unhide_messages_for_peer\<close>.\<close>

fun set_hidden_loop ::
  "'s storage_backend \<Rightarrow> (message_record \<Rightarrow> string + bytes) \<Rightarrow> (bytes \<Rightarrow> string + message_record) \<Rightarrow> bool \<Rightarrow> string \<Rightarrow>
   scan_result \<Rightarrow> u32 \<Rightarrow> 's \<Rightarrow> (core_error + u32) \<times> 's" where
  "set_hidden_loop B to_json from_json hide peer_id [] n s = (Inr n, s)"
| "set_hidden_loop B to_json from_json hide peer_id ((_, v) # es) n s =
     (case from_json v of
        Inl _ \<Rightarrow> (Inl Internal, s)
      | Inr record \<Rightarrow>
          if hr_hidden record \<noteq> hide \<and> eq_ignore_ascii_case (hr_peer_id record) peer_id then
            (case to_json (record\<lparr>hr_hidden := hide\<rparr>) of
               Inl _ \<Rightarrow> (Inl Internal, s)
             | Inr updated \<Rightarrow>
                 (case bk_put B (msg_key (hr_id record)) updated s of
                    (Inl _, s') \<Rightarrow> (Inl StorageError, s')
                  | (Inr _, s') \<Rightarrow> set_hidden_loop B to_json from_json hide peer_id es (n + 1) s'))
          else set_hidden_loop B to_json from_json hide peer_id es n s)"

definition set_hidden where
  "set_hidden B to_json from_json hide peer_id s =
     (case bk_scan_prefix B (as_bytes ''msg_'') s of
        Inl _ \<Rightarrow> (Inl StorageError, s)
      | Inr es \<Rightarrow> set_hidden_loop B to_json from_json hide peer_id es 0 s)"

definition hide_messages_for_peer where
  "hide_messages_for_peer B to_json from_json peer_id s = set_hidden B to_json from_json True peer_id s"

definition unhide_messages_for_peer where
  "unhide_messages_for_peer B to_json from_json peer_id s = set_hidden B to_json from_json False peer_id s"

text \<open>Removing the records that satisfy a predicate, up to the first error.\<close>

fun remove_where ::
  "'s storage_backend \<Rightarrow> (bytes \<Rightarrow> string + message_record) \<Rightarrow> (message_record \<Rightarrow> bool) \<Rightarrow> scan_result \<Rightarrow> u32 \<Rightarrow> 's \<Rightarrow>
   (core_error + u32) \<times> 's" where
  "remove_where B from_json P [] n s = (Inr n, s)"
| "remove_where B from_json P ((k, v) # es) n s =
     (case from_json v of
        Inl _ \<Rightarrow> (Inl Internal, s)
      | Inr record \<Rightarrow>
          if P record then
            (case bk_remove B k s of
               (Inl _, s') \<Rightarrow> (Inl StorageError, s')
             | (Inr _, s') \<Rightarrow> remove_where B from_json P es (n + 1) s')
          else remove_where B from_json P es n s)"

definition remove_conversation where
  "remove_conversation B from_json peer_id s =
     (case bk_scan_prefix B (as_bytes ''msg_'') s of
        Inl _ \<Rightarrow> (Inl StorageError, s)
      | Inr es \<Rightarrow>
          (case remove_where B from_json (\<lambda>r. eq_ignore_ascii_case (hr_peer_id (adjust_legacy_timestamps r)) peer_id) es 0 s of
             (r, s') \<Rightarrow> (try_res r (\<lambda>_. Inr ()), s')))"

definition prune_before where
  "prune_before B from_json before_timestamp s =
     (case bk_scan_prefix B (as_bytes ''msg_'') s of
        Inl _ \<Rightarrow> (Inl StorageError, s)
      | Inr es \<Rightarrow> remove_where B from_json (\<lambda>r. hr_timestamp r < before_timestamp) es 0 s)"

definition history_clear :: "'s storage_backend \<Rightarrow> 's \<Rightarrow> (core_error + unit) \<times> 's" where
  "history_clear B s =
     (case bk_scan_prefix B (as_bytes ''msg_'') s of
        Inl _ \<Rightarrow> (Inl StorageError, s)
      | Inr es \<Rightarrow> remove_each B (map fst es) s)"

definition history_delete :: "'s storage_backend \<Rightarrow> string \<Rightarrow> 's \<Rightarrow> (core_error + unit) \<times> 's" where
  "history_delete B i s = (case bk_remove B (msg_key i) s of (r, s') \<Rightarrow> (storage_res r, s'))"

text \<open>\<open>enforce_retention\<close> panics on a record that does not parse: the result is then \<open>None\<close>.\<close>

definition enforce_retention ::
  "'s storage_backend \<Rightarrow> (bytes \<Rightarrow> string + message_record) \<Rightarrow> u32 \<Rightarrow> 's \<Rightarrow> (core_error + u32) option \<times> 's" where
  "enforce_retention B from_json max_messages s =
     (case bk_scan_prefix B (as_bytes ''msg_'') s of
        Inl _ \<Rightarrow> (Some (Inl StorageError), s)
      | Inr es \<Rightarrow>
          if length es \<le> unat max_messages then (Some (Inr 0), s)
          else (case parse_all from_json es of
                  Inl _ \<Rightarrow> (None, s)
                | Inr rs \<Rightarrow>
                    let records = sort_key (\<lambda>(k, r). hr_timestamp r) (zip (map fst es) rs);
                        to_remove = length records - unat max_messages
                    in case remove_each B (map fst (take to_remove records)) s of
                         (r, s') \<Rightarrow> (Some (try_res r (\<lambda>_. Inr (word_of_nat to_remove))), s')))"

definition history_flush :: "'s storage_backend \<Rightarrow> 's \<Rightarrow> 's" where
  "history_flush B s = snd (bk_flush B s)"

section \<open>The history as a map\<close>

definition keyed :: "(string \<rightharpoonup> message_record) \<Rightarrow> bool" where
  "keyed H \<longleftrightarrow> (\<forall>i r. H i = Some r \<longrightarrow> hr_id r = i)"

text \<open>A write that touches the entries of the history only.\<close>

abbreviation only_history :: "(bytes \<rightharpoonup> bytes) \<Rightarrow> (bytes \<rightharpoonup> bytes) \<Rightarrow> bool" where
  "only_history \<equiv> only_under {''msg_''}"

lemma sorted_take_drop:
  "x \<in> set (take n (sort_key f xs)) \<Longrightarrow> y \<in> set (drop n (sort_key f xs)) \<Longrightarrow> f x \<le> f y"
proof -
  have "sorted (map f (take n (sort_key f xs) @ drop n (sort_key f xs)))" by (simp only: append_take_drop_id sorted_sort_key)
  then show "x \<in> set (take n (sort_key f xs)) \<Longrightarrow> y \<in> set (drop n (sort_key f xs)) \<Longrightarrow> f x \<le> f y"
    unfolding map_append sorted_append by auto
qed

text \<open>A set of entries none of which is newer than any other entry.\<close>

definition oldest :: "(string \<rightharpoonup> message_record) \<Rightarrow> string set \<Rightarrow> bool" where
  "oldest H S \<longleftrightarrow> S \<subseteq> dom H \<and> (\<forall>i \<in> S. \<forall>j \<in> dom H - S. hr_timestamp (the (H i)) \<le> hr_timestamp (the (H j)))"

definition dated :: "(bytes \<Rightarrow> string + message_record) \<Rightarrow> scan_result \<Rightarrow> (bytes \<times> message_record) list" where
  "dated from_json es = map (\<lambda>(k, v). (k, projr (from_json v))) es"

lemma dated_zip: "zip (map fst es) (map (\<lambda>(k, v). projr (from_json v)) es) = dated from_json es"
  by (simp add: dated_def zip_map_map zip_same_conv_map case_prod_unfold)

lemma length_dated [simp]: "length (dated from_json es) = length es"
  by (simp add: dated_def)

lemma dated_set:
  assumes "scans ''msg_'' js es H" and "\<And>r. from_json (js r) = Inr r"
  shows "set (dated from_json es) = {(msg_key i, r) | i r. H i = Some r}" and "distinct (map fst (dated from_json es))"
proof -
  show "set (dated from_json es) = {(msg_key i, r) | i r. H i = Some r}"
    using assms by (auto simp: dated_def scans_def image_iff)
  have "map fst (dated from_json es) = map fst es" by (simp add: dated_def case_prod_unfold)
  then show "distinct (map fst (dated from_json es))" using assms(1) by (simp add: scans_def)
qed

lemma oldest_keys:
  assumes scan: "scans ''msg_'' js es H" and inv: "\<And>r. from_json (js r) = Inr r" and "n \<le> length es"
  defines "ps \<equiv> sort_key (\<lambda>(k, r). hr_timestamp r) (dated from_json es)"
  shows "\<exists>S. oldest H S \<and> set (map fst (take n ps)) = msg_key ` S \<and> card S = n"
proof -
  note dated = dated_set [OF scan inv]
  have set: "set ps = {(msg_key i, r) | i r. H i = Some r}" by (simp add: ps_def dated(1))
  have distinct: "distinct (map fst ps)" using dated(2) by (simp add: ps_def distinct_map)
  have inj: "inj msg_key" by (simp add: inj_def)
  define S where "S = {i. msg_key i \<in> set (map fst (take n ps))}"
  have "set (map fst (take n ps)) \<subseteq> msg_key ` dom H" using set by (auto dest!: in_set_takeD intro!: imageI)
  then have img: "set (map fst (take n ps)) = msg_key ` S" unfolding S_def by blast
  have sub: "S \<subseteq> dom H"
  proof
    fix i assume "i \<in> S"
    then have "msg_key i \<in> msg_key ` dom H" using \<open>set (map fst (take n ps)) \<subseteq> msg_key ` dom H\<close> unfolding S_def by blast
    then show "i \<in> dom H" by (simp only: inj_image_mem_iff [OF inj])
  qed
  have "card S = card (set (map fst (take n ps)))" unfolding img by (rule card_image [symmetric]) (simp add: inj_on_def)
  also have "\<dots> = n"
    using distinct assms(3) by (subst distinct_card) (simp_all add: ps_def take_map [symmetric] distinct_take)
  finally have card: "card S = n" .
  have mem: "(msg_key i, the (H i)) \<in> set ps" if "i \<in> dom H" for i using that set by auto
  have "hr_timestamp (the (H i)) \<le> hr_timestamp (the (H j))" if i: "i \<in> S" and j: "j \<in> dom H - S" for i j
  proof -
    obtain r where r: "(msg_key i, r) \<in> set (take n ps)" using i by (auto simp: S_def)
    then have "H i = Some r" using set in_set_takeD [OF r] by auto
    moreover have "(msg_key j, the (H j)) \<in> set (drop n ps)"
    proof -
      have "(msg_key j, the (H j)) \<in> set (take n ps @ drop n ps)" using mem j by simp
      moreover have "(msg_key j, the (H j)) \<notin> set (take n ps)" using j by (force simp: S_def)
      ultimately show ?thesis by (simp only: set_append Un_iff) blast
    qed
    ultimately show ?thesis using sorted_take_drop [OF r [unfolded ps_def]] unfolding ps_def by fastforce
  qed
  then show ?thesis using sub img card by (auto simp: oldest_def)
qed

context reliable_backend
begin

lemma remove_where_ok:
  assumes "sound s" and "\<forall>(k, v) \<in> set es. from_json v = Inr (rec v)"
  shows "\<exists>s'. remove_where B from_json P es n s = (Inr (n + word_of_nat (length (filter (\<lambda>(k, v). P (rec v)) es))), s')
    \<and> sound s' \<and> entries s' = entries s |` (- fst ` set (filter (\<lambda>(k, v). P (rec v)) es))"
  using assms
proof (induction es arbitrary: n s)
  case Nil
  then show ?case by (simp add: restrict_map_def)
next
  case (Cons e es)
  obtain k v where e: "e = (k, v)" by (cases e)
  show ?case
  proof (cases "P (rec v)")
    case True
    obtain s1 where s1: "bk_remove B k s = (Inr (), s1)" "sound s1" "entries s1 = (entries s)(k := None)"
      by (rule removeE [OF Cons.prems(1)])
    obtain s' where s': "remove_where B from_json P es (n + 1) s1
        = (Inr (n + 1 + word_of_nat (length (filter (\<lambda>(k, v). P (rec v)) es))), s')"
      "sound s'" "entries s' = entries s1 |` (- fst ` set (filter (\<lambda>(k, v). P (rec v)) es))"
      using Cons.IH [OF s1(2), of "n + 1"] Cons.prems(2) by auto
    have "entries s' = entries s |` (- fst ` set (filter (\<lambda>(k, v). P (rec v)) (e # es)))"
      unfolding s'(3) s1(3) using True by (auto simp: restrict_map_def fun_eq_iff e)
    then show ?thesis using Cons.prems True s1 s' by (simp add: e add_ac)
  next
    case False
    then show ?thesis using Cons.IH [OF Cons.prems(1), of n] Cons.prems(2) by (simp add: e)
  qed
qed

lemma remove_table:
  fixes P :: "message_record \<Rightarrow> bool"
  assumes "sound s" and tab: "table ''msg_'' js (entries s) H" and inv: "\<And>r. from_json (js r) = Inr r"
    and scan: "scans ''msg_'' js es H"
  defines "S \<equiv> {i. \<exists>r. H i = Some r \<and> P r}"
  shows "\<exists>s'. remove_where B from_json P es 0 s = (Inr (word_of_nat (card S)), s') \<and> sound s'
    \<and> table ''msg_'' js (entries s') (H |` (- S)) \<and> only_history (entries s) (entries s')"
proof -
  let ?rec = "\<lambda>v. projr (from_json v)"
  let ?es = "filter (\<lambda>(k, v). P (?rec v)) es"
  have dec: "\<forall>(k, v) \<in> set es. from_json v = Inr (?rec v)" using scan inv by (auto simp: scans_def)
  have set: "set ?es = (\<lambda>i. (msg_key i, js (the (H i)))) ` S"
    using scan inv by (auto simp: scans_def S_def)
  then have keys: "fst ` set ?es = msg_key ` S" by (simp add: image_image)
  have "distinct (map fst ?es)" using scan by (auto simp: scans_def intro: distinct_map_filter)
  then have "length ?es = card (fst ` set ?es)" using distinct_card [of "map fst ?es"] by simp
  also have "\<dots> = card S" unfolding keys by (rule card_image) (simp add: inj_on_def)
  finally have len: "length ?es = card S" .
  obtain s' where s': "remove_where B from_json P es 0 s = (Inr (word_of_nat (card S)), s')" "sound s'"
    "entries s' = entries s |` (- msg_key ` S)"
    using remove_where_ok [OF assms(1) dec, of P 0] unfolding len keys by auto
  have "only_history (entries s) (entries s')"
    unfolding s'(3) by (rule only_under_restrict) auto
  then show ?thesis using s' table_restrict [OF tab, of S] by auto
qed

lemma prune_before_table:
  fixes t :: u64
  assumes "sound s" and tab: "table ''msg_'' js (entries s) H" and inv: "\<And>r. from_json (js r) = Inr r"
  defines "S \<equiv> {i. \<exists>r. H i = Some r \<and> hr_timestamp r < t}"
  shows "\<exists>s'. prune_before B from_json t s = (Inr (word_of_nat (card S)), s') \<and> sound s'
    \<and> table ''msg_'' js (entries s') (H |` (- S)) \<and> only_history (entries s) (entries s')"
proof -
  obtain es where es: "bk_scan_prefix B (as_bytes ''msg_'') s = Inr es" "scans ''msg_'' js es H"
    by (rule table_scan [OF assms(1) tab])
  from remove_table [OF assms(1) tab inv es(2), of "\<lambda>r. hr_timestamp r < t"] show ?thesis
    unfolding S_def by (simp add: prune_before_def es(1))
qed


lemma enforce_retention_table:
  fixes mx :: u32
  assumes "sound s" and tab: "table ''msg_'' js (entries s) H" and inv: "\<And>r. from_json (js r) = Inr r"
  shows "\<exists>s' S. enforce_retention B from_json mx s = (Some (Inr (word_of_nat (card S))), s') \<and> sound s'
    \<and> table ''msg_'' js (entries s') (H |` (- S)) \<and> only_history (entries s) (entries s')
    \<and> card (dom H - S) = min (card (dom H)) (unat mx) \<and> oldest H S"
proof -
  obtain es where es: "bk_scan_prefix B (as_bytes ''msg_'') s = Inr es" "scans ''msg_'' js es H"
    by (rule table_scan [OF assms(1) tab])
  have len: "length es = card (dom H)" by (rule scans_card [OF es(2)])
  show ?thesis
  proof (cases "length es \<le> unat mx")
    case True
    then have "enforce_retention B from_json mx s = (Some (Inr 0), s)" by (simp add: enforce_retention_def es(1))
    moreover have "H |` (- {}) = H" by (simp add: restrict_map_def)
    ultimately show ?thesis
      using assms(1) tab True len by (intro exI [of _ s] exI [of _ "{}"]) (simp add: only_under_def oldest_def)
  next
    case False
    let ?n = "length es - unat mx"
    let ?ks = "map fst (take ?n (sort_key (\<lambda>(k, r). hr_timestamp r) (dated from_json es)))"
    obtain S where S: "oldest H S" "set ?ks = msg_key ` S" "card S = ?n"
      using oldest_keys [OF es(2) inv, of ?n] by auto
    obtain s' where s': "remove_each B ?ks s = (Inr (), s')" "sound s'" "entries s' = entries s |` (- msg_key ` S)"
      using remove_each_ok [OF assms(1), of ?ks] unfolding S(2) by blast
    have "parse_all from_json es = Inr (map (\<lambda>(k, v). projr (from_json v)) es)"
      by (rule parse_all_ok) (use es(2) inv in \<open>auto simp: scans_def\<close>)
    then have "enforce_retention B from_json mx s = (Some (Inr (word_of_nat (card S))), s')"
      using False s'(1) by (simp add: enforce_retention_def es(1) Let_def dated_zip S(3))
    moreover have "card (dom H - S) = min (card (dom H)) (unat mx)"
      using card_Diff_subset [of S "dom H"] finite_subset [of S "dom H"] S(1,3) scans_finite [OF es(2)] False len
      by (simp add: oldest_def)
    moreover have "only_history (entries s) (entries s')" unfolding s'(3) by (rule only_under_restrict) auto
    ultimately show ?thesis using s'(2,3) S(1) table_restrict [OF tab, of S] by auto
  qed
qed

end

section \<open>Adding, hiding and listing\<close>

definition with_hidden :: "bool \<Rightarrow> string \<Rightarrow> message_record \<Rightarrow> message_record" where
  "with_hidden hide peer r = (if eq_ignore_ascii_case (hr_peer_id r) peer then r\<lparr>hr_hidden := hide\<rparr> else r)"

lemma with_hidden_id [simp]: "hr_id (with_hidden hide peer r) = hr_id r"
  by (simp add: with_hidden_def)

text \<open>Scanned entries that the table holds under the ids of their records.\<close>

definition listed :: "(message_record \<Rightarrow> bytes) \<Rightarrow> (string \<rightharpoonup> message_record) \<Rightarrow> scan_result \<Rightarrow> bool" where
  "listed js H es \<longleftrightarrow> distinct (map fst es) \<and>
     (\<forall>(k, v) \<in> set es. \<exists>r. k = msg_key (hr_id r) \<and> v = js r \<and> H (hr_id r) = Some r)"

lemma listed_scans: "scans ''msg_'' js es H \<Longrightarrow> keyed H \<Longrightarrow> listed js H es"
  by (fastforce simp: scans_def listed_def keyed_def)

lemma listed_ConsE:
  assumes "listed js H (e # es)"
  obtains r where "e = (msg_key (hr_id r), js r)" and "H (hr_id r) = Some r" and "listed js H es"
    and "msg_key (hr_id r) \<notin> fst ` set es"
  using assms by (cases e) (auto simp: listed_def)

lemma listed_update: "listed js H es \<Longrightarrow> msg_key i \<notin> fst ` set es \<Longrightarrow> listed js (H(i := v)) es"
  by (force simp: listed_def)

definition hide_in :: "bool \<Rightarrow> string \<Rightarrow> bytes set \<Rightarrow> (string \<rightharpoonup> message_record) \<Rightarrow> (string \<rightharpoonup> message_record)" where
  "hide_in hide peer K H = (\<lambda>i. if msg_key i \<in> K then map_option (with_hidden hide peer) (H i) else H i)"

lemma hide_in_Cons:
  "H i = Some r \<Longrightarrow> msg_key i \<notin> K \<Longrightarrow>
   hide_in hide peer K (H(i \<mapsto> with_hidden hide peer r)) = hide_in hide peer (insert (msg_key i) K) H"
  by (auto simp: hide_in_def fun_eq_iff)

context reliable_backend
begin

lemma history_add_table:
  assumes "sound s" and tab: "table ''msg_'' js (entries s) H"
  shows "\<exists>s'. history_add B (\<lambda>r. Inr (js r)) r s = (Inr (), s') \<and> sound s'
    \<and> table ''msg_'' js (entries s') (H(hr_id r \<mapsto> r)) \<and> only_history (entries s) (entries s')"
proof -
  obtain s' where s': "bk_put B (msg_key (hr_id r)) (js r) s = (Inr (), s')" "sound s'"
    "entries s' = (entries s)(msg_key (hr_id r) \<mapsto> js r)"
    by (rule putE [OF assms(1)])
  have "table ''msg_'' js (entries s') (H(hr_id r \<mapsto> r))" unfolding s'(3) by (rule table_update [OF tab])
  moreover have "only_history (entries s) (entries s')" unfolding s'(3) by (rule only_under_update) simp
  ultimately show ?thesis using s' by (simp add: history_add_def storage_res_def)
qed

lemma history_get_table:
  assumes "sound s" and "table ''msg_'' js (entries s) H" and "\<And>r. from_json (js r) = Inr r"
  shows "history_get B from_json i s = Inr (map_option adjust_legacy_timestamps (H i))"
  using table_get [OF assms(1,2), of i] assms(3)
  by (cases "H i") (simp_all add: history_get_def storage_res_def json_res_def)

lemma history_all_table:
  assumes "sound s" and "table ''msg_'' js (entries s) H" and inv: "\<And>r. from_json (js r) = Inr r"
  shows "\<exists>rs. history_all B from_json s = Inr rs \<and> set rs = adjust_legacy_timestamps ` ran H"
proof -
  obtain es where es: "bk_scan_prefix B (as_bytes ''msg_'') s = Inr es" "scans ''msg_'' js es H"
    by (rule table_scan [OF assms(1,2)])
  let ?rs = "map (\<lambda>(k, v). projr (from_json v)) es"
  have "parse_all from_json es = Inr ?rs" by (rule parse_all_ok) (use es(2) inv in \<open>auto simp: scans_def\<close>)
  moreover have "set ?rs = ran H" using scans_decoded [OF es(2) inv] by simp
  ultimately have "history_all B from_json s = Inr (map adjust_legacy_timestamps ?rs)"
    "set (map adjust_legacy_timestamps ?rs) = adjust_legacy_timestamps ` ran H"
    by (simp_all only: history_all_def es(1) storage_res_def set_map try_res_simps sum.case)
  then show ?thesis by blast
qed

lemma set_hidden_loop_table:
  assumes "\<And>r. from_json (js r) = Inr r"
  shows "sound s \<Longrightarrow> table ''msg_'' js (entries s) H \<Longrightarrow> listed js H es \<Longrightarrow>
    \<exists>m s'. set_hidden_loop B (\<lambda>r. Inr (js r)) from_json hide peer es n s = (Inr m, s') \<and> sound s'
    \<and> table ''msg_'' js (entries s') (hide_in hide peer (fst ` set es) H) \<and> only_history (entries s) (entries s')"
proof (induction es arbitrary: n s H)
  case Nil
  then show ?case by (simp add: hide_in_def)
next
  case (Cons e es)
  obtain r where r: "e = (msg_key (hr_id r), js r)" "H (hr_id r) = Some r" "listed js H es" "msg_key (hr_id r) \<notin> fst ` set es"
    by (rule listed_ConsE [OF Cons.prems(3)])
  let ?r = "with_hidden hide peer r" and ?i = "hr_id r"
  have step: "hide_in hide peer (fst ` set es) (H(?i \<mapsto> ?r)) = hide_in hide peer (fst ` set (e # es)) H"
    using hide_in_Cons [of H ?i r "fst ` set es" hide peer, OF r(2,4)] r(1) by simp
  show ?case
  proof (cases "hr_hidden r \<noteq> hide \<and> eq_ignore_ascii_case (hr_peer_id r) peer")
    case True
    then have upd: "?r = r\<lparr>hr_hidden := hide\<rparr>" by (simp add: with_hidden_def)
    obtain s1 where s1: "bk_put B (msg_key ?i) (js ?r) s = (Inr (), s1)" "sound s1"
      "entries s1 = (entries s)(msg_key ?i \<mapsto> js ?r)"
      by (rule putE [OF Cons.prems(1)])
    have "table ''msg_'' js (entries s1) (H(?i \<mapsto> ?r))" unfolding s1(3) by (rule table_update [OF Cons.prems(2)])
    then obtain m s' where s': "set_hidden_loop B (\<lambda>r. Inr (js r)) from_json hide peer es (n + 1) s1 = (Inr m, s')" "sound s'"
      "table ''msg_'' js (entries s') (hide_in hide peer (fst ` set (e # es)) H)" "only_history (entries s1) (entries s')"
      using Cons.IH [OF s1(2) _ listed_update [OF r(3,4)], of "Some ?r" "n + 1"] unfolding step by blast
    moreover have "only_history (entries s) (entries s')"
      using only_under_trans [OF only_under_update s'(4) [unfolded s1(3)]] by simp
    ultimately show ?thesis using True s1(1) assms upd by (simp add: r(1))
  next
    case False
    then have "?r = r" by (auto simp: with_hidden_def)
    then have "H(?i \<mapsto> ?r) = H" using r(2) by (simp add: fun_upd_idem)
    then show ?thesis using Cons.IH [OF Cons.prems(1,2) r(3), of n] False assms step by (auto simp: r(1))
  qed
qed

lemma set_hidden_table:
  assumes "\<And>r. from_json (js r) = Inr r"
    and "sound s" and tab: "table ''msg_'' js (entries s) H" and "keyed H"
  shows "\<exists>m s'. set_hidden B (\<lambda>r. Inr (js r)) from_json hide peer s = (Inr m, s') \<and> sound s'
    \<and> table ''msg_'' js (entries s') (map_option (with_hidden hide peer) \<circ> H) \<and> only_history (entries s) (entries s')"
proof -
  obtain es where es: "bk_scan_prefix B (as_bytes ''msg_'') s = Inr es" "scans ''msg_'' js es H"
    by (rule table_scan [OF assms(2) tab])
  have "hide_in hide peer (fst ` set es) H = map_option (with_hidden hide peer) \<circ> H"
    unfolding scans_keys [OF es(2)] by (auto simp: hide_in_def fun_eq_iff image_iff dom_def)
  then show ?thesis
    using set_hidden_loop_table [OF assms(1,2) tab listed_scans [OF es(2) assms(4)], where hide = hide and peer = peer and n = 0]
    by (simp add: set_hidden_def es(1))
qed

end

section \<open>Listings\<close>

text \<open>A listing of a set of records: the newest ones up to the limit, newest first.\<close>

definition listing :: "message_record set \<Rightarrow> u32 \<Rightarrow> message_record list \<Rightarrow> bool" where
  "listing X limit rs \<longleftrightarrow> set rs \<subseteq> X \<and> distinct rs \<and> length rs = min (unat limit) (card X)
     \<and> sorted_wrt (\<lambda>a b. hr_timestamp b \<le> hr_timestamp a) rs
     \<and> (\<forall>a \<in> set rs. \<forall>b \<in> X - set rs. hr_timestamp b \<le> hr_timestamp a)"

lemma newest_first_listing:
  assumes "distinct xs"
  shows "listing (set xs) limit (newest_first limit xs)"
proof -
  let ?f = "\<lambda>r. - int (unat (hr_timestamp r))"
  let ?ys = "sort_key ?f xs" and ?n = "unat limit"
  have f: "?f a \<le> ?f b \<longleftrightarrow> hr_timestamp b \<le> hr_timestamp a" for a b by (simp add: word_le_def)
  have ys: "distinct ?ys" "set ?ys = set xs" "length ?ys = card (set xs)" using assms by (simp_all add: distinct_card)
  have "sorted_wrt (\<lambda>a b. ?f a \<le> ?f b) ?ys" using sorted_sort_key [of ?f xs] unfolding sorted_map .
  then have "sorted_wrt (\<lambda>a b. hr_timestamp b \<le> hr_timestamp a) (take ?n ?ys)" unfolding f by (rule sorted_wrt_take)
  moreover have "hr_timestamp b \<le> hr_timestamp a" if a: "a \<in> set (take ?n ?ys)" and b: "b \<in> set xs - set (take ?n ?ys)" for a b
  proof -
    have "b \<in> set (take ?n ?ys @ drop ?n ?ys)" using b ys(2) by simp
    then have "b \<in> set (drop ?n ?ys)" using b by (simp only: set_append Un_iff Diff_iff) blast
    then show ?thesis using sorted_take_drop [OF a] f by blast
  qed
  ultimately show ?thesis
    unfolding listing_def newest_first_def using ys set_take_subset [of ?n ?ys] by (simp add: min.commute distinct_take)
qed

lemma listing_empty [simp]: "listing {} limit rs \<longleftrightarrow> rs = []"
  by (auto simp: listing_def)

lemma adjust_id [simp]: "hr_id (adjust_legacy_timestamps r) = hr_id r"
  by (simp add: adjust_legacy_timestamps_def)

lemma adjust_hidden [simp]: "hr_hidden (adjust_legacy_timestamps r) = hr_hidden r"
  by (simp add: adjust_legacy_timestamps_def)

lemma adjust_peer [simp]: "hr_peer_id (adjust_legacy_timestamps r) = hr_peer_id r"
  by (simp add: adjust_legacy_timestamps_def)

text \<open>The visible messages exchanged with a peer.\<close>

definition visible_with :: "string \<Rightarrow> (string \<rightharpoonup> message_record) \<Rightarrow> message_record set" where
  "visible_with peer H = adjust_legacy_timestamps ` {r \<in> ran H. \<not> hr_hidden r \<and> eq_ignore_ascii_case (hr_peer_id r) peer}"

lemma keyed_distinct:
  assumes "keyed H" and "scans ''msg_'' js es H" and "\<And>r. from_json (js r) = Inr r"
  shows "distinct (map (\<lambda>(k, v). adjust_legacy_timestamps (projr (from_json v))) es)"
proof -
  let ?g = "\<lambda>(k, v). adjust_legacy_timestamps (projr (from_json v))"
  have key: "msg_key (hr_id (?g e)) = fst e" if mem: "e \<in> set es" for e
  proof -
    obtain k v where e: "e = (k, v)" by (cases e)
    obtain i r where "k = msg_key i" "v = js r" "H i = Some r" by (rule scansE [OF assms(2) mem [unfolded e]])
    then show ?thesis using assms(1,3) by (simp add: keyed_def e)
  qed
  have "inj_on ?g (set es)"
  proof (rule inj_onI)
    fix e e' assume e: "e \<in> set es" and e': "e' \<in> set es" and "?g e = ?g e'"
    then have "fst e = fst e'" using key [OF e] key [OF e'] by simp
    moreover have "inj_on fst (set es)" using assms(2) unfolding scans_def distinct_map by blast
    ultimately show "e = e'" using e e' by (simp add: inj_on_def)
  qed
  moreover have "distinct es" using assms(2) by (simp add: scans_def distinct_map)
  ultimately show ?thesis by (simp add: distinct_map)
qed

context reliable_backend
begin

lemma history_all_distinct:
  assumes "sound s" and "table ''msg_'' js (entries s) H" and inv: "\<And>r. from_json (js r) = Inr r" and "keyed H"
  shows "\<exists>rs. history_all B from_json s = Inr rs \<and> set rs = adjust_legacy_timestamps ` ran H \<and> distinct rs"
proof -
  obtain es where es: "bk_scan_prefix B (as_bytes ''msg_'') s = Inr es" "scans ''msg_'' js es H"
    by (rule table_scan [OF assms(1,2)])
  let ?rs = "map (\<lambda>(k, v). projr (from_json v)) es"
  have "parse_all from_json es = Inr ?rs" by (rule parse_all_ok) (use es(2) inv in \<open>auto simp: scans_def\<close>)
  then have "history_all B from_json s = Inr (map adjust_legacy_timestamps ?rs)"
    by (simp only: history_all_def es(1) storage_res_def try_res_simps sum.case)
  moreover have "distinct (map adjust_legacy_timestamps ?rs)"
    using keyed_distinct [OF assms(4) es(2) inv] by (simp add: comp_def case_prod_unfold)
  moreover have "set ?rs = ran H" using scans_decoded [OF es(2) inv] by simp
  ultimately show ?thesis by (metis set_map)
qed

lemma conversation_table:
  assumes "sound s" and "table ''msg_'' js (entries s) H" and inv: "\<And>r. from_json (js r) = Inr r" and "keyed H"
  shows "\<exists>rs. conversation B from_json peer limit s = Inr rs \<and> listing (visible_with peer H) limit rs"
proof -
  obtain rs where rs: "history_all B from_json s = Inr rs" "set rs = adjust_legacy_timestamps ` ran H" "distinct rs"
    using history_all_distinct [OF assms] by blast
  let ?rs = "filter (\<lambda>r. \<not> hr_hidden r \<and> eq_ignore_ascii_case (hr_peer_id r) peer) rs"
  have "set ?rs = visible_with peer H" by (auto simp: visible_with_def rs(2))
  then have "listing (visible_with peer H) limit (newest_first limit ?rs)"
    using newest_first_listing [of ?rs limit] rs(3) by simp
  then show ?thesis by (simp add: conversation_def history_recent_def recent_internal_def rs(1))
qed

end


section \<open>The history over the in-memory store\<close>

text \<open>A store whose history entries are those of a map from ids to records.\<close>

definition holds_history :: "(message_record \<Rightarrow> bytes) \<Rightarrow> memory_storage \<Rightarrow> (string \<rightharpoonup> message_record) \<Rightarrow> bool" where
  "holds_history js s H \<longleftrightarrow> hm_wf s \<and> table ''msg_'' js (hm_get s) H \<and> keyed H"

lemma with_hidden_keyed: "keyed H \<Longrightarrow> keyed (map_option (with_hidden hide peer) \<circ> H)"
  by (auto simp: keyed_def)

lemma visible_hidden: "visible_with peer (map_option (with_hidden True peer) \<circ> H) = {}"
  by (auto simp: visible_with_def ran_def with_hidden_def)

lemma set_hidden_same: "hr_hidden r = h \<Longrightarrow> r\<lparr>hr_hidden := h\<rparr> = r"
  by (cases r) simp

lemma unhide_hide:
  assumes "\<And>r. r \<in> ran H \<Longrightarrow> eq_ignore_ascii_case (hr_peer_id r) peer \<Longrightarrow> \<not> hr_hidden r"
  shows "map_option (with_hidden False peer) \<circ> (map_option (with_hidden True peer) \<circ> H) = H"
proof
  fix i
  show "(map_option (with_hidden False peer) \<circ> (map_option (with_hidden True peer) \<circ> H)) i = H i"
    using assms by (cases "H i") (auto simp: with_hidden_def ran_def intro!: set_hidden_same)
qed

text \<open>
  C35. The listing of a conversation is exact: over a store that holds the history \<open>H\<close>, \<open>conversation\<close> returns the newest visible
  messages exchanged with the peer, whatever the case of the peer id, newest first, all of them up to the
  limit, and no message it leaves out is newer than one it returns.
\<close>

theorem conversation_exact:
  assumes "holds_history js s H" and "\<And>r. from_json (js r) = Inr r"
  shows "\<exists>rs. conversation memory_backend from_json peer limit s = Inr rs \<and> listing (visible_with peer H) limit rs"
  by (rule memory.conversation_table [OF _ _ assms(2)]) (use assms(1) in \<open>simp_all add: holds_history_def\<close>)

text \<open>
  C36. Hiding a peer's messages and showing them again loses nothing: after \<open>hide_messages_for_peer\<close> the
  conversation is empty whatever the limit, while every record is still stored, and if none of them was hidden before,
  \<open>unhide_messages_for_peer\<close> restores the history exactly; both leave every entry outside the history as it was.
\<close>

theorem hide_unhide_lossless:
  assumes "holds_history js s H" and inv: "\<And>r. from_json (js r) = Inr r"
    and "\<And>r. r \<in> ran H \<Longrightarrow> eq_ignore_ascii_case (hr_peer_id r) peer \<Longrightarrow> \<not> hr_hidden r"
  shows "\<exists>m n s1 s2. hide_messages_for_peer memory_backend (\<lambda>r. Inr (js r)) from_json peer s = (Inr m, s1)
    \<and> (\<forall>limit. conversation memory_backend from_json peer limit s1 = Inr [])
    \<and> holds_history js s1 (map_option (with_hidden True peer) \<circ> H)
    \<and> unhide_messages_for_peer memory_backend (\<lambda>r. Inr (js r)) from_json peer s1 = (Inr n, s2)
    \<and> holds_history js s2 H \<and> only_history (hm_get s) (hm_get s2)"
proof -
  have s: "hm_wf s" "table ''msg_'' js (hm_get s) H" "keyed H" using assms(1) by (simp_all add: holds_history_def)
  let ?H = "map_option (with_hidden True peer) \<circ> H"
  obtain m s1 where s1: "set_hidden memory_backend (\<lambda>r. Inr (js r)) from_json True peer s = (Inr m, s1)" "hm_wf s1"
    "table ''msg_'' js (hm_get s1) ?H" "only_history (hm_get s) (hm_get s1)"
    using memory.set_hidden_table [OF inv s, where hide = True and peer = peer] by blast
  have k: "keyed ?H" by (rule with_hidden_keyed [OF s(3)])
  have restored: "map_option (with_hidden False peer) \<circ> ?H = H" by (rule unhide_hide) (rule assms(3))
  obtain n s2 where s2: "set_hidden memory_backend (\<lambda>r. Inr (js r)) from_json False peer s1 = (Inr n, s2)" "hm_wf s2"
    "table ''msg_'' js (hm_get s2) H" "only_history (hm_get s1) (hm_get s2)"
    using memory.set_hidden_table [OF inv s1(2,3) k, where hide = False and peer = peer]
    unfolding restored by blast
  have "conversation memory_backend from_json peer limit s1 = Inr []" for limit
    using memory.conversation_table [OF s1(2,3) inv k, where peer = peer and limit = limit] by (simp add: visible_hidden)
  moreover have "only_history (hm_get s) (hm_get s2)" by (rule only_under_trans [OF s1(4) s2(4)])
  ultimately show ?thesis
    using s1(1-3) s2(1-3) k s(3)
    by (intro exI [of _ m] exI [of _ n] exI [of _ s1] exI [of _ s2])
      (simp add: hide_messages_for_peer_def unhide_messages_for_peer_def holds_history_def)
qed

text \<open>A serialiser for concrete inputs.\<close>

definition record_ser :: "message_record \<Rightarrow> bytes" where
  "record_ser r = unary (as_bytes (hr_id r)) @ unary (as_bytes (hr_peer_id r)) @ unary (as_bytes (hr_content r))
     @ nat_to_le 8 (unat (hr_timestamp r)) @ nat_to_le 8 (unat (hr_sender_timestamp r))
     @ [bit_byte (hr_direction r = Sent), bit_byte (hr_delivered r), bit_byte (hr_hidden r)]"

definition record_deser :: "bytes \<Rightarrow> string + message_record" where
  "record_deser bs =
     (let (i, bs1) = dec_unary bs; (p, bs2) = dec_unary bs1; (c, bs3) = dec_unary bs2; flags = drop 16 bs3
      in Inr \<lparr>hr_id = str_of i, hr_direction = (if flags ! 0 = 1 then Sent else Received), hr_peer_id = str_of p,
              hr_content = str_of c, hr_timestamp = word_of_nat (nat_of_le (take 8 bs3)),
              hr_sender_timestamp = word_of_nat (nat_of_le (take 8 (drop 8 bs3))),
              hr_delivered = (flags ! 1 = 1), hr_hidden = (flags ! 2 = 1)\<rparr>)"

lemma record_deser_ser: "record_deser (record_ser r) = Inr r"
proof -
  have dir: "(if hr_direction r = Sent then Sent else Received) = hr_direction r" by (cases "hr_direction r") simp_all
  show ?thesis
    unfolding record_deser_def record_ser_def Let_def dec_unary prod.case by (simp add: le64_inverse dir)
qed

definition sample_record :: "string \<Rightarrow> string \<Rightarrow> u64 \<Rightarrow> message_record" where
  "sample_record i peer t =
     \<lparr>hr_id = i, hr_direction = Received, hr_peer_id = peer, hr_content = ''hi'', hr_timestamp = t,
      hr_sender_timestamp = t, hr_delivered = True, hr_hidden = False\<rparr>"

definition sample_history :: memory_storage where
  "sample_history = [(msg_key ''a'', record_ser (sample_record ''a'' ''p'' 5)), (msg_key ''b'', record_ser (sample_record ''b'' ''P'' 9))]"

definition sample_messages :: "string \<rightharpoonup> message_record" where
  "sample_messages = [''a'' \<mapsto> sample_record ''a'' ''p'' 5, ''b'' \<mapsto> sample_record ''b'' ''P'' 9]"

lemma sample_holds: "holds_history record_ser sample_history sample_messages"
  by (auto simp: holds_history_def table_def keyed_def sample_history_def sample_messages_def sample_record_def)

theorem conversation_exact_witness:
  "\<exists>rs. conversation memory_backend record_deser ''P'' 1 sample_history = Inr rs
    \<and> listing (visible_with ''P'' sample_messages) 1 rs"
  by (rule conversation_exact [OF sample_holds record_deser_ser])

theorem hide_unhide_lossless_witness:
  "\<exists>m n s1 s2. hide_messages_for_peer memory_backend (\<lambda>r. Inr (record_ser r)) record_deser ''P'' sample_history = (Inr m, s1)
    \<and> (\<forall>limit. conversation memory_backend record_deser ''P'' limit s1 = Inr [])
    \<and> holds_history record_ser s1 (map_option (with_hidden True ''P'') \<circ> sample_messages)
    \<and> unhide_messages_for_peer memory_backend (\<lambda>r. Inr (record_ser r)) record_deser ''P'' s1 = (Inr n, s2)
    \<and> holds_history record_ser s2 sample_messages \<and> only_history (hm_get sample_history) (hm_get s2)"
  by (rule hide_unhide_lossless [OF sample_holds record_deser_ser])
    (auto simp: sample_messages_def sample_record_def ran_def split: if_splits)

end
