(* ===== verification/Store_Logs.thy ===== *)
theory Store_Logs
  imports Store_Table
begin

text \<open>
  The compact log of \<open>src/core/src/store/logs.rs\<close>: one summary per distinct line with the times of its
  occurrences as differences, kept in a cache and written below the prefix \<open>log_sum_\<close>. The clock, the hash of a line
  and the JSON conversions are arguments. The lemmas show that the differences give back the time of the last
  occurrence, also after compaction, that the install time survives a restart and what pruning removes.
\<close>

section \<open>Definitions\<close>

record log_summary =
  ls_content :: string
  ls_deltas :: "u32 list"

record log_manager =
  lm_install_time :: u64
  lm_cache :: "(u64, log_summary) hmap"

abbreviation install_time_key :: bytes where
  "install_time_key \<equiv> as_bytes ''metadata_install_time''"

definition init_install_time :: "'s storage_backend \<Rightarrow> u64 \<Rightarrow> 's \<Rightarrow> u64 \<times> 's" where
  "init_install_time B now s = (now, snd (bk_put B install_time_key (as_bytes (decimal (unat now))) s))"

text \<open>The lossy conversion of the stored bytes to text changes no digit, and what it does change is not a number.\<close>

definition log_manager_new :: "'s storage_backend \<Rightarrow> u64 \<Rightarrow> 's \<Rightarrow> log_manager \<times> 's" where
  "log_manager_new B now s =
     (let (install_time, s') =
        (case bk_get B install_time_key s of
           Inr (Some data) \<Rightarrow> (case parse_u64 (str_of data) of Some t \<Rightarrow> (t, s) | None \<Rightarrow> init_install_time B now s)
         | _ \<Rightarrow> init_install_time B now s)
      in (\<lparr>lm_install_time = install_time, lm_cache = []\<rparr>, s'))"

definition log_key :: "u64 \<Rightarrow> bytes" where
  "log_key h = table_key ''log_sum_'' (decimal (unat h))"

definition load_summary ::
  "'s storage_backend \<Rightarrow> (bytes \<Rightarrow> string + log_summary) \<Rightarrow> u64 \<Rightarrow> string \<Rightarrow> 's \<Rightarrow> log_summary" where
  "load_summary B from_json h line s =
     (let fresh = \<lparr>ls_content = line, ls_deltas = []\<rparr>
      in case bk_get B (log_key h) s of
           Inr (Some data) \<Rightarrow> (case from_json data of Inr summary \<Rightarrow> summary | Inl _ \<Rightarrow> fresh)
         | _ \<Rightarrow> fresh)"

definition push_delta :: "u64 \<Rightarrow> u64 \<Rightarrow> u32 list \<Rightarrow> u32 list" where
  "push_delta install_time now ds =
     (if ds = [] then [ucast (sat_sub now install_time)]
      else let last_abs = foldl (\<lambda>a d. a + ucast d) install_time ds
           in ds @ [ucast (sat_sub now last_abs)])"

definition compact_deltas :: "u32 list \<Rightarrow> u32 list" where
  "compact_deltas ds =
     (if length ds > 1000 then
        let sum_pruned = ucast (min (sum_list (map ucast (take 501 ds)) :: u64) (2 ^ 32 - 1))
        in (drop 500 ds)[0 := sum_pruned]
      else ds)"

definition record_log ::
  "'s storage_backend \<Rightarrow> (bytes \<Rightarrow> string + log_summary) \<Rightarrow> (bytes \<Rightarrow> u64) \<Rightarrow> 's \<Rightarrow> u64 \<Rightarrow> string \<Rightarrow> log_manager \<Rightarrow> log_manager" where
  "record_log B from_json hasher s now line lm =
     (let h = hasher (as_bytes line);
          entry = (case hm_get (lm_cache lm) h of Some summary \<Rightarrow> summary | None \<Rightarrow> load_summary B from_json h line s)
      in lm\<lparr>lm_cache := hm_insert h
             (entry\<lparr>ls_deltas := compact_deltas (push_delta (lm_install_time lm) now (ls_deltas entry))\<rparr>) (lm_cache lm)\<rparr>)"

text \<open>Draining the cache empties it also when a write fails.\<close>

fun put_summaries ::
  "'s storage_backend \<Rightarrow> (log_summary \<Rightarrow> string + bytes) \<Rightarrow> (u64, log_summary) hmap \<Rightarrow> 's \<Rightarrow> (core_error + unit) \<times> 's" where
  "put_summaries B to_json [] s = (Inr (), s)"
| "put_summaries B to_json ((h, summary) # cache) s =
     (case to_json summary of
        Inl _ \<Rightarrow> (Inl Internal, s)
      | Inr v \<Rightarrow> (case bk_put B (log_key h) v s of
                   (Inl _, s') \<Rightarrow> (Inl StorageError, s')
                 | (Inr _, s') \<Rightarrow> put_summaries B to_json cache s'))"

definition logs_flush ::
  "'s storage_backend \<Rightarrow> (log_summary \<Rightarrow> string + bytes) \<Rightarrow> log_manager \<Rightarrow> 's \<Rightarrow> (core_error + unit) \<times> log_manager \<times> 's" where
  "logs_flush B to_json lm s =
     (case put_summaries B to_json (lm_cache lm) s of
        (Inl e, s') \<Rightarrow> (Inl e, lm\<lparr>lm_cache := []\<rparr>, s')
      | (Inr _, s') \<Rightarrow> (Inr (), lm\<lparr>lm_cache := []\<rparr>, snd (bk_flush B s')))"

definition last_occurrence :: "u64 \<Rightarrow> u32 list \<Rightarrow> u64" where
  "last_occurrence install_time ds = foldl (\<lambda>a d. sat_add a (ucast d)) install_time ds"

definition occurrence_of :: "(bytes \<Rightarrow> string + log_summary) \<Rightarrow> u64 \<Rightarrow> bytes \<Rightarrow> u64" where
  "occurrence_of from_json install_time v =
     (case from_json v of Inl _ \<Rightarrow> 0 | Inr summary \<Rightarrow> last_occurrence install_time (ls_deltas summary))"

definition prune_oldest ::
  "'s storage_backend \<Rightarrow> (log_summary \<Rightarrow> string + bytes) \<Rightarrow> (bytes \<Rightarrow> string + log_summary) \<Rightarrow> nat \<Rightarrow> log_manager \<Rightarrow> 's \<Rightarrow>
   (core_error + u32) \<times> log_manager \<times> 's" where
  "prune_oldest B to_json from_json n lm s =
     (case logs_flush B to_json lm s of
        (Inl e, lm', s') \<Rightarrow> (Inl e, lm', s')
      | (Inr _, lm', s') \<Rightarrow>
          (case bk_scan_prefix B (as_bytes ''log_sum_'') s' of
             Inl _ \<Rightarrow> (Inl StorageError, lm', s')
           | Inr all \<Rightarrow>
               let pruned = take n (sort_key snd (map (\<lambda>(k, v). (k, occurrence_of from_json (lm_install_time lm') v)) all))
               in case remove_each B (map fst pruned) s' of
                    (r, s'') \<Rightarrow> (try_res r (\<lambda>_. Inr (word_of_nat (length pruned))), lm', s'')))"

definition export_all ::
  "'s storage_backend \<Rightarrow> (log_summary \<Rightarrow> string + bytes) \<Rightarrow> (bytes \<Rightarrow> string + log_summary) \<Rightarrow> (log_summary list \<Rightarrow> string + string) \<Rightarrow>
   log_manager \<Rightarrow> 's \<Rightarrow> (core_error + string) \<times> log_manager \<times> 's" where
  "export_all B to_json from_json to_string_pretty lm s =
     (case logs_flush B to_json lm s of
        (Inl e, lm', s') \<Rightarrow> (Inl e, lm', s')
      | (Inr _, lm', s') \<Rightarrow>
          (try_res (storage_res (bk_scan_prefix B (as_bytes ''log_sum_'') s')) (\<lambda>all.
           try_res (parse_all from_json all) (\<lambda>logs. json_res (to_string_pretty logs))), lm', s'))"

section \<open>Times as differences\<close>

definition delta_sum :: "u32 list \<Rightarrow> nat" where
  "delta_sum ds = sum_list (map unat ds)"

lemma delta_sum_simps [simp]:
  "delta_sum [] = 0" "delta_sum (d # ds) = unat d + delta_sum ds" "delta_sum (ds @ es) = delta_sum ds + delta_sum es"
  by (simp_all add: delta_sum_def)

lemma unat_ucast_u64 [simp]: "unat (ucast d :: u64) = unat (d :: u32)"
  by (simp add: unsigned_ucast_eq take_bit_nat_eq_self unat_bound [THEN less_trans])

lemma foldl_wrapping: "unat a + delta_sum ds < 2 ^ 64 \<Longrightarrow> unat (foldl (\<lambda>a d. a + ucast d) a ds) = unat a + delta_sum ds"
  for a :: u64
proof (induction ds arbitrary: a)
  case (Cons d ds)
  have "unat (a + ucast d) = unat a + unat d" using Cons.prems by (subst unat_add_lem [THEN iffD1]) simp_all
  then show ?case using Cons.IH [of "a + ucast d"] Cons.prems by simp
qed simp

lemma last_occurrence_sum: "unat a + delta_sum ds < 2 ^ 64 \<Longrightarrow> unat (last_occurrence a ds) = unat a + delta_sum ds"
proof (induction ds arbitrary: a)
  case (Cons d ds)
  have "unat (sat_add a (ucast d)) = unat a + unat d" using Cons.prems by (simp add: unat_sat_add)
  then show ?case using Cons.IH [of "sat_add a (ucast d)"] Cons.prems by (simp add: last_occurrence_def)
qed (simp add: last_occurrence_def)

lemma unat_sum_list_u64: "delta_sum ds < 2 ^ 64 \<Longrightarrow> unat (sum_list (map ucast ds) :: u64) = delta_sum ds"
proof (induction ds)
  case (Cons d ds)
  then have "unat (ucast d :: u64) + unat (sum_list (map ucast ds) :: u64) < 2 ^ 64" by simp
  then show ?case using Cons by (simp add: unat_add_lem [THEN iffD1])
qed simp

text \<open>The differences after an occurrence at time \<open>t\<close>.\<close>

definition dates :: "u64 \<Rightarrow> u64 \<Rightarrow> u32 list \<Rightarrow> bool" where
  "dates install_time t ds \<longleftrightarrow> ds \<noteq> [] \<and> length ds \<le> 1000 \<and> unat install_time + delta_sum ds = unat t"

lemma unat_ucast_u32: "unat w < 2 ^ 32 \<Longrightarrow> unat (ucast w :: u32) = unat w" for w :: u64
  by (simp add: unsigned_ucast_eq take_bit_nat_eq_self)

lemma push_delta_sum:
  assumes "install_time \<le> t" and "unat t - unat install_time < 2 ^ 32"
    and "ds = [] \<or> dates install_time t0 ds" and "ds \<noteq> [] \<longrightarrow> t0 \<le> t"
  shows "unat install_time + delta_sum (push_delta install_time t ds) = unat t"
proof (cases "ds = []")
  case True
  then show ?thesis using assms(1,2) by (simp add: push_delta_def unat_ucast_u32 unat_sat_sub word_le_nat_alt)
next
  case False
  then have d: "unat install_time + delta_sum ds = unat t0" "unat t0 \<le> unat t"
    using assms(3,4) by (simp_all add: dates_def word_le_nat_alt)
  have "unat (foldl (\<lambda>a d. a + ucast d) install_time ds) = unat t0"
    using d(1) unat_bound [of t0] by (subst foldl_wrapping) simp_all
  then show ?thesis using False d assms(2) by (simp add: push_delta_def Let_def unat_ucast_u32 unat_sat_sub)
qed

lemma compact_deltas_sum:
  assumes "delta_sum ds < 2 ^ 32"
  shows "delta_sum (compact_deltas ds) = delta_sum ds"
proof (cases "length ds > 1000")
  case True
  let ?s = "sum_list (map ucast (take 501 ds)) :: u64"
  obtain d rest where rest: "drop 500 ds = d # rest" using True by (cases "drop 500 ds") simp_all
  have split: "take 501 ds = take 500 ds @ [d]" "drop 501 ds = rest"
  proof -
    show "take 501 ds = take 500 ds @ [d]"
      using rest True take_Suc_conv_app_nth [of 500 ds] nth_via_drop [OF rest] by simp
    show "drop 501 ds = rest" using rest drop_drop [of 1 500 ds] by simp
  qed
  have total: "delta_sum ds = delta_sum (take 501 ds) + delta_sum rest"
    by (simp only: split(2) [symmetric] delta_sum_simps(3) [symmetric] append_take_drop_id)
  then have s: "unat ?s = delta_sum (take 501 ds)" using assms by (subst unat_sum_list_u64) simp_all
  then have "unat ?s < 2 ^ 32" using total assms by simp
  then have "min ?s (2 ^ 32 - 1) = ?s" by (simp add: min_def word_le_nat_alt)
  then show ?thesis using True rest s total \<open>unat ?s < 2 ^ 32\<close> by (simp add: compact_deltas_def Let_def unat_ucast_u32)
qed (simp add: compact_deltas_def)

lemma compact_deltas_length: "length ds \<le> 1001 \<Longrightarrow> length (compact_deltas ds) \<le> 1000 \<and> (ds \<noteq> [] \<longrightarrow> compact_deltas ds \<noteq> [])"
  by (auto simp: compact_deltas_def Let_def)

lemma delta_step:
  assumes "install_time \<le> t" and "unat t - unat install_time < 2 ^ 32"
    and "ds = [] \<or> dates install_time t0 ds" and "ds \<noteq> [] \<longrightarrow> t0 \<le> t"
  shows "dates install_time t (compact_deltas (push_delta install_time t ds))"
proof -
  let ?ds = "push_delta install_time t ds"
  have sum: "unat install_time + delta_sum ?ds = unat t" by (rule push_delta_sum [OF assms])
  then have "delta_sum (compact_deltas ?ds) = delta_sum ?ds" using assms(2) by (intro compact_deltas_sum) simp
  moreover have "length ?ds \<le> 1001" "?ds \<noteq> []" using assms(3) by (auto simp: push_delta_def dates_def Let_def)
  ultimately show ?thesis using compact_deltas_length [of ?ds] sum by (simp add: dates_def)
qed

definition entry_of :: "u64 \<Rightarrow> log_manager \<Rightarrow> log_summary" where
  "entry_of h lm = the (hm_get (lm_cache lm) h)"

lemma record_log_step:
  fixes hasher :: "bytes \<Rightarrow> u64"
  defines "h \<equiv> \<lambda>line. hasher (as_bytes line)"
  shows "lm_install_time (record_log B from_json hasher s now line lm) = lm_install_time lm"
    and "ls_deltas (entry_of (h line) (record_log B from_json hasher s now line lm)) =
      compact_deltas (push_delta (lm_install_time lm) now
        (case hm_get (lm_cache lm) (h line) of Some e \<Rightarrow> ls_deltas e | None \<Rightarrow> ls_deltas (load_summary B from_json (h line) line s)))"
    and "hm_get (lm_cache (record_log B from_json hasher s now line lm)) (h line) \<noteq> None"
  by (simp_all add: record_log_def Let_def entry_of_def h_def split: option.split)

lemma record_log_dates:
  assumes "lm_install_time lm \<le> t" and "unat t - unat (lm_install_time lm) < 2 ^ 32"
    and "hm_get (lm_cache lm) (hasher (as_bytes line)) = None \<and> ls_deltas (load_summary B from_json (hasher (as_bytes line)) line s) = []
      \<or> (\<exists>e t0. hm_get (lm_cache lm) (hasher (as_bytes line)) = Some e \<and> dates (lm_install_time lm) t0 (ls_deltas e) \<and> t0 \<le> t)"
  shows "dates (lm_install_time lm) t (ls_deltas (entry_of (hasher (as_bytes line)) (record_log B from_json hasher s t line lm)))"
  using assms(3)
proof (elim disjE exE conjE)
  fix e t0
  assume "hm_get (lm_cache lm) (hasher (as_bytes line)) = Some e" "dates (lm_install_time lm) t0 (ls_deltas e)" "t0 \<le> t"
  then show ?thesis unfolding record_log_step(2) using delta_step [OF assms(1,2), of "ls_deltas e" t0] by simp
qed (simp add: record_log_step(2) delta_step [OF assms(1,2)])

lemma record_logs_dates:
  fixes lm :: log_manager and ts :: "u64 list" and hasher :: "bytes \<Rightarrow> u64" and B :: "'s storage_backend"
    and from_json :: "bytes \<Rightarrow> string + log_summary" and s :: 's and line :: string
  defines "run \<equiv> \<lambda>ts. fold (\<lambda>t. record_log B from_json hasher s t line) ts lm"
  assumes "sorted ts" and "ts \<noteq> []" and "lm_install_time lm \<le> hd ts" and "unat (last ts) - unat (lm_install_time lm) < 2 ^ 32"
    and "hm_get (lm_cache lm) (hasher (as_bytes line)) = None" and "ls_deltas (load_summary B from_json (hasher (as_bytes line)) line s) = []"
  shows "lm_install_time (run ts) = lm_install_time lm \<and> hm_get (lm_cache (run ts)) (hasher (as_bytes line)) \<noteq> None
    \<and> dates (lm_install_time lm) (last ts) (ls_deltas (entry_of (hasher (as_bytes line)) (run ts)))"
  using assms(2-5)
proof (induction ts rule: rev_induct)
  case (snoc t ts)
  let ?h = "hasher (as_bytes line)" and ?i = "lm_install_time lm"
  have run: "run (ts @ [t]) = record_log B from_json hasher s t line (run ts)" by (simp add: run_def)
  show ?case
  proof (cases "ts = []")
    case True
    then have "run ts = lm" by (simp add: run_def)
    then show ?thesis
      using snoc.prems True assms(6,7) record_log_dates [of lm t hasher line B from_json s]
        record_log_step(1,3) [of B from_json hasher s t line lm] unfolding run by simp
  next
    case False
    then have le: "last ts \<le> t" "hd ts \<le> t" using snoc.prems(1) by (simp_all add: sorted_append)
    then have bound: "unat (last ts) - unat ?i < 2 ^ 32" "?i \<le> hd ts" "?i \<le> t"
      using snoc.prems(3,4) False by (auto simp: word_le_nat_alt)
    then have IH: "lm_install_time (run ts) = ?i" "hm_get (lm_cache (run ts)) ?h \<noteq> None"
      "dates ?i (last ts) (ls_deltas (entry_of ?h (run ts)))"
      using snoc.IH snoc.prems(1) False by (simp_all add: sorted_append)
    then obtain e where e: "hm_get (lm_cache (run ts)) ?h = Some e" "entry_of ?h (run ts) = e" by (auto simp: entry_of_def)
    have "dates ?i t (ls_deltas (entry_of ?h (run (ts @ [t]))))"
      using record_log_dates [of "run ts" t hasher line B from_json s] IH e le(1) bound(3) snoc.prems(4) unfolding run by auto
    then show ?thesis using record_log_step(1,3) [of B from_json hasher s t line "run ts"] IH(1) unfolding run by simp
  qed
qed simp


section \<open>Over a reliable backend\<close>

context reliable_backend
begin

lemma put_summaries_ok:
  "sound s \<Longrightarrow> \<exists>s'. put_summaries B (\<lambda>r. Inr (js r)) cache s = (Inr (), s') \<and> sound s' \<and> only_under {''log_sum_''} (entries s) (entries s')"
proof (induction cache arbitrary: s)
  case (Cons c cache)
  obtain h e where c: "c = (h, e)" by (cases c)
  obtain s1 where s1: "bk_put B (log_key h) (js e) s = (Inr (), s1)" "sound s1" "entries s1 = (entries s)(log_key h \<mapsto> js e)"
    by (rule putE [OF Cons.prems])
  obtain s' where s': "put_summaries B (\<lambda>r. Inr (js r)) cache s1 = (Inr (), s')" "sound s'" "only_under {''log_sum_''} (entries s1) (entries s')"
    using Cons.IH [OF s1(2)] by blast
  have "only_under {''log_sum_''} (entries s) (entries s1)" unfolding s1(3) log_key_def by (rule only_under_update) simp
  from only_under_trans [OF this s'(3)] show ?case using c s1 s' by simp
qed simp

lemma logs_flush_ok:
  assumes "sound s"
  shows "\<exists>s'. logs_flush B (\<lambda>r. Inr (js r)) lm s = (Inr (), lm\<lparr>lm_cache := []\<rparr>, s') \<and> sound s' \<and> only_under {''log_sum_''} (entries s) (entries s')"
proof -
  obtain s1 where s1: "put_summaries B (\<lambda>r. Inr (js r)) (lm_cache lm) s = (Inr (), s1)" "sound s1" "only_under {''log_sum_''} (entries s) (entries s1)"
    using put_summaries_ok [OF assms] by blast
  obtain s2 where "bk_flush B s1 = (Inr (), s2)" "sound s2" "entries s2 = entries s1" using flush_ok [OF s1(2)] by blast
  then show ?thesis using s1 by (simp add: logs_flush_def)
qed

lemma prune_oldest_ok:
  assumes "sound s"
  shows "\<exists>m s'. prune_oldest B (\<lambda>r. Inr (js r)) from_json n lm s = (Inr m, lm\<lparr>lm_cache := []\<rparr>, s') \<and> sound s'
    \<and> only_under {''log_sum_''} (entries s) (entries s')"
proof -
  let ?lm = "lm\<lparr>lm_cache := []\<rparr>" and ?p = "as_bytes ''log_sum_''"
  obtain s1 where s1: "logs_flush B (\<lambda>r. Inr (js r)) lm s = (Inr (), ?lm, s1)" "sound s1" "only_under {''log_sum_''} (entries s) (entries s1)"
    using logs_flush_ok [OF assms] by blast
  obtain es where es: "bk_scan_prefix B ?p s1 = Inr es" "set es = {(k, v). entries s1 k = Some v \<and> starts_with ?p k}"
    by (rule scanE [OF s1(2)])
  let ?ks = "map fst (take n (sort_key snd (map (\<lambda>(k, v). (k, occurrence_of from_json (lm_install_time ?lm) v)) es)))"
  obtain s2 where s2: "remove_each B ?ks s1 = (Inr (), s2)" "sound s2" "entries s2 = entries s1 |` (- set ?ks)"
    using remove_each_ok [OF s1(2)] by blast
  have "starts_with ?p k" if "k \<in> set ?ks" for k using that es(2) by (auto dest!: in_set_takeD)
  then have "only_under {''log_sum_''} (entries s1) (entries s2)" unfolding s2(3) by (intro only_under_restrict) simp
  from only_under_trans [OF s1(3) this] show ?thesis using s1 s2 by (simp add: prune_oldest_def es(1) Let_def)
qed

lemma install_time_kept:
  assumes "sound s" and "log_manager_new B now s = (lm, s')"
  shows "sound s' \<and> log_manager_new B now' s' = (lm, s')"
proof -
  let ?k = "install_time_key" and ?v = "as_bytes (decimal (unat now))"
  obtain s1 where s1: "bk_put B ?k ?v s = (Inr (), s1)" "sound s1" "entries s1 = (entries s)(?k \<mapsto> ?v)"
    by (rule putE [OF assms(1)])
  have "log_manager_new B now' s1 = (\<lparr>lm_install_time = now, lm_cache = []\<rparr>, s1)"
    using get_ok [OF s1(2), of ?k] s1(3) parse_u64_decimal [of now] by (simp add: log_manager_new_def)
  then show ?thesis
    using assms get_ok [OF assms(1), of ?k] s1(1,2)
    by (auto simp: log_manager_new_def init_install_time_def split: option.splits)
qed

end

section \<open>What the log promises\<close>

text \<open>
  The compact log gives back the time of the last occurrence: after a line has been recorded at
  any number of non-decreasing times less than 2^32 seconds after installation, the differences of its summary add up to
  the last time, although all but the newest are folded together whenever there are more than a thousand.
\<close>

lemma log_time_exact:
  assumes "sorted ts" and "ts \<noteq> []" and "lm_install_time lm \<le> hd ts" and "unat (last ts) - unat (lm_install_time lm) < 2 ^ 32"
    and "hm_get (lm_cache lm) (hasher (as_bytes line)) = None" and "hm_get s (log_key (hasher (as_bytes line))) = None"
  shows "\<exists>e. hm_get (lm_cache (fold (\<lambda>t. record_log memory_backend from_json hasher s t line) ts lm)) (hasher (as_bytes line)) = Some e
    \<and> length (ls_deltas e) \<le> 1000 \<and> last_occurrence (lm_install_time lm) (ls_deltas e) = last ts"
proof -
  let ?h = "hasher (as_bytes line)" and ?run = "fold (\<lambda>t. record_log memory_backend from_json hasher s t line) ts lm"
  have "ls_deltas (load_summary memory_backend from_json ?h line s) = []"
    using assms(6) by (simp add: load_summary_def Let_def memory_backend_def mem_get_def)
  from record_logs_dates [where hasher = hasher and line = line, OF assms(1-5) this]
  obtain e where e: "hm_get (lm_cache ?run) ?h = Some e" "dates (lm_install_time lm) (last ts) (ls_deltas e)"
    by (auto simp: entry_of_def)
  then have "unat (last_occurrence (lm_install_time lm) (ls_deltas e)) = unat (last ts)"
    using unat_bound [of "last ts"] last_occurrence_sum [of "lm_install_time lm" "ls_deltas e"] by (simp add: dates_def)
  then show ?thesis using e by (auto simp: dates_def word_unat_eq_iff)
qed

text \<open>
  The install time survives restarts: a log manager opened again on the same store has the install
  time of the first one, whatever the clock says then, and changes nothing.
\<close>

lemma install_time_persists:
  assumes "hm_wf s" and "log_manager_new memory_backend now s = (lm, s')"
  shows "log_manager_new memory_backend now' s' = (lm, s')"
  using memory.install_time_kept [OF assms] by blast

end
