(* ===== verification/Store_Outbox.thy ===== *)
theory Store_Outbox
  imports Store_Backend
begin

text \<open>
  The outbound queue of \<open>src/core/src/store/outbox.rs\<close>, with both of its backends: queues in memory, and
  one record per message in a \<open>StorageBackend\<close>. The effect of the storage manager's maintenance on the
  backend is an argument of the queue, as the code holds an optional \<open>StorageManager\<close>. Serialisation is a
  parameter. An abstract queue, a map from recipient and message id to the message, is what the
  persistent operations are shown to implement.
\<close>

section \<open>State\<close>

definition MAX_QUEUE_PER_PEER :: nat where
  "MAX_QUEUE_PER_PEER = 1000"

definition MAX_TOTAL_QUEUED :: nat where
  "MAX_TOTAL_QUEUED = 10000"

definition MAX_DELIVERY_ATTEMPTS :: u32 where
  "MAX_DELIVERY_ATTEMPTS = 12"

definition QUEUE_PREFIX :: bytes where
  "QUEUE_PREFIX = as_bytes ''outbox_''"

record queued_message =
  qm_message_id :: string
  qm_recipient_id :: string
  qm_envelope_data :: bytes
  qm_queued_at :: u64
  qm_attempts :: u32

type_synonym queues = "(string, queued_message list) hmap"

datatype 's outbox_backend = OutboxMemory queues nat | OutboxPersistent 's

record 's outbox =
  ob_backend :: "'s outbox_backend"
  ob_storage_manager :: "('s \<Rightarrow> 's) option"

definition outbox_new :: "'s outbox" where
  "outbox_new = \<lparr>ob_backend = OutboxMemory [] 0, ob_storage_manager = None\<rparr>"

definition outbox_persistent_with_storage :: "'s \<Rightarrow> ('s \<Rightarrow> 's) \<Rightarrow> 's outbox" where
  "outbox_persistent_with_storage backend perform_maintenance =
     \<lparr>ob_backend = OutboxPersistent backend, ob_storage_manager = Some perform_maintenance\<rparr>"

definition outbox_persistent :: "'s \<Rightarrow> 's outbox" where
  "outbox_persistent backend = \<lparr>ob_backend = OutboxPersistent backend, ob_storage_manager = None\<rparr>"

text \<open>Maintenance touches the storage backend only, never the queues in memory.\<close>

definition outbox_trigger_maintenance :: "'s outbox \<Rightarrow> 's outbox" where
  "outbox_trigger_maintenance ob =
     (case (ob_storage_manager ob, ob_backend ob) of
        (Some perform_maintenance, OutboxPersistent s) \<Rightarrow> ob\<lparr>ob_backend := OutboxPersistent (perform_maintenance s)\<rparr>
      | _ \<Rightarrow> ob)"

section \<open>Operations\<close>

definition peer_prefix :: "string \<Rightarrow> bytes" where
  "peer_prefix recipient_id = as_bytes (''outbox_'' @ recipient_id @ ''_'')"

definition queue_key :: "string \<Rightarrow> string \<Rightarrow> bytes" where
  "queue_key recipient_id message_id = as_bytes (''outbox_'' @ recipient_id @ ''_'' @ message_id)"

definition queue_of :: "queues \<Rightarrow> string \<Rightarrow> queued_message list" where
  "queue_of qs r = (case hm_get qs r of Some q \<Rightarrow> q | None \<Rightarrow> [])"

definition enqueue ::
  "'s storage_backend \<Rightarrow> (queued_message \<Rightarrow> string + bytes) \<Rightarrow> queued_message \<Rightarrow> 's outbox \<Rightarrow> 's outbox \<times> (string + unit)" where
  "enqueue B serialize msg ob =
     (case ob_backend ob of
        OutboxMemory queues queued \<Rightarrow>
          if MAX_TOTAL_QUEUED \<le> queued then (ob, Inl ''Outbox full (10000 messages)'')
          else let queue = queue_of queues (qm_recipient_id msg)
               in if MAX_QUEUE_PER_PEER \<le> length queue
                  then (ob, Inl (''Queue full for peer '' @ qm_recipient_id msg @ '' (1000 messages)''))
                  else (outbox_trigger_maintenance
                          (ob\<lparr>ob_backend := OutboxMemory (hm_insert (qm_recipient_id msg) (queue @ [msg]) queues) (queued + 1)\<rparr>),
                        Inr ())
      | OutboxPersistent db \<Rightarrow>
          if MAX_TOTAL_QUEUED \<le> count_or_zero B QUEUE_PREFIX db then (ob, Inl ''Outbox full (10000 messages)'')
          else if MAX_QUEUE_PER_PEER \<le> count_or_zero B (peer_prefix (qm_recipient_id msg)) db
          then (ob, Inl (''Queue full for peer '' @ qm_recipient_id msg @ '' (1000 messages)''))
          else (case serialize msg of
                 Inl _ \<Rightarrow> (outbox_trigger_maintenance ob, Inr ())
               | Inr bs \<Rightarrow>
                   (case bk_put B (queue_key (qm_recipient_id msg) (qm_message_id msg)) bs db of
                      (Inl e, db1) \<Rightarrow> (ob\<lparr>ob_backend := OutboxPersistent db1\<rparr>, Inl e)
                    | (Inr _, db1) \<Rightarrow>
                        (case bk_flush B db1 of
                           (Inl e, db2) \<Rightarrow> (ob\<lparr>ob_backend := OutboxPersistent db2\<rparr>, Inl e)
                         | (Inr _, db2) \<Rightarrow> (outbox_trigger_maintenance (ob\<lparr>ob_backend := OutboxPersistent db2\<rparr>), Inr ())))))"

definition peek_for_peer ::
  "'s storage_backend \<Rightarrow> (bytes \<Rightarrow> string + queued_message) \<Rightarrow> string \<Rightarrow> 's outbox \<Rightarrow> queued_message list" where
  "peek_for_peer B deserialize recipient_id ob =
     (case ob_backend ob of
        OutboxMemory queues _ \<Rightarrow> queue_of queues recipient_id
      | OutboxPersistent db \<Rightarrow> map snd (decoded deserialize (scan_or_empty B (peer_prefix recipient_id) db)))"

fun remove_first :: "('a \<Rightarrow> bool) \<Rightarrow> 'a list \<Rightarrow> 'a list" where
  "remove_first P [] = []"
| "remove_first P (x # xs) = (if P x then xs else x # remove_first P xs)"

fun remove_from_queues :: "string \<Rightarrow> queues \<Rightarrow> queues \<times> bool" where
  "remove_from_queues message_id [] = ([], False)"
| "remove_from_queues message_id ((r, queue) # qs) =
     (if \<exists>m \<in> set queue. qm_message_id m = message_id
      then ((r, remove_first (\<lambda>m. qm_message_id m = message_id) queue) # qs, True)
      else case remove_from_queues message_id qs of (qs', found) \<Rightarrow> ((r, queue) # qs', found))"

definition outbox_remove ::
  "'s storage_backend \<Rightarrow> (bytes \<Rightarrow> string + queued_message) \<Rightarrow> string \<Rightarrow> 's outbox \<Rightarrow> 's outbox \<times> bool" where
  "outbox_remove B deserialize message_id ob =
     (case ob_backend ob of
        OutboxMemory queues queued \<Rightarrow>
          (case remove_from_queues message_id queues of
             (queues', found) \<Rightarrow> if found then (ob\<lparr>ob_backend := OutboxMemory queues' (queued - 1)\<rparr>, True) else (ob, False))
      | OutboxPersistent db \<Rightarrow>
          (case find (\<lambda>(k, m). qm_message_id m = message_id) (decoded deserialize (scan_or_empty B QUEUE_PREFIX db)) of
             Some (k, m) \<Rightarrow> (ob\<lparr>ob_backend := OutboxPersistent (snd (bk_flush B (snd (bk_remove B k db))))\<rparr>, True)
           | None \<Rightarrow> (ob, False)))"

definition drain_for_peer ::
  "'s storage_backend \<Rightarrow> (bytes \<Rightarrow> string + queued_message) \<Rightarrow> string \<Rightarrow> 's outbox \<Rightarrow> 's outbox \<times> queued_message list" where
  "drain_for_peer B deserialize recipient_id ob =
     (case ob_backend ob of
        OutboxMemory queues queued \<Rightarrow>
          (case hm_get queues recipient_id of
             Some queue \<Rightarrow> (ob\<lparr>ob_backend := OutboxMemory (hm_remove recipient_id queues) (queued - length queue)\<rparr>, queue)
           | None \<Rightarrow> (ob, []))
      | OutboxPersistent db \<Rightarrow>
          let found = decoded deserialize (scan_or_empty B (peer_prefix recipient_id) db)
          in (ob\<lparr>ob_backend := OutboxPersistent (snd (bk_flush B (remove_keys B (map fst found) db)))\<rparr>, map snd found))"

definition attempted :: "queued_message \<Rightarrow> queued_message" where
  "attempted m = m\<lparr>qm_attempts := sat_add (qm_attempts m) 1\<rparr>"

fun bump_queue :: "string \<Rightarrow> queued_message list \<Rightarrow> queued_message list \<times> bool" where
  "bump_queue message_id [] = ([], False)"
| "bump_queue message_id (m # ms) =
     (if qm_message_id m = message_id then (attempted m # ms, MAX_DELIVERY_ATTEMPTS \<le> qm_attempts (attempted m))
      else case bump_queue message_id ms of (ms', exceeded) \<Rightarrow> (m # ms', exceeded))"

fun bump_queues :: "string \<Rightarrow> queues \<Rightarrow> queues \<times> bool" where
  "bump_queues message_id [] = ([], False)"
| "bump_queues message_id ((r, queue) # qs) =
     (if \<exists>m \<in> set queue. qm_message_id m = message_id
      then (case bump_queue message_id queue of (queue', exceeded) \<Rightarrow> ((r, queue') # qs, exceeded))
      else case bump_queues message_id qs of (qs', exceeded) \<Rightarrow> ((r, queue) # qs', exceeded))"

definition record_attempt ::
  "'s storage_backend \<Rightarrow> (queued_message \<Rightarrow> string + bytes) \<Rightarrow> (bytes \<Rightarrow> string + queued_message) \<Rightarrow> string \<Rightarrow> 's outbox \<Rightarrow>
   's outbox \<times> bool" where
  "record_attempt B serialize deserialize message_id ob =
     (case ob_backend ob of
        OutboxMemory queues queued \<Rightarrow>
          (case bump_queues message_id queues of
             (queues', exceeded) \<Rightarrow> (ob\<lparr>ob_backend := OutboxMemory queues' queued\<rparr>, exceeded))
      | OutboxPersistent db \<Rightarrow>
          (case find (\<lambda>(k, m). qm_message_id m = message_id) (decoded deserialize (scan_or_empty B QUEUE_PREFIX db)) of
             None \<Rightarrow> (ob, False)
           | Some (k, m) \<Rightarrow>
               (case serialize (attempted m) of
                  Inl _ \<Rightarrow> ob
                | Inr bs \<Rightarrow> ob\<lparr>ob_backend := OutboxPersistent (snd (bk_flush B (snd (bk_put B k bs db))))\<rparr>,
                MAX_DELIVERY_ATTEMPTS \<le> qm_attempts (attempted m))))"

definition outbox_total_count :: "'s storage_backend \<Rightarrow> 's outbox \<Rightarrow> nat" where
  "outbox_total_count B ob =
     (case ob_backend ob of OutboxMemory _ queued \<Rightarrow> queued | OutboxPersistent db \<Rightarrow> count_or_zero B QUEUE_PREFIX db)"

definition outbox_peer_count :: "'s storage_backend \<Rightarrow> (bytes \<Rightarrow> string + queued_message) \<Rightarrow> 's outbox \<Rightarrow> nat" where
  "outbox_peer_count B deserialize ob =
     (case ob_backend ob of
        OutboxMemory queues _ \<Rightarrow> length queues
      | OutboxPersistent db \<Rightarrow>
          card (set (map (\<lambda>(k, m). qm_recipient_id m) (decoded deserialize (scan_or_empty B QUEUE_PREFIX db)))))"

definition too_old :: "u64 \<Rightarrow> u64 \<Rightarrow> queued_message \<Rightarrow> bool" where
  "too_old now max_age_secs m \<longleftrightarrow> \<not> sat_sub now (qm_queued_at m) < max_age_secs"

definition outbox_remove_expired ::
  "'s storage_backend \<Rightarrow> (bytes \<Rightarrow> string + queued_message) \<Rightarrow> u64 \<Rightarrow> u64 \<Rightarrow> 's outbox \<Rightarrow> 's outbox \<times> nat" where
  "outbox_remove_expired B deserialize now max_age_secs ob =
     (case ob_backend ob of
        OutboxMemory queues queued \<Rightarrow>
          let retained = map (\<lambda>(r, q). (r, filter (\<lambda>m. \<not> too_old now max_age_secs m) q)) queues;
              removed = (\<Sum>(r, q)\<leftarrow>queues. length q - length (filter (\<lambda>m. \<not> too_old now max_age_secs m) q))
          in (ob\<lparr>ob_backend := OutboxMemory (filter (\<lambda>(r, q). q \<noteq> []) retained) (queued - removed)\<rparr>, removed)
      | OutboxPersistent db \<Rightarrow>
          let keys_to_remove = map fst (filter (\<lambda>(k, m). too_old now max_age_secs m)
                                 (decoded deserialize (scan_or_empty B QUEUE_PREFIX db)))
          in (ob\<lparr>ob_backend := OutboxPersistent (snd (bk_flush B (remove_keys B keys_to_remove db)))\<rparr>,
              length keys_to_remove))"

section \<open>The core's use of the outbox\<close>

text \<open>
  \<open>IronCore\<close> queues a prepared message with a time stamp in milliseconds, and its maintenance removes
  what is older than seven days.
\<close>

definition core_queue_message ::
  "'s storage_backend \<Rightarrow> (queued_message \<Rightarrow> string + bytes) \<Rightarrow> u64 \<Rightarrow> string \<Rightarrow> string \<Rightarrow> bytes \<Rightarrow> 's outbox \<Rightarrow> 's outbox" where
  "core_queue_message B serialize now_millis message_id recipient_id envelope_data ob =
     fst (enqueue B serialize
       \<lparr>qm_message_id = message_id, qm_recipient_id = recipient_id, qm_envelope_data = envelope_data,
        qm_queued_at = now_millis, qm_attempts = 0\<rparr> ob)"

definition core_outbox_maintenance ::
  "'s storage_backend \<Rightarrow> (bytes \<Rightarrow> string + queued_message) \<Rightarrow> u64 \<Rightarrow> 's outbox \<Rightarrow> 's outbox \<times> nat" where
  "core_outbox_maintenance B deserialize now_secs ob = outbox_remove_expired B deserialize now_secs 604800 ob"

section \<open>The queues in memory\<close>

definition queued_total :: "queues \<Rightarrow> nat" where
  "queued_total qs = (\<Sum>(r, q)\<leftarrow>qs. length q)"

definition queue_ok :: "string \<times> queued_message list \<Rightarrow> bool" where
  "queue_ok p \<longleftrightarrow> length (snd p) \<le> MAX_QUEUE_PER_PEER \<and> (\<forall>m \<in> set (snd p). qm_recipient_id m = fst p)"

definition queues_inv :: "queues \<Rightarrow> nat \<Rightarrow> bool" where
  "queues_inv qs n \<longleftrightarrow> hm_wf qs \<and> n = queued_total qs \<and> n \<le> MAX_TOTAL_QUEUED \<and>
     list_all queue_ok qs"

definition outbox_memory_inv :: "'s outbox \<Rightarrow> bool" where
  "outbox_memory_inv ob \<longleftrightarrow> (\<exists>qs n. ob_backend ob = OutboxMemory qs n \<and> queues_inv qs n)"

lemma queued_total_simps [simp]:
  "queued_total [] = 0" "queued_total ((r, q) # qs) = length q + queued_total qs"
  by (simp_all add: queued_total_def)

lemma queued_total_insert:
  "hm_wf qs \<Longrightarrow> queued_total (hm_insert r q qs) + length (queue_of qs r) = queued_total qs + length q"
proof (induction qs)
  case (Cons p qs)
  obtain r' q' where p: "p = (r', q')" by (cases p)
  show ?case using Cons by (auto simp: p queue_of_def)
qed (simp add: queue_of_def)

lemma queued_total_remove:
  "hm_wf qs \<Longrightarrow> hm_get qs r = Some q \<Longrightarrow> queued_total (hm_remove r qs) + length q = queued_total qs"
proof (induction qs)
  case (Cons p qs)
  obtain r' q' where p: "p = (r', q')" by (cases p)
  have "hm_remove r qs = qs" if "r \<notin> fst ` set qs" using that by (simp add: delete_idem)
  then show ?case using Cons by (auto simp: p split: if_splits)
qed simp

lemma length_remove_first:
  "\<exists>x \<in> set xs. P x \<Longrightarrow> Suc (length (remove_first P xs)) = length xs"
  by (induction xs) auto

lemma set_remove_first: "set (remove_first P xs) \<subseteq> set xs"
  by (induction xs) auto

lemma remove_from_queues_inv:
  assumes "remove_from_queues mid qs = (qs', found)"
    and "list_all queue_ok qs"
  shows "map fst qs' = map fst qs \<and> (if found then Suc (queued_total qs') = queued_total qs else qs' = qs)
    \<and> list_all queue_ok qs'"
  using assms
proof (induction qs arbitrary: qs' found)
  case (Cons p qs)
  obtain r q where p: "p = (r, q)" by (cases p)
  show ?case
  proof (cases "\<exists>m \<in> set q. qm_message_id m = mid")
    case True
    then have "Suc (length (remove_first (\<lambda>m. qm_message_id m = mid) q)) = length q"
      by (rule length_remove_first)
    moreover have "queue_ok (r, remove_first (\<lambda>m. qm_message_id m = mid) q)" if "queue_ok (r, q)"
      using that calculation set_remove_first [of "\<lambda>m. qm_message_id m = mid" q] by (auto simp: queue_ok_def)
    ultimately show ?thesis using Cons.prems True by (auto simp: p)
  next
    case False
    then obtain qs1 where "remove_from_queues mid qs = (qs1, found)" "qs' = (r, q) # qs1"
      using Cons.prems by (auto simp: p split: prod.splits)
    then show ?thesis using Cons.IH [of qs1 found] Cons.prems(2) by (auto simp: p split: if_splits)
  qed
qed simp

lemma bump_queue_same:
  "length (fst (bump_queue mid ms)) = length ms \<and> map qm_recipient_id (fst (bump_queue mid ms)) = map qm_recipient_id ms"
  by (induction ms) (auto simp: attempted_def case_prod_unfold)

lemma bump_queue_ok: "queue_ok (r, q) \<Longrightarrow> queue_ok (r, fst (bump_queue mid q))"
  using bump_queue_same [of mid q] by (simp add: queue_ok_def) (metis list.set_map imageE imageI)

lemma bump_queues_inv:
  assumes "list_all queue_ok qs"
  shows "map fst (fst (bump_queues mid qs)) = map fst qs \<and> queued_total (fst (bump_queues mid qs)) = queued_total qs
    \<and> list_all queue_ok (fst (bump_queues mid qs))"
  using assms
proof (induction qs)
  case (Cons p qs)
  obtain r q where p: "p = (r, q)" by (cases p)
  show ?case using Cons bump_queue_same [of mid q] bump_queue_ok [of r q mid] by (auto simp: p case_prod_unfold)
qed simp

lemma retained_total:
  "queued_total (filter (\<lambda>(r, q). q \<noteq> []) (map (\<lambda>(r, q). (r, filter P q)) qs))
     + (\<Sum>(r, q)\<leftarrow>qs. length q - length (filter P q)) = queued_total qs"
proof (induction qs)
  case (Cons p qs)
  obtain r q where p: "p = (r, q)" by (cases p)
  let ?kept = "\<lambda>qs. queued_total (filter (\<lambda>(r, q). q \<noteq> []) (map (\<lambda>(r, q). (r, filter P q)) qs))"
    and ?gone = "\<lambda>qs. \<Sum>(r, q)\<leftarrow>qs. length q - length (filter P q)"
  have "?kept (p # qs) = length (filter P q) + ?kept qs" "?gone (p # qs) = (length q - length (filter P q)) + ?gone qs"
    "queued_total (p # qs) = length q + queued_total qs"
    by (auto simp: p)
  then show ?case using Cons length_filter_le [of P q] by linarith
qed simp

lemma set_hm_insertD: "p \<in> set (hm_insert k v m) \<Longrightarrow> p = (k, v) \<or> p \<in> set m"
  by (induction m) (auto split: if_splits)

lemma enqueue_memory_inv: "outbox_memory_inv ob \<Longrightarrow> outbox_memory_inv (fst (enqueue B ser msg ob))"
proof -
  assume "outbox_memory_inv ob"
  then obtain qs n where ob: "ob_backend ob = OutboxMemory qs n" and inv: "queues_inv qs n"
    by (auto simp: outbox_memory_inv_def)
  show ?thesis
  proof (cases "MAX_TOTAL_QUEUED \<le> n \<or> MAX_QUEUE_PER_PEER \<le> length (queue_of qs (qm_recipient_id msg))")
    case True
    then show ?thesis using ob inv by (auto simp: enqueue_def Let_def outbox_memory_inv_def)
  next
    case False
    let ?r = "qm_recipient_id msg"
    let ?q = "queue_of qs ?r @ [msg]"
    have "queue_ok (?r, ?q)"
      using inv False by (auto simp: queue_ok_def queues_inv_def queue_of_def list_all_iff split: option.splits dest: map_of_SomeD)
    then have "list_all queue_ok (hm_insert ?r ?q qs)"
      using inv by (auto simp: queues_inv_def list_all_iff dest: set_hm_insertD)
    then have "queues_inv (hm_insert ?r ?q qs) (n + 1)"
      using inv False queued_total_insert [of qs ?r ?q] by (simp add: queues_inv_def)
    then show ?thesis
      using False ob
      by (auto simp: enqueue_def Let_def outbox_memory_inv_def outbox_trigger_maintenance_def split: option.splits)
  qed
qed


lemma outbox_remove_memory_inv: "outbox_memory_inv ob \<Longrightarrow> outbox_memory_inv (fst (outbox_remove B deser mid ob))"
proof -
  assume "outbox_memory_inv ob"
  then obtain qs n where ob: "ob_backend ob = OutboxMemory qs n" and inv: "queues_inv qs n"
    by (auto simp: outbox_memory_inv_def)
  obtain qs' found where rem: "remove_from_queues mid qs = (qs', found)" by (cases "remove_from_queues mid qs")
  have "queues_inv qs' (n - 1)" if found
    using remove_from_queues_inv [OF rem] inv that by (auto simp: queues_inv_def)
  then show ?thesis using ob inv by (auto simp: outbox_remove_def rem outbox_memory_inv_def)
qed

lemma drain_memory_inv: "outbox_memory_inv ob \<Longrightarrow> outbox_memory_inv (fst (drain_for_peer B deser r ob))"
proof -
  assume "outbox_memory_inv ob"
  then obtain qs n where ob: "ob_backend ob = OutboxMemory qs n" and inv: "queues_inv qs n"
    by (auto simp: outbox_memory_inv_def)
  have "queues_inv (hm_remove r qs) (n - length q)" if "hm_get qs r = Some q" for q
    using inv queued_total_remove [OF _ that] by (auto simp: queues_inv_def list_all_iff set_hm_remove)
  then show ?thesis using ob inv by (auto simp: drain_for_peer_def outbox_memory_inv_def split: option.splits)
qed

lemma attempt_memory_inv: "outbox_memory_inv ob \<Longrightarrow> outbox_memory_inv (fst (record_attempt B ser deser mid ob))"
proof -
  assume "outbox_memory_inv ob"
  then obtain qs n where ob: "ob_backend ob = OutboxMemory qs n" and inv: "queues_inv qs n"
    by (auto simp: outbox_memory_inv_def)
  have "queues_inv (fst (bump_queues mid qs)) n"
    using bump_queues_inv [of qs mid] inv by (simp add: queues_inv_def)
  then show ?thesis using ob by (simp add: record_attempt_def outbox_memory_inv_def case_prod_unfold)
qed

lemma queue_ok_filter: "queue_ok (r, q) \<Longrightarrow> queue_ok (r, filter P q)"
  using order_trans [OF length_filter_le [of P q]] by (auto simp: queue_ok_def)

lemma expire_memory_inv: "outbox_memory_inv ob \<Longrightarrow> outbox_memory_inv (fst (outbox_remove_expired B deser now age ob))"
proof -
  assume "outbox_memory_inv ob"
  then obtain qs n where ob: "ob_backend ob = OutboxMemory qs n" and inv: "queues_inv qs n"
    by (auto simp: outbox_memory_inv_def)
  let ?P = "\<lambda>m. \<not> too_old now age m"
  let ?kept = "filter (\<lambda>(r, q). q \<noteq> []) (map (\<lambda>(r, q). (r, filter ?P q)) qs)"
  have "map fst (map (\<lambda>(r, q). (r, filter ?P q)) qs) = map fst qs" by (simp add: case_prod_unfold)
  then have "hm_wf ?kept" using inv by (metis hm_wf_filter queues_inv_def)
  moreover have "list_all queue_ok ?kept"
    using inv by (auto simp: queues_inv_def list_all_iff intro: queue_ok_filter)
  ultimately have "queues_inv ?kept (n - (\<Sum>(r, q)\<leftarrow>qs. length q - length (filter ?P q)))"
    using inv retained_total [of ?P qs] unfolding queues_inv_def by linarith
  then show ?thesis using ob by (simp add: outbox_remove_expired_def outbox_memory_inv_def Let_def)
qed

inductive outbox_memory_reachable :: "'s storage_backend \<Rightarrow> 's outbox \<Rightarrow> bool" for B where
  reach_new: "outbox_memory_reachable B outbox_new"
| reach_enqueue: "outbox_memory_reachable B ob \<Longrightarrow> outbox_memory_reachable B (fst (enqueue B ser msg ob))"
| reach_remove: "outbox_memory_reachable B ob \<Longrightarrow> outbox_memory_reachable B (fst (outbox_remove B deser mid ob))"
| reach_drain: "outbox_memory_reachable B ob \<Longrightarrow> outbox_memory_reachable B (fst (drain_for_peer B deser r ob))"
| reach_attempt: "outbox_memory_reachable B ob \<Longrightarrow> outbox_memory_reachable B (fst (record_attempt B ser deser mid ob))"
| reach_expire: "outbox_memory_reachable B ob \<Longrightarrow> outbox_memory_reachable B (fst (outbox_remove_expired B deser now age ob))"

lemma outbox_memory_reachable_inv: "outbox_memory_reachable B ob \<Longrightarrow> outbox_memory_inv ob"
proof (induction rule: outbox_memory_reachable.induct)
  case reach_new
  then show ?case by (simp add: outbox_new_def outbox_memory_inv_def queues_inv_def)
qed (simp_all add: enqueue_memory_inv outbox_remove_memory_inv drain_memory_inv attempt_memory_inv expire_memory_inv)

text \<open>
  C38. The queues in memory stay consistent: after any sequence of operations on a new outbox, the total is the
  number of queued messages and at most 10000, no peer has more than 1000, and what is queued for
  a peer is addressed to that peer.
\<close>

theorem outbox_memory_invariant:
  assumes "outbox_memory_reachable B ob"
  shows "\<exists>qs. ob_backend ob = OutboxMemory qs (outbox_total_count B ob) \<and> hm_wf qs
    \<and> outbox_total_count B ob = (\<Sum>(r, q)\<leftarrow>qs. length q) \<and> outbox_total_count B ob \<le> 10000
    \<and> (\<forall>r. length (peek_for_peer B deser r ob) \<le> 1000 \<and> (\<forall>m \<in> set (peek_for_peer B deser r ob). qm_recipient_id m = r))"
proof -
  obtain qs n where ob: "ob_backend ob = OutboxMemory qs n" and inv: "queues_inv qs n"
    using outbox_memory_reachable_inv [OF assms] by (auto simp: outbox_memory_inv_def)
  have "queue_ok (r, queue_of qs r)" for r
    using inv by (auto simp: queues_inv_def list_all_iff queue_of_def queue_ok_def split: option.splits dest: map_of_SomeD)
  then show ?thesis
    using ob inv by (auto simp: outbox_total_count_def peek_for_peer_def queues_inv_def queued_total_def queue_ok_def
        MAX_TOTAL_QUEUED_def MAX_QUEUE_PER_PEER_def)
qed


definition sample_queued :: "string \<Rightarrow> string \<Rightarrow> queued_message" where
  "sample_queued r mid = \<lparr>qm_message_id = mid, qm_recipient_id = r, qm_envelope_data = [1, 2], qm_queued_at = 5, qm_attempts = 0\<rparr>"

theorem outbox_memory_invariant_witness:
  "\<exists>qs. ob_backend (fst (enqueue memory_backend (\<lambda>m. Inr []) (sample_queued ''a'' ''1'') outbox_new))
      = OutboxMemory qs (outbox_total_count memory_backend (fst (enqueue memory_backend (\<lambda>m. Inr []) (sample_queued ''a'' ''1'') outbox_new)))
    \<and> hm_wf qs"
  using outbox_memory_invariant [OF reach_enqueue [OF reach_new], where deser = "\<lambda>b. Inl []"] by blast

section \<open>The persistent queue\<close>

text \<open>
  The abstract queue and its steps. Removal and attempts act on one message with the given id, an
  arbitrary one when several recipients have one; draining lists the messages in any order.
\<close>

type_synonym aqueue = "string \<times> string \<rightharpoonup> queued_message"

datatype outbox_op = Enqueue queued_message | Remove string | Drain string | Attempt string | Expire u64 u64

datatype outbox_result = Queued | Refused | Removed bool | Drained "queued_message list" | Exceeded bool | Dropped_Old nat

inductive queue_step :: "aqueue \<Rightarrow> outbox_op \<Rightarrow> outbox_result \<Rightarrow> aqueue \<Rightarrow> bool" where
  enqueue_ok: "card (dom Q) < 10000 \<Longrightarrow> card {m. (qm_recipient_id msg, m) \<in> dom Q} < 1000 \<Longrightarrow>
     queue_step Q (Enqueue msg) Queued (Q((qm_recipient_id msg, qm_message_id msg) \<mapsto> msg))"
| enqueue_full: "10000 \<le> card (dom Q) \<or> 1000 \<le> card {m. (qm_recipient_id msg, m) \<in> dom Q} \<Longrightarrow>
     queue_step Q (Enqueue msg) Refused Q"
| remove_hit: "Q (r, mid) = Some q \<Longrightarrow> queue_step Q (Remove mid) (Removed True) (Q((r, mid) := None))"
| remove_miss: "\<forall>r. Q (r, mid) = None \<Longrightarrow> queue_step Q (Remove mid) (Removed False) Q"
| drain_all: "distinct ms \<Longrightarrow> set ms = {q. \<exists>m. Q (r, m) = Some q} \<Longrightarrow>
     queue_step Q (Drain r) (Drained ms) (Q |` {k. fst k \<noteq> r})"
| attempt_hit: "Q (r, mid) = Some q \<Longrightarrow>
     queue_step Q (Attempt mid) (Exceeded (12 \<le> qm_attempts (attempted q))) (Q((r, mid) \<mapsto> attempted q))"
| attempt_miss: "\<forall>r. Q (r, mid) = None \<Longrightarrow> queue_step Q (Attempt mid) (Exceeded False) Q"
| expire: "old = {k. \<exists>q. Q k = Some q \<and> too_old now age q} \<Longrightarrow>
     queue_step Q (Expire now age) (Dropped_Old (card old)) (Q |` (- old))"

fun outbox_exec ::
  "'s storage_backend \<Rightarrow> (queued_message \<Rightarrow> string + bytes) \<Rightarrow> (bytes \<Rightarrow> string + queued_message) \<Rightarrow> outbox_op \<Rightarrow> 's outbox \<Rightarrow>
   's outbox \<times> outbox_result" where
  "outbox_exec B ser deser (Enqueue msg) ob =
     (case enqueue B ser msg ob of (ob', r) \<Rightarrow> (ob', case r of Inl _ \<Rightarrow> Refused | Inr _ \<Rightarrow> Queued))"
| "outbox_exec B ser deser (Remove mid) ob = (case outbox_remove B deser mid ob of (ob', b) \<Rightarrow> (ob', Removed b))"
| "outbox_exec B ser deser (Drain r) ob = (case drain_for_peer B deser r ob of (ob', ms) \<Rightarrow> (ob', Drained ms))"
| "outbox_exec B ser deser (Attempt mid) ob = (case record_attempt B ser deser mid ob of (ob', b) \<Rightarrow> (ob', Exceeded b))"
| "outbox_exec B ser deser (Expire now age) ob = (case outbox_remove_expired B deser now age ob of (ob', n) \<Rightarrow> (ob', Dropped_Old n))"

text \<open>Recipient ids contain no underscore; the code uses hexadecimal hashes.\<close>

definition plain :: "string \<Rightarrow> bool" where
  "plain r \<longleftrightarrow> CHR ''_'' \<notin> set r"

fun plain_op :: "outbox_op \<Rightarrow> bool" where
  "plain_op (Enqueue msg) = plain (qm_recipient_id msg)"
| "plain_op (Drain r) = plain r"
| "plain_op _ = True"

lemma plain_split:
  assumes "r @ CHR ''_'' # m = r' @ CHR ''_'' # m'" and "plain r" and "plain r'"
  shows "r = r' \<and> m = m'"
  using assms
proof (induction r arbitrary: r')
  case Nil
  then show ?case by (cases r') (auto simp: plain_def)
next
  case (Cons c r)
  then show ?case by (cases r') (auto simp: plain_def)
qed

lemma queue_key_inj: "plain r \<Longrightarrow> plain r' \<Longrightarrow> queue_key r m = queue_key r' m' \<longleftrightarrow> r = r' \<and> m = m'"
  unfolding queue_key_def as_bytes_eq by (simp, metis plain_split)

lemma queue_key_prefix: "starts_with QUEUE_PREFIX (queue_key r m)"
  unfolding QUEUE_PREFIX_def queue_key_def as_bytes_append by (rule starts_with_append)

lemma peer_prefix_key: "plain r \<Longrightarrow> plain r' \<Longrightarrow> starts_with (peer_prefix r) (queue_key r' m') \<longleftrightarrow> r' = r"
proof -
  assume "plain r" "plain r'"
  have "starts_with (peer_prefix r) (queue_key r' m') \<longleftrightarrow> (\<exists>u. r' @ CHR ''_'' # m' = r @ CHR ''_'' # u)"
    unfolding peer_prefix_def queue_key_def starts_with_as_bytes by simp
  then show ?thesis using plain_split [OF _ \<open>plain r'\<close> \<open>plain r\<close>] by blast
qed

lemma peer_prefix_below: "starts_with (peer_prefix r) k \<Longrightarrow> starts_with QUEUE_PREFIX k"
  unfolding peer_prefix_def QUEUE_PREFIX_def as_bytes_append
  by (elim starts_withE) (simp only: append_assoc starts_with_append)


definition represents :: "(queued_message \<Rightarrow> bytes) \<Rightarrow> (bytes \<rightharpoonup> bytes) \<Rightarrow> aqueue \<Rightarrow> bool" where
  "represents sr E Q \<longleftrightarrow>
     (\<forall>r m q. Q (r, m) = Some q \<longrightarrow> qm_recipient_id q = r \<and> qm_message_id q = m \<and> plain r) \<and>
     (\<forall>k v. starts_with QUEUE_PREFIX k \<longrightarrow>
        (E k = Some v \<longleftrightarrow> (\<exists>r m q. Q (r, m) = Some q \<and> k = queue_key r m \<and> v = sr q)))"

lemma represents_ids:
  "represents sr E Q \<Longrightarrow> Q (r, m) = Some q \<Longrightarrow> qm_recipient_id q = r \<and> qm_message_id q = m \<and> plain r"
  by (simp add: represents_def)

lemma represents_iff:
  "represents sr E Q \<Longrightarrow> starts_with QUEUE_PREFIX k \<Longrightarrow>
    E k = Some v \<longleftrightarrow> (\<exists>r m q. Q (r, m) = Some q \<and> k = queue_key r m \<and> v = sr q)"
  by (simp add: represents_def)

lemma represents_cong:
  "represents sr E Q \<Longrightarrow> (\<And>k. starts_with QUEUE_PREFIX k \<Longrightarrow> E' k = E k) \<Longrightarrow> represents sr E' Q"
  by (simp add: represents_def)

lemma represents_update:
  assumes "represents sr E Q" and "qm_recipient_id q = r" and "qm_message_id q = m" and "plain r"
  shows "represents sr (E(queue_key r m \<mapsto> sr q)) (Q((r, m) \<mapsto> q))"
  unfolding represents_def
proof (intro conjI allI impI)
  fix k v
  assume k: "starts_with QUEUE_PREFIX k"
  show "(E(queue_key r m \<mapsto> sr q)) k = Some v \<longleftrightarrow>
    (\<exists>r' m' q'. (Q((r, m) \<mapsto> q)) (r', m') = Some q' \<and> k = queue_key r' m' \<and> v = sr q')"
  proof (cases "k = queue_key r m")
    case True
    have "r' = r \<and> m' = m" if "k = queue_key r' m'" "Q (r', m') = Some q'" for r' m' q'
      using that True assms(4) represents_ids [OF assms(1) that(2)] by (simp add: queue_key_inj)
    then show ?thesis using True by (auto split: if_splits)
  next
    case False
    have "(E(queue_key r m \<mapsto> sr q)) k = Some v \<longleftrightarrow> (\<exists>r m q. Q (r, m) = Some q \<and> k = queue_key r m \<and> v = sr q)"
      using represents_iff [OF assms(1) k] False by simp
    also have "\<dots> \<longleftrightarrow> (\<exists>r' m' q'. (Q((r, m) \<mapsto> q)) (r', m') = Some q' \<and> k = queue_key r' m' \<and> v = sr q')"
      using False by (metis (no_types, lifting) fun_upd_other fun_upd_same old.prod.inject)
    finally show ?thesis .
  qed
next
  fix r' m' q'
  assume "(Q((r, m) \<mapsto> q)) (r', m') = Some q'"
  then show "qm_recipient_id q' = r'" "qm_message_id q' = m'" "plain r'"
    using assms represents_ids [OF assms(1), of r' m' q'] by (auto split: if_splits)
qed

lemma represents_restrict:
  assumes "represents sr E Q" and "K = (\<lambda>(r, m). queue_key r m) ` S" and "S \<subseteq> dom Q"
  shows "represents sr (E |` (- K)) (Q |` (- S))"
  unfolding represents_def
proof (intro conjI allI impI)
  fix k v
  assume k: "starts_with QUEUE_PREFIX k"
  have "(r, m) \<in> S" if Q: "Q (r, m) = Some q" and K: "queue_key r m \<in> K" for r m q
  proof -
    obtain r' m' q' where s: "(r', m') \<in> S" "queue_key r m = queue_key r' m'" "Q (r', m') = Some q'"
      using K assms(2,3) by auto
    then show ?thesis
      using represents_ids [OF assms(1) Q] represents_ids [OF assms(1) s(3)] queue_key_inj by metis
  qed
  moreover have "queue_key r m \<in> K" if "(r, m) \<in> S" for r m using that assms(2) by force
  ultimately show "(E |` (- K)) k = Some v \<longleftrightarrow>
    (\<exists>r m q. (Q |` (- S)) (r, m) = Some q \<and> k = queue_key r m \<and> v = sr q)"
    using represents_iff [OF assms(1) k, of v] by (auto simp: restrict_map_def split: if_splits) blast+
next
  fix r m q
  assume "(Q |` (- S)) (r, m) = Some q"
  then show "qm_recipient_id q = r" "qm_message_id q = m" "plain r"
    using represents_ids [OF assms(1), of r m q] by (auto simp: restrict_map_def split: if_splits)
qed

lemma decoded_all:
  "\<forall>(k, v) \<in> set es. \<exists>q. deser v = Inr q \<Longrightarrow> decoded deser es = map (\<lambda>(k, v). (k, projr (deser v))) es"
  by (induction es) (auto simp: decoded_def map_filter_simps)


lemma card_peer: "card {k \<in> dom Q. fst k = r} = card {m. (r, m) \<in> dom Q}"
proof -
  have "{k \<in> dom Q. fst k = r} = Pair r ` {m. (r, m) \<in> dom Q}" by auto
  then show ?thesis by (simp add: card_image inj_on_def)
qed

text \<open>Maintenance leaves the entries of the queue alone.\<close>

definition keeps_queue :: "('s \<Rightarrow> bool) \<Rightarrow> ('s \<Rightarrow> bytes \<rightharpoonup> bytes) \<Rightarrow> 's outbox \<Rightarrow> bool" where
  "keeps_queue sound entries ob \<longleftrightarrow>
     (\<forall>f s. ob_storage_manager ob = Some f \<longrightarrow> sound s \<longrightarrow>
        sound (f s) \<and> (\<forall>k. starts_with QUEUE_PREFIX k \<longrightarrow> entries (f s) k = entries s k))"

text \<open>A persistent outbox that stands for an abstract queue.\<close>

definition holds_queue ::
  "('s \<Rightarrow> bool) \<Rightarrow> ('s \<Rightarrow> bytes \<rightharpoonup> bytes) \<Rightarrow> (queued_message \<Rightarrow> bytes) \<Rightarrow> 's outbox \<Rightarrow> aqueue \<Rightarrow> bool" where
  "holds_queue sound entries sr ob Q \<longleftrightarrow>
     (\<exists>s. ob_backend ob = OutboxPersistent s \<and> sound s \<and> represents sr (entries s) Q) \<and> keeps_queue sound entries ob"

lemma holds_queueI:
  "sound s \<Longrightarrow> represents sr (entries s) Q \<Longrightarrow> keeps_queue sound entries ob \<Longrightarrow>
    holds_queue sound entries sr (ob\<lparr>ob_backend := OutboxPersistent s\<rparr>) Q"
  by (simp add: holds_queue_def keeps_queue_def)

lemma holds_queue_maintenance:
  "holds_queue sound entries sr ob Q \<Longrightarrow> holds_queue sound entries sr (outbox_trigger_maintenance ob) Q"
  by (auto simp: holds_queue_def keeps_queue_def outbox_trigger_maintenance_def split: option.splits elim!: represents_cong)

context reliable_backend
begin

lemma scan_decoded:
  assumes "sound s" and rep: "represents sr (entries s) Q" and lossless: "\<And>q. deser (sr q) = Inr q"
    and below: "\<And>k. starts_with p k \<Longrightarrow> starts_with QUEUE_PREFIX k"
  defines "D \<equiv> decoded deser (scan_or_empty B p s)"
  shows "distinct (map fst D)"
    and "set D = {(queue_key r m, q) | r m q. Q (r, m) = Some q \<and> starts_with p (queue_key r m)}"
    and "length D = count_or_zero B p s"
proof -
  let ?es = "scan_or_empty B p s"
  note scan = scan_or_empty [OF assms(1), of p]
  have vals: "\<exists>r m q. Q (r, m) = Some q \<and> k = queue_key r m \<and> v = sr q" if "(k, v) \<in> set ?es" for k v
    using that scan(2) represents_iff [OF rep below, of k v] by auto
  have D: "D = map (\<lambda>(k, v). (k, projr (deser v))) ?es"
    unfolding D_def by (rule decoded_all) (use vals lossless in fastforce)
  show "length D = count_or_zero B p s" using scan(3) by (simp add: D)
  show "distinct (map fst D)" using scan(1) by (simp add: D comp_def case_prod_unfold)
  show "set D = {(queue_key r m, q) | r m q. Q (r, m) = Some q \<and> starts_with p (queue_key r m)}"
  proof (intro set_eqI iffI)
    fix x
    assume "x \<in> set D"
    then obtain k v where kv: "(k, v) \<in> set ?es" "x = (k, projr (deser v))" by (auto simp: D)
    from vals [OF kv(1)] kv scan(2) show "x \<in> {(queue_key r m, q) | r m q. Q (r, m) = Some q \<and> starts_with p (queue_key r m)}"
      using lossless by force
  next
    fix x
    assume "x \<in> {(queue_key r m, q) | r m q. Q (r, m) = Some q \<and> starts_with p (queue_key r m)}"
    then obtain r m q where x: "x = (queue_key r m, q)" "Q (r, m) = Some q" "starts_with p (queue_key r m)" by blast
    then have "(queue_key r m, sr q) \<in> set ?es"
      using scan(2) represents_iff [OF rep below, of "queue_key r m" "sr q"] by auto
    then show "x \<in> set D" using x(1) lossless [of q] by (force simp: D)
  qed
qed

lemma scan_count:
  fixes deser :: "bytes \<Rightarrow> string + queued_message"
  assumes "sound s" and rep: "represents sr (entries s) Q" and lossless: "\<And>q. deser (sr q) = Inr q"
    and below: "\<And>k. starts_with p k \<Longrightarrow> starts_with QUEUE_PREFIX k"
  shows "count_or_zero B p s = card {k \<in> dom Q. starts_with p (queue_key (fst k) (snd k))}"
proof -
  let ?D = "decoded deser (scan_or_empty B p s)" and ?S = "{k \<in> dom Q. starts_with p (queue_key (fst k) (snd k))}"
  let ?f = "\<lambda>k. (queue_key (fst k) (snd k), the (Q k))"
  note D = scan_decoded [OF assms]
  have "{(queue_key r m, q) | r m q. Q (r, m) = Some q \<and> starts_with p (queue_key r m)} = ?f ` ?S"
    by (force simp: image_iff)
  then have "set ?D = ?f ` ?S" using D(2) by simp
  moreover have "inj_on ?f ?S"
    using represents_ids [OF rep] queue_key_inj by (auto simp: inj_on_def)
  ultimately have "card (set ?D) = card ?S" by (simp add: card_image)
  moreover have "distinct ?D" using D(1) distinct_map by blast
  ultimately show ?thesis using D(3) distinct_card by metis
qed


lemma scan_queue:
  fixes deser :: "bytes \<Rightarrow> string + queued_message"
  assumes "sound s" and "represents sr (entries s) Q" and "\<And>q. deser (sr q) = Inr q"
  defines "D \<equiv> decoded deser (scan_or_empty B QUEUE_PREFIX s)"
  shows "distinct (map fst D)" and "set D = {(queue_key r m, q) | r m q. Q (r, m) = Some q}"
    and "count_or_zero B QUEUE_PREFIX s = card (dom Q)"
  unfolding D_def using scan_decoded [OF assms(1-3), where p = QUEUE_PREFIX] scan_count [OF assms(1-3), where p = QUEUE_PREFIX]
  by (simp_all add: queue_key_prefix)

lemma scan_peer:
  fixes deser :: "bytes \<Rightarrow> string + queued_message"
  assumes "sound s" and rep: "represents sr (entries s) Q" and "\<And>q. deser (sr q) = Inr q" and "plain r"
  defines "D \<equiv> decoded deser (scan_or_empty B (peer_prefix r) s)"
  shows "distinct (map fst D)" and "set D = {(queue_key r m, q) | m q. Q (r, m) = Some q}"
    and "count_or_zero B (peer_prefix r) s = card {m. (r, m) \<in> dom Q}"
proof -
  note D = scan_decoded [OF assms(1-3), of "peer_prefix r", OF peer_prefix_below]
  have peer: "starts_with (peer_prefix r) (queue_key r' m) \<longleftrightarrow> r' = r" if "Q (r', m) = Some q" for r' m q
    using represents_ids [OF rep that] peer_prefix_key [OF assms(4)] by blast
  show "distinct (map fst D)" unfolding D_def by (rule D(1))
  show "set D = {(queue_key r m, q) | m q. Q (r, m) = Some q}" 
    using D(2) peer unfolding D_def by fastforce
  have "{k \<in> dom Q. starts_with (peer_prefix r) (queue_key (fst k) (snd k))} = {k \<in> dom Q. fst k = r}"
    using peer by auto
  then show "count_or_zero B (peer_prefix r) s = card {m. (r, m) \<in> dom Q}"
    using scan_count [OF assms(1-3), of "peer_prefix r", OF peer_prefix_below] by (simp add: card_peer)
qed

lemma flush_holds:
  assumes "sound s" and "represents sr (entries s) Q" and "keeps_queue sound entries ob"
  shows "holds_queue sound entries sr (ob\<lparr>ob_backend := OutboxPersistent (snd (bk_flush B s))\<rparr>) Q"
proof -
  obtain s' where "bk_flush B s = (Inr (), s')" "sound s'" "entries s' = entries s"
    using flush_ok [OF assms(1)] by blast
  then show ?thesis using assms by (simp add: holds_queueI)
qed

lemma enqueue_refines:
  assumes ob: "holds_queue sound entries sr ob Q" and plain: "plain (qm_recipient_id msg)"
    and lossless: "\<And>q. deser (sr q) = Inr q"
  shows "\<exists>Q'. holds_queue sound entries sr (fst (outbox_exec B (\<lambda>q. Inr (sr q)) deser (Enqueue msg) ob)) Q'
    \<and> queue_step Q (Enqueue msg) (snd (outbox_exec B (\<lambda>q. Inr (sr q)) deser (Enqueue msg) ob)) Q'"
proof -
  obtain s where s: "ob_backend ob = OutboxPersistent s" "sound s" "represents sr (entries s) Q"
    and keeps: "keeps_queue sound entries ob"
    using ob by (auto simp: holds_queue_def)
  let ?r = "qm_recipient_id msg" and ?m = "qm_message_id msg"
  note counts = scan_queue(3) [OF s(2,3) lossless] scan_peer(3) [OF s(2,3) lossless plain]
  show ?thesis
  proof (cases "10000 \<le> card (dom Q) \<or> 1000 \<le> card {m. (?r, m) \<in> dom Q}")
    case True
    then have "enqueue B (\<lambda>q. Inr (sr q)) msg ob = (ob, snd (enqueue B (\<lambda>q. Inr (sr q)) msg ob))
      \<and> isl (snd (enqueue B (\<lambda>q. Inr (sr q)) msg ob))"
      by (auto simp: enqueue_def s(1) counts MAX_TOTAL_QUEUED_def MAX_QUEUE_PER_PEER_def)
    then obtain e where "enqueue B (\<lambda>q. Inr (sr q)) msg ob = (ob, Inl e)" by (metis isl_def)
    then show ?thesis using ob True by (auto intro!: enqueue_full)
  next
    case False
    obtain s1 where s1: "bk_put B (queue_key ?r ?m) (sr msg) s = (Inr (), s1)" "sound s1"
      "entries s1 = (entries s)(queue_key ?r ?m \<mapsto> sr msg)"
      by (rule putE [OF s(2)])
    obtain s2 where s2: "bk_flush B s1 = (Inr (), s2)" "sound s2" "entries s2 = entries s1"
      using flush_ok [OF s1(2)] by blast
    have "represents sr (entries s2) (Q((?r, ?m) \<mapsto> msg))"
      unfolding s2(3) s1(3) by (rule represents_update [OF s(3) refl refl plain])
    then have "holds_queue sound entries sr (ob\<lparr>ob_backend := OutboxPersistent s2\<rparr>) (Q((?r, ?m) \<mapsto> msg))"
      by (rule holds_queueI [OF s2(2) _ keeps])
    moreover have "enqueue B (\<lambda>q. Inr (sr q)) msg ob
      = (outbox_trigger_maintenance (ob\<lparr>ob_backend := OutboxPersistent s2\<rparr>), Inr ())"
      using False by (simp add: enqueue_def s(1) s1(1) s2(1) counts MAX_TOTAL_QUEUED_def MAX_QUEUE_PER_PEER_def)
    ultimately show ?thesis using False by (auto intro!: enqueue_ok holds_queue_maintenance)
  qed
qed

lemma find_by_id:
  fixes deser :: "bytes \<Rightarrow> string + queued_message"
  assumes "sound s" and rep: "represents sr (entries s) Q" and "\<And>q. deser (sr q) = Inr q"
  defines "D \<equiv> decoded deser (scan_or_empty B QUEUE_PREFIX s)"
  shows "(find (\<lambda>(k, m). qm_message_id m = mid) D = None \<and> (\<forall>r. Q (r, mid) = None))
    \<or> (\<exists>r q. find (\<lambda>(k, m). qm_message_id m = mid) D = Some (queue_key r mid, q) \<and> Q (r, mid) = Some q)"
proof -
  have setD: "set D = {(queue_key r m, q) | r m q. Q (r, m) = Some q}"
    unfolding D_def by (rule scan_queue(2) [OF assms(1-3)])
  show ?thesis
  proof (cases "find (\<lambda>(k, m). qm_message_id m = mid) D")
    case None
    have "Q (r, mid) = None" for r
    proof (rule ccontr)
      assume "Q (r, mid) \<noteq> None"
      then obtain q where q: "Q (r, mid) = Some q" by blast
      have "(queue_key r mid, q) \<in> set D" unfolding setD using q by blast
      then show False using None represents_ids [OF rep q] by (auto simp: find_None_iff)
    qed
    then show ?thesis using None by simp
  next
    case (Some x)
    from this [unfolded find_Some_iff] have "x \<in> set D" and id: "qm_message_id (snd x) = mid"
      by (auto simp: case_prod_unfold)
    then obtain r m q where x: "x = (queue_key r m, q)" "Q (r, m) = Some q" unfolding setD by blast
    then have "m = mid" using id represents_ids [OF rep x(2)] by simp
    then show ?thesis using Some x by blast
  qed
qed


lemma remove_refines:
  assumes ob: "holds_queue sound entries sr ob Q" and lossless: "\<And>q. deser (sr q) = Inr q"
  shows "\<exists>Q'. holds_queue sound entries sr (fst (outbox_exec B ser deser (Remove mid) ob)) Q'
    \<and> queue_step Q (Remove mid) (snd (outbox_exec B ser deser (Remove mid) ob)) Q'"
proof -
  obtain s where s: "ob_backend ob = OutboxPersistent s" "sound s" "represents sr (entries s) Q"
    and keeps: "keeps_queue sound entries ob"
    using ob by (auto simp: holds_queue_def)
  from find_by_id [OF s(2,3) lossless, of mid] show ?thesis
  proof (elim disjE conjE exE)
    assume "find (\<lambda>(k, m). qm_message_id m = mid) (decoded deser (scan_or_empty B QUEUE_PREFIX s)) = None" "\<forall>r. Q (r, mid) = None"
    then show ?thesis using ob by (auto simp: outbox_remove_def s(1) intro: remove_miss)
  next
    fix r q
    assume hit: "find (\<lambda>(k, m). qm_message_id m = mid) (decoded deser (scan_or_empty B QUEUE_PREFIX s)) = Some (queue_key r mid, q)"
      and q: "Q (r, mid) = Some q"
    obtain s1 where s1: "bk_remove B (queue_key r mid) s = (Inr (), s1)" "sound s1"
      "entries s1 = (entries s)(queue_key r mid := None)"
      by (rule removeE [OF s(2)])
    have "represents sr (entries s |` (- {queue_key r mid})) (Q |` (- {(r, mid)}))"
      by (rule represents_restrict [OF s(3)]) (use q in auto)
    then have "represents sr (entries s1) (Q((r, mid) := None))"
      by (simp add: s1(3) restrict_complement_singleton_eq)
    from flush_holds [OF s1(2) this keeps] have "holds_queue sound entries sr
      (fst (outbox_exec B ser deser (Remove mid) ob)) (Q((r, mid) := None))"
      by (simp add: outbox_remove_def s(1) hit s1(1))
    moreover have "snd (outbox_exec B ser deser (Remove mid) ob) = Removed True"
      by (simp add: outbox_remove_def s(1) hit)
    ultimately show ?thesis using remove_hit [of Q r mid q] q by auto
  qed
qed

lemma attempt_refines:
  assumes ob: "holds_queue sound entries sr ob Q" and lossless: "\<And>q. deser (sr q) = Inr q"
  shows "\<exists>Q'. holds_queue sound entries sr (fst (outbox_exec B (\<lambda>q. Inr (sr q)) deser (Attempt mid) ob)) Q'
    \<and> queue_step Q (Attempt mid) (snd (outbox_exec B (\<lambda>q. Inr (sr q)) deser (Attempt mid) ob)) Q'"
proof -
  obtain s where s: "ob_backend ob = OutboxPersistent s" "sound s" "represents sr (entries s) Q"
    and keeps: "keeps_queue sound entries ob"
    using ob by (auto simp: holds_queue_def)
  from find_by_id [OF s(2,3) lossless, of mid] show ?thesis
  proof (elim disjE conjE exE)
    assume "find (\<lambda>(k, m). qm_message_id m = mid) (decoded deser (scan_or_empty B QUEUE_PREFIX s)) = None" "\<forall>r. Q (r, mid) = None"
    then show ?thesis using ob by (auto simp: record_attempt_def s(1) intro: attempt_miss)
  next
    fix r q
    assume hit: "find (\<lambda>(k, m). qm_message_id m = mid) (decoded deser (scan_or_empty B QUEUE_PREFIX s)) = Some (queue_key r mid, q)"
      and q: "Q (r, mid) = Some q"
    obtain s1 where s1: "bk_put B (queue_key r mid) (sr (attempted q)) s = (Inr (), s1)" "sound s1"
      "entries s1 = (entries s)(queue_key r mid \<mapsto> sr (attempted q))"
      by (rule putE [OF s(2)])
    have "represents sr (entries s1) (Q((r, mid) \<mapsto> attempted q))"
      unfolding s1(3) by (rule represents_update [OF s(3)]) (use represents_ids [OF s(3) q] in \<open>simp_all add: attempted_def\<close>)
    from flush_holds [OF s1(2) this keeps] have "holds_queue sound entries sr
      (fst (outbox_exec B (\<lambda>q. Inr (sr q)) deser (Attempt mid) ob)) (Q((r, mid) \<mapsto> attempted q))"
      by (simp add: record_attempt_def s(1) hit s1(1))
    moreover have "snd (outbox_exec B (\<lambda>q. Inr (sr q)) deser (Attempt mid) ob) = Exceeded (12 \<le> qm_attempts (attempted q))"
      by (simp add: record_attempt_def s(1) hit MAX_DELIVERY_ATTEMPTS_def)
    ultimately show ?thesis using attempt_hit [of Q r mid q] q by auto
  qed
qed

lemma remove_keys_holds:
  assumes "sound s" and "represents sr (entries s) Q" and "keeps_queue sound entries ob"
    and "set ks = (\<lambda>(r, m). queue_key r m) ` S" and "S \<subseteq> dom Q"
  shows "holds_queue sound entries sr (ob\<lparr>ob_backend := OutboxPersistent (snd (bk_flush B (remove_keys B ks s)))\<rparr>) (Q |` (- S))"
  using remove_keys_ok [OF assms(1), of ks] represents_restrict [OF assms(2,4,5)]
  by (intro flush_holds) (simp_all add: assms(3))

lemma drain_refines:
  assumes ob: "holds_queue sound entries sr ob Q" and plain: "plain r" and lossless: "\<And>q. deser (sr q) = Inr q"
  shows "\<exists>Q'. holds_queue sound entries sr (fst (outbox_exec B ser deser (Drain r) ob)) Q'
    \<and> queue_step Q (Drain r) (snd (outbox_exec B ser deser (Drain r) ob)) Q'"
proof -
  obtain s where s: "ob_backend ob = OutboxPersistent s" "sound s" "represents sr (entries s) Q"
    and keeps: "keeps_queue sound entries ob"
    using ob by (auto simp: holds_queue_def)
  let ?D = "decoded deser (scan_or_empty B (peer_prefix r) s)"
  note D = scan_peer(1,2) [OF s(2,3) lossless plain]
  let ?S = "{k \<in> dom Q. fst k = r}"
  have keys: "set (map fst ?D) = (\<lambda>(r, m). queue_key r m) ` ?S"
    using D(2) by (force simp: image_iff)
  have "set (map snd ?D) = {q. \<exists>m. Q (r, m) = Some q}" using D(2) by force
  moreover have "distinct (map snd ?D)"
  proof -
    have "inj_on snd (set ?D)"
    proof (rule inj_onI)
      fix x y
      assume mem: "x \<in> set ?D" "y \<in> set ?D" "snd x = snd y"
      from mem(1) obtain m q where x: "x = (queue_key r m, q)" "Q (r, m) = Some q" using D(2) by auto
      from mem(2) obtain m' q' where y: "y = (queue_key r m', q')" "Q (r, m') = Some q'" using D(2) by auto
      show "x = y" using mem(3) represents_ids [OF s(3) x(2)] represents_ids [OF s(3) y(2)] by (simp add: x(1) y(1))
    qed
    moreover have "distinct ?D" using D(1) distinct_map by blast
    ultimately show ?thesis by (simp add: distinct_map)
  qed
  ultimately have "queue_step Q (Drain r) (Drained (map snd ?D)) (Q |` {k. fst k \<noteq> r})" by (intro drain_all)
  moreover have "Q |` {k. fst k \<noteq> r} = Q |` (- ?S)" by (rule ext) (auto simp: restrict_map_def domIff)
  moreover have "holds_queue sound entries sr (fst (outbox_exec B ser deser (Drain r) ob)) (Q |` (- ?S))"
    using remove_keys_holds [OF s(2,3) keeps keys] by (simp add: drain_for_peer_def s(1) Let_def)
  moreover have "snd (outbox_exec B ser deser (Drain r) ob) = Drained (map snd ?D)"
    by (simp add: drain_for_peer_def s(1) Let_def)
  ultimately show ?thesis by (intro exI [of _ "Q |` (- ?S)"] conjI) simp_all
qed


lemma expire_refines:
  assumes ob: "holds_queue sound entries sr ob Q" and lossless: "\<And>q. deser (sr q) = Inr q"
  shows "\<exists>Q'. holds_queue sound entries sr (fst (outbox_exec B ser deser (Expire now age) ob)) Q'
    \<and> queue_step Q (Expire now age) (snd (outbox_exec B ser deser (Expire now age) ob)) Q'"
proof -
  obtain s where s: "ob_backend ob = OutboxPersistent s" "sound s" "represents sr (entries s) Q"
    and keeps: "keeps_queue sound entries ob"
    using ob by (auto simp: holds_queue_def)
  let ?D = "decoded deser (scan_or_empty B QUEUE_PREFIX s)"
  note D = scan_queue(1,2) [OF s(2,3) lossless]
  let ?S = "{k. \<exists>q. Q k = Some q \<and> too_old now age q}"
  let ?ks = "map fst (filter (\<lambda>(k, m). too_old now age m) ?D)"
  have keys: "set ?ks = (\<lambda>(r, m). queue_key r m) ` ?S"
  proof -
    have "set ?ks = fst ` {x \<in> set ?D. too_old now age (snd x)}" by (auto simp: case_prod_unfold)
    also have "\<dots> = {queue_key r m | r m q. Q (r, m) = Some q \<and> too_old now age q}" unfolding D(2) by force
    finally show ?thesis by auto
  qed
  have "inj_on (\<lambda>(r, m). queue_key r m) ?S"
  proof (rule inj_onI)
    fix x y
    assume xy: "x \<in> ?S" "y \<in> ?S" "(\<lambda>(r, m). queue_key r m) x = (\<lambda>(r, m). queue_key r m) y"
    obtain r m r' m' where p: "x = (r, m)" "y = (r', m')" by (cases x, cases y) blast
    then have "plain r" "plain r'" using xy(1,2) represents_ids [OF s(3)] by blast+
    then show "x = y" using xy(3) queue_key_inj by (simp add: p)
  qed
  then have card: "card (set ?ks) = card ?S" unfolding keys by (rule card_image)
  have "length ?ks = card (set ?ks)"
    by (rule distinct_card [symmetric], rule distinct_map_filter [OF D(1)])
  then have "length ?ks = card ?S" by (rule trans [OF _ card])
  then have "snd (outbox_exec B ser deser (Expire now age) ob) = Dropped_Old (card ?S)"
    by (simp add: outbox_remove_expired_def s(1) Let_def)
  moreover have "holds_queue sound entries sr (fst (outbox_exec B ser deser (Expire now age) ob)) (Q |` (- ?S))"
  proof -
    have "?S \<subseteq> dom Q" by blast
    from remove_keys_holds [OF s(2,3) keeps keys this] show ?thesis
      by (simp add: outbox_remove_expired_def s(1) Let_def)
  qed
  moreover have "queue_step Q (Expire now age) (Dropped_Old (card ?S)) (Q |` (- ?S))" by (rule expire [OF refl])
  ultimately show ?thesis by (intro exI [of _ "Q |` (- ?S)"] conjI) (simp_all only:)
qed

lemma exec_refines:
  assumes "holds_queue sound entries sr ob Q" and "plain_op oper" and "\<And>q. deser (sr q) = Inr q"
  shows "\<exists>Q'. holds_queue sound entries sr (fst (outbox_exec B (\<lambda>q. Inr (sr q)) deser oper ob)) Q'
    \<and> queue_step Q oper (snd (outbox_exec B (\<lambda>q. Inr (sr q)) deser oper ob)) Q'"
proof (cases oper)
  case (Enqueue msg)
  then show ?thesis using enqueue_refines [OF assms(1) _ assms(3)] assms(2) by simp
next
  case (Remove mid)
  then show ?thesis using remove_refines [OF assms(1,3)] by simp
next
  case (Drain r)
  then show ?thesis using drain_refines [OF assms(1) _ assms(3)] assms(2) by simp
next
  case (Attempt mid)
  then show ?thesis using attempt_refines [OF assms(1,3)] by simp
next
  case (Expire now age)
  then show ?thesis using expire_refines [OF assms(1,3)] by simp
qed

end

text \<open>
  C15. The persistent outbox implements the abstract queue. Over the in-memory key-value store, from a state that
  holds an abstract queue, every operation on recipients without underscores in their ids ends in a state that holds
  a queue reached by the corresponding abstract step with the same result: both limits, which message is
  removed or counted, what a drain returns and how many messages expire.
\<close>

theorem outbox_refines_queue:
  assumes "holds_queue hm_wf hm_get sr ob Q" and "plain_op oper" and "\<And>q. deser (sr q) = Inr q"
  shows "\<exists>Q'. holds_queue hm_wf hm_get sr (fst (outbox_exec memory_backend (\<lambda>q. Inr (sr q)) deser oper ob)) Q'
    \<and> queue_step Q oper (snd (outbox_exec memory_backend (\<lambda>q. Inr (sr q)) deser oper ob)) Q'"
  by (rule memory.exec_refines [OF assms])

lemma persistent_holds_empty: "holds_queue hm_wf hm_get sr (outbox_persistent memory_storage_new) (\<lambda>k. None)"
  by (simp add: holds_queue_def outbox_persistent_def memory_storage_new_def represents_def keeps_queue_def)

text \<open>A serialiser for concrete inputs.\<close>

definition queued_ser :: "queued_message \<Rightarrow> bytes" where
  "queued_ser q = unary (as_bytes (qm_message_id q)) @ unary (as_bytes (qm_recipient_id q)) @ unary (qm_envelope_data q)
     @ nat_to_le 8 (unat (qm_queued_at q)) @ nat_to_le 4 (unat (qm_attempts q))"

definition queued_deser :: "bytes \<Rightarrow> string + queued_message" where
  "queued_deser bs =
     (let (mid, bs1) = dec_unary bs; (r, bs2) = dec_unary bs1; (d, bs3) = dec_unary bs2
      in Inr \<lparr>qm_message_id = str_of mid, qm_recipient_id = str_of r, qm_envelope_data = d,
              qm_queued_at = word_of_nat (nat_of_le (take 8 bs3)), qm_attempts = word_of_nat (nat_of_le (drop 8 bs3))\<rparr>)"

lemma queued_deser_ser: "queued_deser (queued_ser q) = Inr q"
proof -
  have "unat (qm_queued_at q) < 256 ^ 8" "unat (qm_attempts q) < 256 ^ 4"
    using unat_bound [of "qm_queued_at q"] unat_bound [of "qm_attempts q"] by simp_all
  then show ?thesis by (simp add: queued_deser_def queued_ser_def nat_of_le_to_le)
qed

theorem outbox_refines_queue_witness:
  "\<exists>Q'. holds_queue hm_wf hm_get queued_ser
      (fst (outbox_exec memory_backend (\<lambda>q. Inr (queued_ser q)) queued_deser (Enqueue (sample_queued ''a'' ''1'')) (outbox_persistent memory_storage_new))) Q'
    \<and> queue_step (\<lambda>k. None) (Enqueue (sample_queued ''a'' ''1''))
      (snd (outbox_exec memory_backend (\<lambda>q. Inr (queued_ser q)) queued_deser (Enqueue (sample_queued ''a'' ''1'')) (outbox_persistent memory_storage_new))) Q'"
  by (rule outbox_refines_queue [OF persistent_holds_empty]) (simp_all add: plain_def sample_queued_def queued_deser_ser)

section \<open>Expiry in the core\<close>

lemma not_too_old: "now \<le> qm_queued_at m \<Longrightarrow> \<not> too_old now 604800 m"
  by (simp add: too_old_def sat_sub_def)

lemma queue_of_retained:
  assumes "hm_wf qs"
  shows "queue_of (filter (\<lambda>(r, q). q \<noteq> []) (map (\<lambda>(r, q). (r, filter P q)) qs)) r = filter P (queue_of qs r)"
proof -
  let ?m = "map (\<lambda>(r, q). (r, filter P q)) qs"
  have wf: "hm_wf ?m" using assms by (simp add: comp_def case_prod_unfold)
  have get: "hm_get ?m r = map_option (filter P) (hm_get qs r)" by (simp add: map_of_map)
  show ?thesis
    unfolding queue_of_def hm_get_filter [OF wf] get by (cases "hm_get qs r") simp_all
qed

lemma maintenance_keeps_fresh:
  assumes ob: "ob_backend ob = OutboxMemory qs n" and wf: "hm_wf qs" and fresh: "\<forall>r. \<forall>m \<in> set (queue_of qs r). now \<le> qm_queued_at m"
  shows "snd (core_outbox_maintenance B deser now ob) = 0
    \<and> peek_for_peer B deser r (fst (core_outbox_maintenance B deser now ob)) = peek_for_peer B deser r ob"
proof -
  have "\<forall>m \<in> set q. \<not> too_old now 604800 m" if "(r, q) \<in> set qs" for r q
    using that wf fresh not_too_old by (auto simp: queue_of_def)
  then have same: "filter (\<lambda>m. \<not> too_old now 604800 m) q = q" if "(r, q) \<in> set qs" for r q
    using that by (auto simp: filter_id_conv)
  then have "(\<Sum>(r, q)\<leftarrow>qs. length q - length (filter (\<lambda>m. \<not> too_old now 604800 m) q)) = 0"
    by (auto simp: sum_list_eq_0_iff)
  moreover have "filter (\<lambda>m. \<not> too_old now 604800 m) (queue_of qs r) = queue_of qs r"
    using fresh not_too_old by (auto simp: filter_id_conv)
  ultimately show ?thesis
    using queue_of_retained [OF wf, of "\<lambda>m. \<not> too_old now 604800 m" r]
    by (simp add: core_outbox_maintenance_def outbox_remove_expired_def ob Let_def peek_for_peer_def)
qed

lemma enqueue_memory_cases:
  assumes "ob_backend ob = OutboxMemory qs n"
  shows "ob_backend (fst (enqueue B ser msg ob)) = OutboxMemory qs n
    \<or> ob_backend (fst (enqueue B ser msg ob))
      = OutboxMemory (hm_insert (qm_recipient_id msg) (queue_of qs (qm_recipient_id msg) @ [msg]) qs) (n + 1)"
  using assms by (auto simp: enqueue_def Let_def outbox_trigger_maintenance_def split: option.splits)

text \<open>
  Messages queued by the core never expire: they are stamped in milliseconds while the
  maintenance compares with the clock in seconds, so as long as the seconds of the clock do not
  reach the milliseconds of the stamps, maintenance removes nothing, however old the messages are.
\<close>

lemma core_messages_never_expire:
  assumes "ob_backend ob = OutboxMemory qs n" and "hm_wf qs" and "\<forall>r. \<forall>m \<in> set (queue_of qs r). now_secs \<le> qm_queued_at m"
    and "now_secs \<le> now_millis"
  shows "snd (core_outbox_maintenance B deser now_secs (core_queue_message B ser now_millis mid r data ob)) = 0
    \<and> peek_for_peer B deser r' (fst (core_outbox_maintenance B deser now_secs (core_queue_message B ser now_millis mid r data ob)))
      = peek_for_peer B deser r' (core_queue_message B ser now_millis mid r data ob)"
proof -
  let ?msg = "\<lparr>qm_message_id = mid, qm_recipient_id = r, qm_envelope_data = data, qm_queued_at = now_millis, qm_attempts = 0\<rparr>"
  let ?qs = "hm_insert r (queue_of qs r @ [?msg]) qs"
  have "queue_of ?qs x = (if x = r then queue_of qs r @ [?msg] else queue_of qs x)" for x by (simp add: queue_of_def)
  then have fresh: "\<forall>x. \<forall>m \<in> set (queue_of ?qs x). now_secs \<le> qm_queued_at m" using assms(3,4) by auto
  obtain qs' n' where new: "ob_backend (core_queue_message B ser now_millis mid r data ob) = OutboxMemory qs' n'" "hm_wf qs'"
    "\<forall>x. \<forall>m \<in> set (queue_of qs' x). now_secs \<le> qm_queued_at m"
  proof (cases rule: disjE [OF enqueue_memory_cases [OF assms(1), of B ser ?msg]])
    case 1
    then show ?thesis using that [of qs n] assms(2,3) by (simp add: core_queue_message_def)
  next
    case 2
    then show ?thesis using that [of ?qs "n + 1"] assms(2) fresh by (simp add: core_queue_message_def)
  qed
  from maintenance_keeps_fresh [OF new] show ?thesis .
qed

end
