(* ===== verification/Store_Maintenance.thy ===== *)
theory Store_Maintenance
  imports Store_History Store_Logs Store_Outbox Complex_Main
begin

text \<open>
  The storage manager of \<open>src/core/src/store/storage.rs\<close>: retention of the history by age and by number, and
  emergency pruning when the disk is nearly full. The clock is an argument, \<open>f64\<close> is idealised to real
  numbers, and the panic of \<open>enforce_retention\<close> is the result \<open>None\<close>. The lemmas show which messages maintenance
  removes and that it touches nothing but messages and logs, so that the outbox may trigger it.
\<close>

section \<open>Definitions\<close>

record disk_stats =
  dk_total_bytes :: u64
  dk_free_bytes :: u64
  dk_app_data_bytes :: u64

record retention_config =
  rc_max_messages :: u32
  rc_max_age_days :: u32

definition retention_default :: retention_config where
  "retention_default = \<lparr>rc_max_messages = 50000, rc_max_age_days = 90\<rparr>"

definition retention_new :: "u32 \<Rightarrow> u32 \<Rightarrow> retention_config" where
  "retention_new max_messages max_age_days = \<lparr>rc_max_messages = max_messages, rc_max_age_days = max_age_days\<rparr>"

record storage_manager =
  sm_stats :: disk_stats
  sm_logs :: log_manager
  sm_retention :: retention_config

definition storage_manager_with_retention :: "log_manager \<Rightarrow> retention_config \<Rightarrow> storage_manager" where
  "storage_manager_with_retention logs retention =
     \<lparr>sm_stats = \<lparr>dk_total_bytes = 0, dk_free_bytes = 0, dk_app_data_bytes = 0\<rparr>, sm_logs = logs, sm_retention = retention\<rparr>"

definition storage_manager_new :: "log_manager \<Rightarrow> storage_manager" where
  "storage_manager_new logs = storage_manager_with_retention logs retention_default"

definition update_disk_stats :: "'s storage_backend \<Rightarrow> u64 \<Rightarrow> u64 \<Rightarrow> 's \<Rightarrow> storage_manager \<Rightarrow> storage_manager" where
  "update_disk_stats B total_bytes free s sm =
     (let app_data = (case bk_approximate_size B s of Inr n \<Rightarrow> n | Inl _ \<Rightarrow> 0)
      in sm\<lparr>sm_stats := \<lparr>dk_total_bytes = total_bytes, dk_free_bytes = free, dk_app_data_bytes = app_data\<rparr>\<rparr>)"

definition get_disk_stats :: "storage_manager \<Rightarrow> disk_stats" where
  "get_disk_stats sm = sm_stats sm"

text \<open>The three parts of \<open>perform_maintenance\<close>.\<close>

definition age_cutoff :: "retention_config \<Rightarrow> u64 \<Rightarrow> u64" where
  "age_cutoff rc now = sat_sub now (ucast (rc_max_age_days rc) * 86400)"

definition enforce_age where
  "enforce_age B from_json rc now s =
     (if rc_max_age_days rc > 0 then
        (case prune_before B from_json (age_cutoff rc now) s of (r, s') \<Rightarrow> (try_res r (\<lambda>_. Inr ()), s'))
      else (Inr (), s))"

definition enforce_cap where
  "enforce_cap B from_json rc s =
     (if rc_max_messages rc > 0 \<and> history_count B s > rc_max_messages rc then
        (case enforce_retention B from_json (rc_max_messages rc) s of
           (r, s') \<Rightarrow> (map_option (\<lambda>r. try_res r (\<lambda>_. Inr ())) r, s'))
      else (Some (Inr ()), s))"

definition low_space :: "disk_stats \<Rightarrow> bool" where
  "low_space stats \<longleftrightarrow>
     dk_total_bytes stats > 0 \<and> dk_free_bytes stats < word_of_int \<lfloor>real (unat (dk_total_bytes stats)) * 0.2\<rfloor>"

definition emergency_prune where
  "emergency_prune B log_to_json log_from_json from_json logs s =
     (case prune_oldest B log_to_json log_from_json 100 logs s of
        (Inl e, logs', s1) \<Rightarrow> (Some (Inl e), logs', s1)
      | (Inr _, logs', s1) \<Rightarrow>
          if history_count B s1 > 100 then
            (case enforce_retention B from_json (word_of_int \<lfloor>real (unat (history_count B s1)) * 0.9\<rfloor>) s1 of
               (r, s2) \<Rightarrow> (map_option (\<lambda>r. try_res r (\<lambda>_. Inr ())) r, logs', s2))
          else (Some (Inr ()), logs', s1))"

definition perform_maintenance ::
  "'s storage_backend \<Rightarrow> (log_summary \<Rightarrow> string + bytes) \<Rightarrow> (bytes \<Rightarrow> string + log_summary) \<Rightarrow> (bytes \<Rightarrow> string + message_record) \<Rightarrow>
   u64 \<Rightarrow> storage_manager \<Rightarrow> 's \<Rightarrow> (core_error + unit) option \<times> storage_manager \<times> 's" where
  "perform_maintenance B log_to_json log_from_json from_json now sm s =
     (case enforce_age B from_json (sm_retention sm) now s of
        (Inl e, s1) \<Rightarrow> (Some (Inl e), sm, s1)
      | (Inr _, s1) \<Rightarrow>
          (case enforce_cap B from_json (sm_retention sm) s1 of
             (None, s2) \<Rightarrow> (None, sm, s2)
           | (Some (Inl e), s2) \<Rightarrow> (Some (Inl e), sm, s2)
           | (Some (Inr _), s2) \<Rightarrow>
               if low_space (sm_stats sm) then
                 (case emergency_prune B log_to_json log_from_json from_json (sm_logs sm) s2 of
                    (r, logs', s3) \<Rightarrow> (r, sm\<lparr>sm_logs := logs'\<rparr>, s3))
               else (Some (Inr ()), sm, s2)))"

section \<open>What maintenance touches\<close>

text \<open>Whatever the records parse to, maintenance keeps the backend sound and writes below the two prefixes only.\<close>

definition frame :: "('s \<Rightarrow> bool) \<Rightarrow> ('s \<Rightarrow> bytes \<rightharpoonup> bytes) \<Rightarrow> 's \<Rightarrow> 's \<Rightarrow> bool" where
  "frame sound entries s s' \<longleftrightarrow> sound s' \<and> only_under {''msg_'', ''log_sum_''} (entries s) (entries s')"

lemma frame_trans: "frame sound entries s s1 \<Longrightarrow> frame sound entries s1 s2 \<Longrightarrow> frame sound entries s s2"
  using only_under_trans by (auto simp: frame_def)

lemma frame_refl: "sound s \<Longrightarrow> frame sound entries s s"
  by (simp add: frame_def)

context reliable_backend
begin

lemma remove_each_frame:
  assumes "sound s" and "\<And>k. k \<in> set ks \<Longrightarrow> starts_with (as_bytes ''msg_'') k"
  shows "frame sound entries s (snd (remove_each B ks s))"
proof -
  obtain s' where "remove_each B ks s = (Inr (), s')" "sound s'" "entries s' = entries s |` (- set ks)"
    using remove_each_ok [OF assms(1)] by blast
  then show ?thesis using assms(2) by (auto simp: frame_def intro!: only_under_restrict)
qed

lemma remove_where_frame:
  "sound s \<Longrightarrow> (\<And>k v. (k, v) \<in> set es \<Longrightarrow> starts_with (as_bytes ''msg_'') k) \<Longrightarrow>
   frame sound entries s (snd (remove_where B from_json P es n s))"
proof (induction es arbitrary: n s)
  case (Cons e es)
  obtain k v where e: "e = (k, v)" by (cases e)
  obtain s1 where s1: "bk_remove B k s = (Inr (), s1)" "sound s1" "entries s1 = (entries s)(k := None)"
    by (rule removeE [OF Cons.prems(1)])
  have pre: "\<And>k v. (k, v) \<in> set es \<Longrightarrow> starts_with (as_bytes ''msg_'') k"
    using Cons.prems(2) by (meson list.set_intros(2))
  have "starts_with (as_bytes ''msg_'') k" using Cons.prems(2) [of k v] e by simp
  then have "frame sound entries s s1" using s1(2) by (auto simp: frame_def only_under_def s1(3))
  then have "frame sound entries s (snd (remove_where B from_json P es m s1))" for m
    by (rule frame_trans) (rule Cons.IH [OF s1(2) pre])
  moreover have "frame sound entries s (snd (remove_where B from_json P es n s))"
    by (rule Cons.IH [OF Cons.prems(1) pre])
  ultimately show ?case using frame_refl [of sound, OF Cons.prems(1)] s1(1) by (simp add: e split: sum.split)
qed (simp add: frame_refl)

lemma scan_keys_prefix:
  "sound s \<Longrightarrow> bk_scan_prefix B p s = Inr es \<Longrightarrow> (k, v) \<in> set es \<Longrightarrow> starts_with p k"
  using scan_ok [of s p] by auto

lemma prune_before_frame: "sound s \<Longrightarrow> frame sound entries s (snd (prune_before B from_json t s))"
  using remove_where_frame scan_keys_prefix [of s "as_bytes ''msg_''"] by (auto simp: prune_before_def frame_refl split: sum.split)

lemma enforce_retention_frame: "sound s \<Longrightarrow> frame sound entries s (snd (enforce_retention B from_json mx s))"
proof -
  assume s: "sound s"
  show ?thesis
  proof (cases "bk_scan_prefix B (as_bytes ''msg_'') s")
    case (Inl e)
    then show ?thesis using s by (simp add: enforce_retention_def frame_refl)
  next
    case (Inr es)
    let ?ks = "\<lambda>rs. map fst (take (length (zip (map fst es) rs) - unat mx) (sort_key (\<lambda>(k, r). hr_timestamp r) (zip (map fst es) rs)))"
    have "starts_with (as_bytes ''msg_'') k" if "k \<in> set (?ks rs)" for k rs
    proof -
      have "k \<in> fst ` set es" using that by (auto dest!: in_set_takeD set_zip_leftD)
      then show ?thesis using scan_keys_prefix [OF s Inr] by auto
    qed
    then have "frame sound entries s (snd (remove_each B (?ks rs) s))" for rs by (rule remove_each_frame [OF s])
    then show ?thesis
      using s by (auto simp: enforce_retention_def Inr frame_refl Let_def case_prod_unfold split: sum.split)
  qed
qed

lemma enforce_age_frame: "sound s \<Longrightarrow> frame sound entries s (snd (enforce_age B from_json rc now s))"
  using prune_before_frame by (simp add: enforce_age_def frame_refl case_prod_unfold)

lemma enforce_cap_frame: "sound s \<Longrightarrow> frame sound entries s (snd (enforce_cap B from_json rc s))"
  using enforce_retention_frame by (simp add: enforce_cap_def frame_refl case_prod_unfold)

lemma emergency_prune_frame:
  assumes "sound s"
  shows "frame sound entries s (snd (snd (emergency_prune B (\<lambda>l. Inr (js l)) log_from_json from_json logs s)))"
proof -
  obtain m s1 where s1: "prune_oldest B (\<lambda>l. Inr (js l)) log_from_json 100 logs s = (Inr m, logs\<lparr>lm_cache := []\<rparr>, s1)" "sound s1"
    "only_under {''log_sum_''} (entries s) (entries s1)"
    using prune_oldest_ok [OF assms] by blast
  then have "frame sound entries s s1" by (auto simp: frame_def intro: only_under_mono)
  then show ?thesis
    using frame_trans [OF _ enforce_retention_frame [OF s1(2)]] by (auto simp: emergency_prune_def s1(1) case_prod_unfold)
qed

lemma perform_maintenance_frame:
  assumes "sound s"
  shows "frame sound entries s (snd (snd (perform_maintenance B (\<lambda>l. Inr (js l)) log_from_json from_json now sm s)))"
proof -
  obtain r1 s1 where s1: "enforce_age B from_json (sm_retention sm) now s = (r1, s1)" by fastforce
  have f1: "frame sound entries s s1" using enforce_age_frame [OF assms, of from_json "sm_retention sm" now] s1 by simp
  obtain r2 s2 where s2: "enforce_cap B from_json (sm_retention sm) s1 = (r2, s2)" by fastforce
  have "frame sound entries s1 s2"
    using enforce_cap_frame [of s1 from_json "sm_retention sm"] s2 f1 by (simp add: frame_def)
  then have f2: "frame sound entries s s2" using frame_trans [OF f1] by simp
  obtain r3 logs s3 where s3: "emergency_prune B (\<lambda>l. Inr (js l)) log_from_json from_json (sm_logs sm) s2 = (r3, logs, s3)"
    by (metis prod.exhaust)
  have "frame sound entries s2 s3"
    using emergency_prune_frame [of s2 js log_from_json from_json "sm_logs sm"] s3 f2 by (simp add: frame_def)
  then have "frame sound entries s s3" using frame_trans [OF f2] by simp
  then show ?thesis using f1 f2 s1 s2 s3 by (simp add: perform_maintenance_def split: sum.split option.split)
qed

end


section \<open>Which messages maintenance removes\<close>

lemma oldest_empty [simp]: "oldest H {}"
  by (simp add: oldest_def)

lemma oldest_Un:
  assumes "oldest H S" and "oldest (H |` (- S)) S'"
  shows "oldest H (S \<union> S')"
proof -
  have S': "S' \<subseteq> dom H - S" using assms(2) unfolding oldest_def by (auto simp: dom_restrict)
  have "hr_timestamp (the (H i)) \<le> hr_timestamp (the (H j))" if i: "i \<in> S'" and j: "j \<in> dom H - (S \<union> S')" for i j
  proof -
    have "j \<in> dom (H |` (- S)) - S'" using j by simp
    then have "hr_timestamp (the ((H |` (- S)) i)) \<le> hr_timestamp (the ((H |` (- S)) j))"
      using assms(2) i unfolding oldest_def by blast
    then show ?thesis using S' i j by (auto simp: restrict_in)
  qed
  then show ?thesis using assms(1) S' unfolding oldest_def by blast
qed

lemma oldest_finite: "oldest H S \<Longrightarrow> finite (dom H) \<Longrightarrow> finite S"
  by (auto simp: oldest_def intro: finite_subset)

lemma restrict_restrict_compl: "H |` (- S) |` (- S') = H |` (- (S \<union> S'))"
  by (auto simp: restrict_map_def fun_eq_iff)

text \<open>The history is reduced to the records outside \<open>S\<close>, none of which is older than one in \<open>S\<close>.\<close>

definition reduces ::
  "('s \<Rightarrow> bool) \<Rightarrow> ('s \<Rightarrow> bytes \<rightharpoonup> bytes) \<Rightarrow> (message_record \<Rightarrow> bytes) \<Rightarrow> (string \<rightharpoonup> message_record) \<Rightarrow> 's \<Rightarrow> string set \<Rightarrow> bool" where
  "reduces sound entries js H s S \<longleftrightarrow> sound s \<and> table ''msg_'' js (entries s) (H |` (- S)) \<and> oldest H S"

lemma reduces_trans:
  "reduces sound entries js H s S \<Longrightarrow> reduces sound entries js (H |` (- S)) s' S' \<Longrightarrow> reduces sound entries js H s' (S \<union> S')"
  using oldest_Un by (auto simp: reduces_def restrict_restrict_compl)

lemma expired_oldest: "oldest H {i. \<exists>r. H i = Some r \<and> hr_timestamp r < t}"
  by (auto simp: oldest_def)

definition expired :: "retention_config \<Rightarrow> u64 \<Rightarrow> (string \<rightharpoonup> message_record) \<Rightarrow> string set" where
  "expired rc now H = (if rc_max_age_days rc > 0 then {i. \<exists>r. H i = Some r \<and> hr_timestamp r < age_cutoff rc now} else {})"

definition capped :: "retention_config \<Rightarrow> nat \<Rightarrow> nat" where
  "capped rc n = (if rc_max_messages rc > 0 then min n (unat (rc_max_messages rc)) else n)"

definition squeezed :: "bool \<Rightarrow> nat \<Rightarrow> nat" where
  "squeezed low n = (if low \<and> n > 100 then n * 9 div 10 else n)"

lemma to_keep: "unat (word_of_int \<lfloor>real (unat c) * 0.9\<rfloor> :: u32) = unat c * 9 div 10" for c :: u32
proof -
  have "\<lfloor>real (unat c) * 0.9\<rfloor> = \<lfloor>real (unat c * 9) / real 10\<rfloor>" by simp
  also have "\<dots> = int (unat c * 9 div 10)" by (rule floor_divide_of_nat_eq)
  finally have "(word_of_int \<lfloor>real (unat c) * 0.9\<rfloor> :: u32) = word_of_nat (unat c * 9 div 10)" by simp
  moreover have "unat c * 9 div 10 < 2 ^ 32" using unat_bound [of c] by simp
  ultimately show ?thesis by (simp add: unat_of_nat)
qed

context reliable_backend
begin

lemma history_count_table:
  assumes "sound s" and "table ''msg_'' js (entries s) H" and "card (dom H) < 2 ^ 32"
  shows "unat (history_count B s) = card (dom H)"
  using table_count [OF assms(1,2)] assms(3) by (simp add: history_count_def count_or_zero_def unat_of_nat)

lemma enforce_age_reduces:
  assumes "sound s" and "table ''msg_'' js (entries s) H" and inv: "\<And>r. from_json (js r) = Inr r"
  shows "\<exists>s'. enforce_age B from_json rc now s = (Inr (), s') \<and> reduces sound entries js H s' (expired rc now H)"
proof (cases "rc_max_age_days rc > 0")
  case True
  with prune_before_table [OF assms(1,2) inv, of "age_cutoff rc now"] show ?thesis
    by (auto simp: enforce_age_def expired_def reduces_def expired_oldest)
next
  case False
  then show ?thesis using assms(1,2) by (simp add: enforce_age_def expired_def reduces_def restrict_map_def)
qed

lemma retention_reduces:
  assumes "sound s" and "table ''msg_'' js (entries s) H" and inv: "\<And>r. from_json (js r) = Inr r"
  shows "\<exists>n s' S. enforce_retention B from_json mx s = (Some (Inr n), s') \<and> reduces sound entries js H s' S
    \<and> card (dom H - S) = min (card (dom H)) (unat mx)"
  using enforce_retention_table [OF assms, of mx] unfolding reduces_def by blast

lemma enforce_cap_reduces:
  assumes "sound s" and "table ''msg_'' js (entries s) H" and inv: "\<And>r. from_json (js r) = Inr r" and "card (dom H) < 2 ^ 32"
  shows "\<exists>s' S. enforce_cap B from_json rc s = (Some (Inr ()), s') \<and> reduces sound entries js H s' S
    \<and> card (dom H - S) = capped rc (card (dom H))"
proof (cases "rc_max_messages rc > 0 \<and> history_count B s > rc_max_messages rc")
  case True
  with retention_reduces [OF assms(1-3), of "rc_max_messages rc"] show ?thesis
    by (auto simp: enforce_cap_def capped_def)
next
  case False
  then have "capped rc (card (dom H)) = card (dom H)"
    using history_count_table [OF assms(1,2,4)] by (auto simp: capped_def word_less_nat_alt)
  then show ?thesis using False assms(1,2) by (intro exI [of _ s] exI [of _ "{}"]) (auto simp: enforce_cap_def reduces_def restrict_map_def)
qed

lemma emergency_reduces:
  assumes "sound s" and tab: "table ''msg_'' js (entries s) H" and inv: "\<And>r. from_json (js r) = Inr r" and "card (dom H) < 2 ^ 32"
  shows "\<exists>s' S. emergency_prune B (\<lambda>l. Inr (ljs l)) log_from_json from_json logs s = (Some (Inr ()), logs\<lparr>lm_cache := []\<rparr>, s')
    \<and> reduces sound entries js H s' S \<and> card (dom H - S) = squeezed True (card (dom H))"
proof -
  obtain m s1 where s1: "prune_oldest B (\<lambda>l. Inr (ljs l)) log_from_json 100 logs s = (Inr m, logs\<lparr>lm_cache := []\<rparr>, s1)" "sound s1"
    "only_under {''log_sum_''} (entries s) (entries s1)"
    using prune_oldest_ok [OF assms(1)] by blast
  have tab1: "table ''msg_'' js (entries s1) H"
    by (rule only_under_table [OF s1(3) tab]) (simp add: apart_def)
  have cnt: "unat (history_count B s1) = card (dom H)" by (rule history_count_table [OF s1(2) tab1 assms(4)])
  show ?thesis
  proof (cases "history_count B s1 > 100")
    case True
    then have "card (dom H) > 100" using cnt by (simp add: word_less_nat_alt)
    then have sq: "squeezed True (card (dom H)) = min (card (dom H)) (card (dom H) * 9 div 10)" by (simp add: squeezed_def)
    let ?k = "word_of_int \<lfloor>real (unat (history_count B s1)) * 0.9\<rfloor> :: u32"
    obtain n s2 S where s2: "enforce_retention B from_json ?k s1 = (Some (Inr n), s2)" "reduces sound entries js H s2 S"
      "card (dom H - S) = min (card (dom H)) (unat ?k)"
      using retention_reduces [OF s1(2) tab1 inv] by blast
    have "card (dom H - S) = squeezed True (card (dom H))" using s2(3) unfolding to_keep unfolding cnt sq .
    then show ?thesis using True s2(1,2) by (auto simp: emergency_prune_def s1(1))
  next
    case False
    then have "\<not> card (dom H) > 100" using cnt by (simp add: word_less_nat_alt)
    then have "squeezed True (card (dom H)) = card (dom H)" by (simp add: squeezed_def)
    then show ?thesis
      using False s1 tab1 by (intro exI [of _ s1] exI [of _ "{}"]) (simp add: emergency_prune_def reduces_def restrict_map_def)
  qed
qed

lemma age_cap_reduces:
  assumes "sound s" and tab: "table ''msg_'' js (entries s) H" and inv: "\<And>r. from_json (js r) = Inr r"
    and fin: "finite (dom H)" and small: "card (dom H) < 2 ^ 32"
  shows "\<exists>s1 s2 S. enforce_age B from_json rc now s = (Inr (), s1) \<and> enforce_cap B from_json rc s1 = (Some (Inr ()), s2)
    \<and> reduces sound entries js H s2 S \<and> expired rc now H \<subseteq> S \<and> card (dom H - S) = capped rc (card (dom H - expired rc now H))"
proof -
  let ?E = "expired rc now H"
  obtain s1 where s1: "enforce_age B from_json rc now s = (Inr (), s1)" "reduces sound entries js H s1 ?E"
    using enforce_age_reduces [OF assms(1-3)] by blast
  let ?H1 = "H |` (- ?E)"
  have H1: "dom ?H1 = dom H - ?E" by (auto simp: dom_restrict)
  have "card (dom ?H1) \<le> card (dom H)" unfolding H1 by (rule card_mono [OF fin]) auto
  then have small1: "card (dom ?H1) < 2 ^ 32" using small by simp
  obtain s2 S2 where s2: "enforce_cap B from_json rc s1 = (Some (Inr ()), s2)" "reduces sound entries js ?H1 s2 S2"
    "card (dom ?H1 - S2) = capped rc (card (dom ?H1))"
    using enforce_cap_reduces [OF _ _ inv small1, where s = s1 and rc = rc] s1(2) unfolding reduces_def by blast
  have "dom H - (?E \<union> S2) = dom ?H1 - S2" by (auto simp: dom_restrict)
  then have "card (dom H - (?E \<union> S2)) = capped rc (card (dom H - ?E))" using s2(3) unfolding H1 by simp
  then show ?thesis using s1(1) s2(1) reduces_trans [OF s1(2) s2(2)] by blast
qed

lemma perform_maintenance_reduces:
  fixes sm :: storage_manager
  assumes "sound s" and tab: "table ''msg_'' js (entries s) H" and inv: "\<And>r. from_json (js r) = Inr r"
    and fin: "finite (dom H)" and small: "card (dom H) < 2 ^ 32"
  defines "rc \<equiv> sm_retention sm"
  shows "\<exists>sm' s' S. perform_maintenance B (\<lambda>l. Inr (ljs l)) log_from_json from_json now sm s = (Some (Inr ()), sm', s')
    \<and> reduces sound entries js H s' S \<and> expired rc now H \<subseteq> S
    \<and> card (dom H - S) = squeezed (low_space (sm_stats sm)) (capped rc (card (dom H - expired rc now H)))"
proof -
  obtain s1 s2 S where s2: "enforce_age B from_json rc now s = (Inr (), s1)" "enforce_cap B from_json rc s1 = (Some (Inr ()), s2)"
    and r2: "reduces sound entries js H s2 S" "expired rc now H \<subseteq> S" "card (dom H - S) = capped rc (card (dom H - expired rc now H))"
    using age_cap_reduces [OF assms(1-5)] by blast
  let ?H2 = "H |` (- S)"
  have H2: "dom ?H2 = dom H - S" by (auto simp: dom_restrict)
  have "card (dom ?H2) \<le> card (dom H)" unfolding H2 by (rule card_mono [OF fin]) auto
  then have small2: "card (dom ?H2) < 2 ^ 32" using small by simp
  show ?thesis
  proof (cases "low_space (sm_stats sm)")
    case False
    then have "perform_maintenance B (\<lambda>l. Inr (ljs l)) log_from_json from_json now sm s = (Some (Inr ()), sm, s2)"
      using s2 by (simp add: perform_maintenance_def rc_def)
    then show ?thesis using r2 False by (auto simp: squeezed_def)
  next
    case True
    obtain s3 S3 where s3: "emergency_prune B (\<lambda>l. Inr (ljs l)) log_from_json from_json (sm_logs sm) s2
        = (Some (Inr ()), (sm_logs sm)\<lparr>lm_cache := []\<rparr>, s3)" "reduces sound entries js ?H2 s3 S3"
      "card (dom ?H2 - S3) = squeezed True (card (dom ?H2))"
      using emergency_reduces [OF _ _ inv small2, where s = s2] r2(1) unfolding reduces_def by blast
    have "perform_maintenance B (\<lambda>l. Inr (ljs l)) log_from_json from_json now sm s
        = (Some (Inr ()), sm\<lparr>sm_logs := (sm_logs sm)\<lparr>lm_cache := []\<rparr>\<rparr>, s3)"
      using s2 s3(1) True by (simp add: perform_maintenance_def rc_def)
    moreover have "reduces sound entries js H s3 (S \<union> S3)" by (rule reduces_trans [OF r2(1) s3(2)])
    moreover have "dom H - (S \<union> S3) = dom ?H2 - S3" by (auto simp: dom_restrict)
    then have "card (dom H - (S \<union> S3)) = squeezed True (capped rc (card (dom H - expired rc now H)))"
      using s3(3) r2(3) unfolding H2 by simp
    ultimately show ?thesis using r2(2) True by (intro exI conjI) auto
  qed
qed

end

section \<open>What maintenance promises\<close>

text \<open>
  C17. Maintenance enforces the retention policy exactly: over a store that holds the history \<open>H\<close> it succeeds, every message
  older than the configured age is gone, no message it removes is newer than one it keeps, and the number
  kept is the number of the others reduced to the configured maximum and then, if less than a fifth of the
  disk is free and more than a hundred remain, to nine tenths.
\<close>

theorem maintenance_exact:
  assumes hist: "holds_history js s H" and inv: "\<And>r. from_json (js r) = Inr r" and fin: "finite (dom H)" and small: "card (dom H) < 2 ^ 32"
  shows "\<exists>sm' s' S. perform_maintenance memory_backend (\<lambda>l. Inr (ljs l)) log_from_json from_json now sm s = (Some (Inr ()), sm', s')
    \<and> holds_history js s' (H |` (- S)) \<and> expired (sm_retention sm) now H \<subseteq> S
    \<and> (\<forall>i \<in> S. \<forall>j \<in> dom H - S. hr_timestamp (the (H i)) \<le> hr_timestamp (the (H j)))
    \<and> card (dom H - S) = squeezed (low_space (sm_stats sm)) (capped (sm_retention sm) (card (dom H - expired (sm_retention sm) now H)))"
proof -
  have keyed: "keyed (H |` S)" for S using hist by (auto simp: holds_history_def keyed_def restrict_map_def split: if_splits)
  show ?thesis
    using memory.perform_maintenance_reduces [OF _ _ inv fin small, of s] hist keyed
    unfolding reduces_def oldest_def holds_history_def by blast
qed

lemma finite_sample: "finite (dom sample_messages)" "card (dom sample_messages) = 2"
  by (simp_all add: sample_messages_def)

definition sample_manager :: storage_manager where
  "sample_manager = storage_manager_with_retention \<lparr>lm_install_time = 0, lm_cache = []\<rparr> (retention_new 1 0)"

theorem maintenance_exact_witness:
  "\<exists>sm' s' S. perform_maintenance memory_backend (\<lambda>l. Inr []) (\<lambda>_. Inl ''eof'') record_deser 9 sample_manager sample_history = (Some (Inr ()), sm', s')
    \<and> holds_history record_ser s' (sample_messages |` (- S)) \<and> expired (sm_retention sample_manager) 9 sample_messages \<subseteq> S
    \<and> (\<forall>i \<in> S. \<forall>j \<in> dom sample_messages - S. hr_timestamp (the (sample_messages i)) \<le> hr_timestamp (the (sample_messages j)))
    \<and> card (dom sample_messages - S) = squeezed (low_space (sm_stats sample_manager))
        (capped (sm_retention sample_manager) (card (dom sample_messages - expired (sm_retention sample_manager) 9 sample_messages)))"
  by (rule maintenance_exact [OF sample_holds record_deser_ser]) (simp_all add: finite_sample)

text \<open>
  An outbox may be given the storage manager: whatever the stored records parse to and even when maintenance fails,
  maintenance leaves every queued message alone, so an outbox with a storage manager still
  stands for the same queue.
\<close>

lemma outbox_with_storage_holds:
  assumes "hm_wf s" and "represents sr (hm_get s) Q"
  shows "holds_queue hm_wf hm_get sr
    (outbox_persistent_with_storage s
      (\<lambda>s. snd (snd (perform_maintenance memory_backend (\<lambda>l. Inr (ljs l)) log_from_json from_json now sm s)))) Q"
proof -
  let ?f = "\<lambda>s. snd (snd (perform_maintenance memory_backend (\<lambda>l. Inr (ljs l)) log_from_json from_json now sm s))"
  have "hm_wf (?f t) \<and> (\<forall>k. starts_with QUEUE_PREFIX k \<longrightarrow> hm_get (?f t) k = hm_get t k)" if "hm_wf t" for t
  proof -
    have "frame (\<lambda>s. hm_wf s) hm_get t (?f t)" by (rule memory.perform_maintenance_frame [OF that])
    moreover have "\<not> starts_with (as_bytes p) k" if "p \<in> {''msg_'', ''log_sum_''}" "starts_with QUEUE_PREFIX k" for p k
    proof -
      have "apart p ''outbox_''" using that(1) by (auto simp: apart_def)
      then show ?thesis using that(2) unfolding QUEUE_PREFIX_def starts_with_table by (metis apart_key)
    qed
    ultimately show ?thesis by (simp add: frame_def only_under_def)
  qed
  then show ?thesis using assms by (simp add: holds_queue_def keeps_queue_def outbox_persistent_with_storage_def)
qed

end
