(* ===== verification/Store_Blocked.thy ===== *)
theory Store_Blocked
  imports Store_Table
begin

text \<open>
  Blocked identities and the device registry of \<open>src/core/src/store/blocked.rs\<close>. A block record is stored
  below \<open>blocked:\<close> under the peer id, or under peer id and device id for a single device; the registry of a
  peer's devices is below \<open>blocked_devs:\<close>. JSON and the clock are arguments. The lemmas
  show which identities are blocked after each operation, for peer ids without a colon, and that every
  registered device of a blocked peer has a block of its own.
\<close>

section \<open>Definitions\<close>

record blocked_identity =
  bi_peer_id :: string
  bi_device_id :: "string option"
  bi_blocked_at :: u64
  bi_reason :: "string option"
  bi_notes :: "string option"
  bi_is_deleted :: bool

definition blocked_new :: "u64 \<Rightarrow> string \<Rightarrow> blocked_identity" where
  "blocked_new now peer_id =
     \<lparr>bi_peer_id = peer_id, bi_device_id = None, bi_blocked_at = now, bi_reason = None, bi_notes = None, bi_is_deleted = False\<rparr>"

definition blocked_full_relay :: "u64 \<Rightarrow> blocked_identity" where
  "blocked_full_relay now = blocked_new now ''relay-stub''"

definition blocked_with_device_id :: "string \<Rightarrow> blocked_identity \<Rightarrow> blocked_identity" where
  "blocked_with_device_id device_id b = b\<lparr>bi_device_id := Some device_id\<rparr>"

definition blocked_with_reason :: "string \<Rightarrow> blocked_identity \<Rightarrow> blocked_identity" where
  "blocked_with_reason reason b = b\<lparr>bi_reason := Some reason\<rparr>"

fun block_slot :: "string \<Rightarrow> string option \<Rightarrow> string" where
  "block_slot peer_id None = peer_id"
| "block_slot peer_id (Some device_id) = peer_id @ '':'' @ device_id"

definition BLOCKED_PREFIX :: string where
  "BLOCKED_PREFIX = ''blocked:''"

definition DEVICE_REGISTRY_PREFIX :: string where
  "DEVICE_REGISTRY_PREFIX = ''blocked_devs:''"

definition block_key :: "string \<Rightarrow> string option \<Rightarrow> bytes" where
  "block_key peer_id device_id = table_key BLOCKED_PREFIX (block_slot peer_id device_id)"

definition registry_key :: "string \<Rightarrow> bytes" where
  "registry_key peer_id = table_key DEVICE_REGISTRY_PREFIX peer_id"

definition storage_key :: "blocked_identity \<Rightarrow> bytes" where
  "storage_key b = block_key (bi_peer_id b) (bi_device_id b)"

definition put_block ::
  "'s storage_backend \<Rightarrow> (blocked_identity \<Rightarrow> string + bytes) \<Rightarrow> blocked_identity \<Rightarrow> 's \<Rightarrow> (core_error + unit) \<times> 's" where
  "put_block B to_json b s =
     (case to_json b of Inl _ \<Rightarrow> (Inl Internal, s) | Inr v \<Rightarrow> st_put B (storage_key b) v s)"

definition get_known_devices ::
  "'s storage_backend \<Rightarrow> (bytes \<Rightarrow> string + string list) \<Rightarrow> string \<Rightarrow> 's \<Rightarrow> core_error + string list" where
  "get_known_devices B devs_from_json peer_id s =
     try_res (storage_res (bk_get B (registry_key peer_id) s)) (\<lambda>found.
       case found of None \<Rightarrow> Inr [] | Some data \<Rightarrow> json_res (devs_from_json data))"

fun block_devices ::
  "'s storage_backend \<Rightarrow> (blocked_identity \<Rightarrow> string + bytes) \<Rightarrow> blocked_identity \<Rightarrow> string list \<Rightarrow> 's \<Rightarrow> (core_error + unit) \<times> 's" where
  "block_devices B to_json b [] s = (Inr (), s)"
| "block_devices B to_json b (device_id # devices) s =
     and_then (put_block B to_json (b\<lparr>bi_device_id := Some device_id\<rparr>) s) (\<lambda>_ s'. block_devices B to_json b devices s')"

definition block_identity ::
  "'s storage_backend \<Rightarrow> (blocked_identity \<Rightarrow> string + bytes) \<Rightarrow> (bytes \<Rightarrow> string + string list) \<Rightarrow> blocked_identity \<Rightarrow> 's \<Rightarrow> (core_error + unit) \<times> 's" where
  "block_identity B to_json devs_from_json b s =
     and_then (put_block B to_json b s) (\<lambda>_ s'.
       if bi_device_id b = None then
         (case get_known_devices B devs_from_json (bi_peer_id b) s' of
            Inl e \<Rightarrow> (Inl e, s')
          | Inr devices \<Rightarrow> block_devices B to_json b devices s')
       else (Inr (), s'))"

definition block_and_delete ::
  "'s storage_backend \<Rightarrow> (blocked_identity \<Rightarrow> string + bytes) \<Rightarrow> (bytes \<Rightarrow> string + string list) \<Rightarrow> u64 \<Rightarrow> string \<Rightarrow> string option \<Rightarrow> 's \<Rightarrow> (core_error + unit) \<times> 's" where
  "block_and_delete B to_json devs_from_json now peer_id reason s =
     block_identity B to_json devs_from_json
       ((blocked_new now peer_id)\<lparr>bi_is_deleted := True, bi_reason := reason\<rparr>) s"

definition unregister_device_from_registry ::
  "'s storage_backend \<Rightarrow> (string list \<Rightarrow> string + bytes) \<Rightarrow> (bytes \<Rightarrow> string + string list) \<Rightarrow> string \<Rightarrow> string \<Rightarrow> 's \<Rightarrow> (core_error + unit) \<times> 's" where
  "unregister_device_from_registry B devs_to_json devs_from_json peer_id device_id s =
     (case get_known_devices B devs_from_json peer_id s of
        Inl e \<Rightarrow> (Inl e, s)
      | Inr known \<Rightarrow>
          let devices = filter (\<lambda>d. d \<noteq> device_id) known
          in if devices = [] then st_remove B (registry_key peer_id) s
             else (case devs_to_json devices of
                     Inl _ \<Rightarrow> (Inl Internal, s)
                   | Inr encoded \<Rightarrow> st_put B (registry_key peer_id) encoded s))"

definition unblock_identity ::
  "'s storage_backend \<Rightarrow> (string list \<Rightarrow> string + bytes) \<Rightarrow> (bytes \<Rightarrow> string + string list) \<Rightarrow> string \<Rightarrow> string option \<Rightarrow> 's \<Rightarrow> (core_error + unit) \<times> 's" where
  "unblock_identity B devs_to_json devs_from_json peer_id device_id s =
     (case device_id of
        Some did \<Rightarrow>
          and_then (st_remove B (block_key peer_id (Some did)) s) (\<lambda>_ s'.
            unregister_device_from_registry B devs_to_json devs_from_json peer_id did s')
      | None \<Rightarrow>
          and_then (st_remove B (block_key peer_id None) s) (\<lambda>_ s1.
            case get_known_devices B devs_from_json peer_id s1 of
              Inl e \<Rightarrow> (Inl e, s1)
            | Inr devices \<Rightarrow>
                and_then (remove_each B (map (\<lambda>did. block_key peer_id (Some did)) devices) s1) (\<lambda>_ s2.
                  st_remove B (registry_key peer_id) s2)))"

definition is_blocked :: "'s storage_backend \<Rightarrow> string \<Rightarrow> string option \<Rightarrow> 's \<Rightarrow> core_error + bool" where
  "is_blocked B peer_id device_id s =
     try_res (case device_id of
                Some d \<Rightarrow> try_res (storage_res (bk_get B (block_key peer_id (Some d)) s)) (\<lambda>found. Inr (found \<noteq> None))
              | None \<Rightarrow> Inr False)
       (\<lambda>device_blocked.
          if device_blocked then Inr True
          else try_res (storage_res (bk_get B (block_key peer_id None) s)) (\<lambda>found. Inr (found \<noteq> None)))"

definition blocked_get ::
  "'s storage_backend \<Rightarrow> (bytes \<Rightarrow> string + blocked_identity) \<Rightarrow> string \<Rightarrow> string option \<Rightarrow> 's \<Rightarrow> core_error + blocked_identity option" where
  "blocked_get B from_json peer_id device_id s =
     try_res (storage_res (bk_get B (block_key peer_id device_id) s)) (\<lambda>found.
       case found of
         None \<Rightarrow> Inr None
       | Some data \<Rightarrow> try_res (json_res (from_json data)) (\<lambda>b. Inr (Some b)))"

definition blocked_list ::
  "'s storage_backend \<Rightarrow> (bytes \<Rightarrow> string + blocked_identity) \<Rightarrow> 's \<Rightarrow> core_error + blocked_identity list" where
  "blocked_list B from_json s =
     try_res (storage_res (bk_scan_prefix B (as_bytes BLOCKED_PREFIX) s)) (\<lambda>es.
     try_res (parse_all from_json es) (\<lambda>bs. Inr (sort_key (\<lambda>b. - int (unat (bi_blocked_at b))) bs)))"

definition blocked_count ::
  "'s storage_backend \<Rightarrow> (bytes \<Rightarrow> string + blocked_identity) \<Rightarrow> 's \<Rightarrow> core_error + nat" where
  "blocked_count B from_json s = try_res (blocked_list B from_json s) (\<lambda>bs. Inr (length bs))"

definition is_blocked_and_deleted ::
  "'s storage_backend \<Rightarrow> (bytes \<Rightarrow> string + blocked_identity) \<Rightarrow> string \<Rightarrow> 's \<Rightarrow> core_error + bool" where
  "is_blocked_and_deleted B from_json peer_id s =
     try_res (blocked_get B from_json peer_id None s) (\<lambda>found.
       case found of None \<Rightarrow> Inr False | Some b \<Rightarrow> Inr (bi_is_deleted b))"

definition blocked_only_peer_ids ::
  "'s storage_backend \<Rightarrow> (bytes \<Rightarrow> string + blocked_identity) \<Rightarrow> 's \<Rightarrow> core_error + string set" where
  "blocked_only_peer_ids B from_json s =
     try_res (blocked_list B from_json s) (\<lambda>bs. Inr (set (map bi_peer_id (filter (\<lambda>b. \<not> bi_is_deleted b) bs))))"

definition register_device_id ::
  "'s storage_backend \<Rightarrow> (blocked_identity \<Rightarrow> string + bytes) \<Rightarrow> (bytes \<Rightarrow> string + blocked_identity) \<Rightarrow> (string list \<Rightarrow> string + bytes) \<Rightarrow> (bytes \<Rightarrow> string + string list) \<Rightarrow> u64 \<Rightarrow> string \<Rightarrow> string \<Rightarrow> 's \<Rightarrow> (core_error + bool) \<times> 's" where
  "register_device_id B to_json from_json devs_to_json devs_from_json now peer_id device_id s =
     (case get_known_devices B devs_from_json peer_id s of
        Inl e \<Rightarrow> (Inl e, s)
      | Inr devices \<Rightarrow>
          if device_id \<in> set devices then (Inr False, s)
          else (case devs_to_json (devices @ [device_id]) of
                  Inl _ \<Rightarrow> (Inl Internal, s)
                | Inr encoded \<Rightarrow>
                    and_then (st_put B (registry_key peer_id) encoded s) (\<lambda>_ s1.
                      case is_blocked B peer_id None s1 of
                        Inl e \<Rightarrow> (Inl e, s1)
                      | Inr False \<Rightarrow> (Inr True, s1)
                      | Inr True \<Rightarrow>
                          (case blocked_get B from_json peer_id None s1 of
                             Inl e \<Rightarrow> (Inl e, s1)
                           | Inr peer_block \<Rightarrow>
                               and_then (put_block B to_json
                                 \<lparr>bi_peer_id = peer_id, bi_device_id = Some device_id,
                                  bi_blocked_at = (case peer_block of Some b \<Rightarrow> bi_blocked_at b | None \<Rightarrow> now),
                                  bi_reason = Option.bind peer_block bi_reason, bi_notes = None,
                                  bi_is_deleted = (case peer_block of Some b \<Rightarrow> bi_is_deleted b | None \<Rightarrow> False)\<rparr> s1)
                                 (\<lambda>_ s2. (Inr True, s2))))))"

fun register_device_ids ::
  "'s storage_backend \<Rightarrow> (blocked_identity \<Rightarrow> string + bytes) \<Rightarrow> (bytes \<Rightarrow> string + blocked_identity) \<Rightarrow> (string list \<Rightarrow> string + bytes) \<Rightarrow> (bytes \<Rightarrow> string + string list) \<Rightarrow> u64 \<Rightarrow> string \<Rightarrow> string list \<Rightarrow> nat \<Rightarrow> 's \<Rightarrow> (core_error + nat) \<times> 's" where
  "register_device_ids B to_json from_json devs_to_json devs_from_json now peer_id [] n s = (Inr n, s)"
| "register_device_ids B to_json from_json devs_to_json devs_from_json now peer_id (d # ds) n s =
     and_then (register_device_id B to_json from_json devs_to_json devs_from_json now peer_id d s) (\<lambda>new s'.
       register_device_ids B to_json from_json devs_to_json devs_from_json now peer_id ds (if new then n + 1 else n) s')"

definition is_device_blocked ::
  "'s storage_backend \<Rightarrow> string \<Rightarrow> string \<Rightarrow> 's \<Rightarrow> core_error + bool" where
  "is_device_blocked B peer_id device_id s = is_blocked B peer_id (Some device_id) s"

section \<open>The block list as a map\<close>

type_synonym block_map = "string \<rightharpoonup> blocked_identity"
type_synonym registry = "string \<rightharpoonup> string list"

definition devices_of :: "registry \<Rightarrow> string \<Rightarrow> string list" where
  "devices_of R p = (case R p of None \<Rightarrow> [] | Some ds \<Rightarrow> ds)"

fun block_all :: "blocked_identity \<Rightarrow> string list \<Rightarrow> block_map \<Rightarrow> block_map" where
  "block_all b [] M = M"
| "block_all b (d # ds) M = block_all b ds (M(block_slot (bi_peer_id b) (Some d) \<mapsto> b\<lparr>bi_device_id := Some d\<rparr>))"

definition a_block :: "blocked_identity \<Rightarrow> registry \<Rightarrow> block_map \<Rightarrow> block_map" where
  "a_block b R M =
     (let M' = M(block_slot (bi_peer_id b) (bi_device_id b) \<mapsto> b)
      in if bi_device_id b = None then block_all b (devices_of R (bi_peer_id b)) M' else M')"

definition a_unregister :: "string \<Rightarrow> string \<Rightarrow> registry \<Rightarrow> registry" where
  "a_unregister p d R = (let ds = filter (\<lambda>e. e \<noteq> d) (devices_of R p) in R(p := if ds = [] then None else Some ds))"

fun a_unblock :: "string \<Rightarrow> string option \<Rightarrow> registry \<Rightarrow> block_map \<Rightarrow> block_map" where
  "a_unblock p (Some d) R M = M(block_slot p (Some d) := None)"
| "a_unblock p None R M = M(block_slot p None := None) |` (- (\<lambda>d. block_slot p (Some d)) ` set (devices_of R p))"

definition device_block :: "block_map \<Rightarrow> u64 \<Rightarrow> string \<Rightarrow> string \<Rightarrow> blocked_identity" where
  "device_block M now p d =
     \<lparr>bi_peer_id = p, bi_device_id = Some d, bi_blocked_at = (case M p of Some b \<Rightarrow> bi_blocked_at b | None \<Rightarrow> now),
      bi_reason = Option.bind (M p) bi_reason, bi_notes = None,
      bi_is_deleted = (case M p of Some b \<Rightarrow> bi_is_deleted b | None \<Rightarrow> False)\<rparr>"

definition a_register :: "u64 \<Rightarrow> string \<Rightarrow> string \<Rightarrow> registry \<Rightarrow> block_map \<Rightarrow> block_map \<times> registry" where
  "a_register now p d R M =
     (if d \<in> set (devices_of R p) then (M, R)
      else (if M p = None then M else M(block_slot p (Some d) \<mapsto> device_block M now p d), R(p \<mapsto> devices_of R p @ [d])))"

definition holds_blocks ::
  "(blocked_identity \<Rightarrow> bytes) \<Rightarrow> (string list \<Rightarrow> bytes) \<Rightarrow> (bytes \<rightharpoonup> bytes) \<Rightarrow> block_map \<Rightarrow> registry \<Rightarrow> bool" where
  "holds_blocks js djs E M R \<longleftrightarrow> table BLOCKED_PREFIX js E M \<and> table DEVICE_REGISTRY_PREFIX djs E R"

definition blocked_in :: "block_map \<Rightarrow> string \<Rightarrow> string option \<Rightarrow> bool" where
  "blocked_in M p d \<longleftrightarrow> M (block_slot p None) \<noteq> None \<or> d \<noteq> None \<and> M (block_slot p d) \<noteq> None"

lemma prefixes_apart [simp]: "apart BLOCKED_PREFIX DEVICE_REGISTRY_PREFIX" "apart DEVICE_REGISTRY_PREFIX BLOCKED_PREFIX"
  by (simp_all add: apart_def BLOCKED_PREFIX_def DEVICE_REGISTRY_PREFIX_def)

lemma holds_put_block:
  "holds_blocks js djs E M R \<Longrightarrow> holds_blocks js djs (E(block_key p d \<mapsto> js b)) (M(block_slot p d \<mapsto> b)) R"
  unfolding holds_blocks_def block_key_def by (simp add: table_update table_other)

lemma holds_remove_block:
  "holds_blocks js djs E M R \<Longrightarrow> holds_blocks js djs (E(block_key p d := None)) (M(block_slot p d := None)) R"
  unfolding holds_blocks_def block_key_def by (simp add: table_delete table_other)

lemma holds_put_registry:
  "holds_blocks js djs E M R \<Longrightarrow> holds_blocks js djs (E(registry_key p \<mapsto> djs ds)) M (R(p \<mapsto> ds))"
  unfolding holds_blocks_def registry_key_def by (simp add: table_update table_other)

lemma holds_remove_registry:
  "holds_blocks js djs E M R \<Longrightarrow> holds_blocks js djs (E(registry_key p := None)) M (R(p := None))"
  unfolding holds_blocks_def registry_key_def by (simp add: table_delete table_other)

lemma holds_restrict_blocks:
  "holds_blocks js djs E M R \<Longrightarrow> holds_blocks js djs (E |` (- (\<lambda>d. block_key p (Some d)) ` D)) (M |` (- (\<lambda>d. block_slot p (Some d)) ` D)) R"
proof -
  have "(\<lambda>d. block_key p (Some d)) ` D = table_key BLOCKED_PREFIX ` (\<lambda>d. block_slot p (Some d)) ` D"
    unfolding block_key_def image_image ..
  then show "holds_blocks js djs E M R \<Longrightarrow> ?thesis"
    unfolding holds_blocks_def by (simp only: table_restrict table_restrict_other prefixes_apart)
qed

context reliable_backend
begin

lemma put_block_ok:
  assumes "sound s" and "holds_blocks js djs (entries s) M R"
  shows "\<exists>s'. put_block B (\<lambda>b. Inr (js b)) b s = (Inr (), s') \<and> sound s'
    \<and> holds_blocks js djs (entries s') (M(block_slot (bi_peer_id b) (bi_device_id b) \<mapsto> b)) R"
proof -
  obtain s' where "st_put B (storage_key b) (js b) s = (Inr (), s')" "sound s'" "entries s' = (entries s)(storage_key b \<mapsto> js b)"
    by (rule st_putE [OF assms(1)])
  then show ?thesis using holds_put_block [OF assms(2)] by (simp add: put_block_def storage_key_def)
qed

lemma block_devices_ok:
  "sound s \<Longrightarrow> holds_blocks js djs (entries s) M R \<Longrightarrow>
   \<exists>s'. block_devices B (\<lambda>b. Inr (js b)) b ds s = (Inr (), s') \<and> sound s' \<and> holds_blocks js djs (entries s') (block_all b ds M) R"
proof (induction ds arbitrary: s M)
  case (Cons d ds)
  obtain s1 where s1: "put_block B (\<lambda>b. Inr (js b)) (b\<lparr>bi_device_id := Some d\<rparr>) s = (Inr (), s1)" "sound s1"
    "holds_blocks js djs (entries s1) (M(block_slot (bi_peer_id b) (Some d) \<mapsto> b\<lparr>bi_device_id := Some d\<rparr>)) R"
    using put_block_ok [OF Cons.prems, of "b\<lparr>bi_device_id := Some d\<rparr>"] by auto
  let ?M = "M(block_slot (bi_peer_id b) (Some d) \<mapsto> b\<lparr>bi_device_id := Some d\<rparr>)"
  have "block_all b (d # ds) M = block_all b ds ?M" by (rule block_all.simps)
  then show ?case using s1(1) Cons.IH [where M = ?M, OF s1(2,3)] by (simp only: block_devices.simps and_then_simps)
qed simp

lemma known_devices:
  assumes "sound s" and "holds_blocks js djs (entries s) M R" and "\<And>ds. dfj (djs ds) = Inr ds"
  shows "get_known_devices B dfj p s = Inr (devices_of R p)"
  using assms get_ok [OF assms(1)] tableD [of DEVICE_REGISTRY_PREFIX djs "entries s" R p]
  by (cases "R p") (simp_all add: get_known_devices_def holds_blocks_def registry_key_def storage_res_def json_res_def devices_of_def)

lemma get_block:
  assumes "sound s" and "holds_blocks js djs (entries s) M R"
  shows "bk_get B (block_key p d) s = Inr (map_option js (M (block_slot p d)))"
  using get_ok [OF assms(1)] tableD [of BLOCKED_PREFIX js "entries s" M] assms(2) by (simp add: holds_blocks_def block_key_def)

lemma is_blocked_ok:
  assumes "sound s" and "holds_blocks js djs (entries s) M R"
  shows "is_blocked B p d s = Inr (blocked_in M p d)"
  using get_block [OF assms] by (cases d) (auto simp: is_blocked_def blocked_in_def storage_res_def)

lemma blocked_get_ok:
  assumes "sound s" and "holds_blocks js djs (entries s) M R" and "\<And>b. fj (js b) = Inr b"
  shows "blocked_get B fj p d s = Inr (M (block_slot p d))"
  using get_block [OF assms(1,2)] assms(3) by (cases "M (block_slot p d)") (auto simp: blocked_get_def storage_res_def json_res_def)

lemma block_ok:
  assumes "sound s" and "holds_blocks js djs (entries s) M R" and dinv: "\<And>ds. dfj (djs ds) = Inr ds"
  shows "\<exists>s'. block_identity B (\<lambda>b. Inr (js b)) dfj b s = (Inr (), s') \<and> sound s'
    \<and> holds_blocks js djs (entries s') (a_block b R M) R"
proof -
  let ?M = "M(block_slot (bi_peer_id b) (bi_device_id b) \<mapsto> b)"
  obtain s1 where s1: "put_block B (\<lambda>b. Inr (js b)) b s = (Inr (), s1)" "sound s1" "holds_blocks js djs (entries s1) ?M R"
    using put_block_ok [OF assms(1,2)] by blast
  obtain s2 where "block_devices B (\<lambda>b. Inr (js b)) b (devices_of R (bi_peer_id b)) s1 = (Inr (), s2)" "sound s2"
    "holds_blocks js djs (entries s2) (block_all b (devices_of R (bi_peer_id b)) ?M) R"
    using block_devices_ok [OF s1(2,3)] by blast
  then show ?thesis
    using s1 known_devices [OF s1(2,3) dinv] by (cases "bi_device_id b") (simp_all add: block_identity_def a_block_def)
qed

lemma unregister_ok:
  assumes "sound s" and "holds_blocks js djs (entries s) M R" and dinv: "\<And>ds. dfj (djs ds) = Inr ds"
  shows "\<exists>s'. unregister_device_from_registry B (\<lambda>ds. Inr (djs ds)) dfj p d s = (Inr (), s') \<and> sound s'
    \<and> holds_blocks js djs (entries s') M (a_unregister p d R)"
proof -
  let ?ds = "filter (\<lambda>e. e \<noteq> d) (devices_of R p)"
  obtain s1 where s1: "st_put B (registry_key p) (djs ?ds) s = (Inr (), s1)" "sound s1" "entries s1 = (entries s)(registry_key p \<mapsto> djs ?ds)"
    by (rule st_putE [OF assms(1)])
  obtain s2 where s2: "st_remove B (registry_key p) s = (Inr (), s2)" "sound s2" "entries s2 = (entries s)(registry_key p := None)"
    by (rule st_removeE [OF assms(1)])
  show ?thesis
    using s1 s2 known_devices [OF assms] holds_put_registry [OF assms(2), of p ?ds] holds_remove_registry [OF assms(2), of p]
    by (cases "?ds = []") (simp_all add: unregister_device_from_registry_def a_unregister_def Let_def)
qed

lemma unblock_ok:
  assumes "sound s" and "holds_blocks js djs (entries s) M R" and dinv: "\<And>ds. dfj (djs ds) = Inr ds"
  shows "\<exists>s'. unblock_identity B (\<lambda>ds. Inr (djs ds)) dfj p d s = (Inr (), s') \<and> sound s'
    \<and> holds_blocks js djs (entries s') (a_unblock p d R M) (case d of None \<Rightarrow> R(p := None) | Some e \<Rightarrow> a_unregister p e R)"
proof -
  obtain s1 where s1: "st_remove B (block_key p d) s = (Inr (), s1)" "sound s1" "entries s1 = (entries s)(block_key p d := None)"
    by (rule st_removeE [OF assms(1)])
  have h1: "holds_blocks js djs (entries s1) (M(block_slot p d := None)) R"
    unfolding s1(3) by (rule holds_remove_block [OF assms(2)])
  show ?thesis
  proof (cases d)
    case (Some e)
    then show ?thesis using s1(1) unregister_ok [OF s1(2) h1 dinv, of p e] by (simp add: unblock_identity_def)
  next
    case None
    let ?ks = "map (\<lambda>e. block_key p (Some e)) (devices_of R p)"
    obtain s2 where s2: "remove_each B ?ks s1 = (Inr (), s2)" "sound s2" "entries s2 = entries s1 |` (- set ?ks)"
      using remove_each_ok [OF s1(2)] by blast
    have "holds_blocks js djs (entries s2) (a_unblock p None R M) R"
      using holds_restrict_blocks [OF h1, of p "set (devices_of R p)"] None unfolding s2(3) by simp
    note h2 = holds_remove_registry [OF this, of p]
    obtain s3 where "st_remove B (registry_key p) s2 = (Inr (), s3)" "sound s3" "entries s3 = (entries s2)(registry_key p := None)"
      by (rule st_removeE [OF s2(2)])
    then show ?thesis using h2 s1(1) s2(1) known_devices [OF s1(2) h1 dinv, of p] None by (simp add: unblock_identity_def)
  qed
qed

lemma register_ok:
  assumes "sound s" and "holds_blocks js djs (entries s) M R" and inv: "\<And>b. fj (js b) = Inr b" and dinv: "\<And>ds. dfj (djs ds) = Inr ds"
  shows "\<exists>s'. register_device_id B (\<lambda>b. Inr (js b)) fj (\<lambda>ds. Inr (djs ds)) dfj now p d s = (Inr (d \<notin> set (devices_of R p)), s') \<and> sound s'
    \<and> (case a_register now p d R M of (M', R') \<Rightarrow> holds_blocks js djs (entries s') M' R')"
proof (cases "d \<in> set (devices_of R p)")
  case True
  then show ?thesis using assms known_devices [OF assms(1,2) dinv] by (simp add: register_device_id_def a_register_def)
next
  case False
  let ?R = "R(p \<mapsto> devices_of R p @ [d])"
  obtain s1 where s1: "st_put B (registry_key p) (djs (devices_of R p @ [d])) s = (Inr (), s1)" "sound s1"
    "entries s1 = (entries s)(registry_key p \<mapsto> djs (devices_of R p @ [d]))"
    by (rule st_putE [OF assms(1)])
  have h1: "holds_blocks js djs (entries s1) M ?R" unfolding s1(3) by (rule holds_put_registry [OF assms(2)])
  have blk: "is_blocked B p None s1 = Inr (M p \<noteq> None)" using is_blocked_ok [OF s1(2) h1] by (simp add: blocked_in_def)
  have get: "blocked_get B fj p None s1 = Inr (M p)" using blocked_get_ok [OF s1(2) h1 inv, of p None] by simp
  obtain s2 where s2: "put_block B (\<lambda>b. Inr (js b)) (device_block M now p d) s1 = (Inr (), s2)" "sound s2"
    "holds_blocks js djs (entries s2) (M(block_slot p (Some d) \<mapsto> device_block M now p d)) ?R"
    using put_block_ok [OF s1(2) h1, of "device_block M now p d"] by (auto simp: device_block_def)
  show ?thesis
    using False s1 s2 h1 blk get known_devices [OF assms(1,2) dinv, of p]
    by (cases "M p") (simp_all add: register_device_id_def a_register_def device_block_def)
qed

end

section \<open>Which identities are blocked\<close>

definition colon_free :: "string \<Rightarrow> bool" where
  "colon_free p \<longleftrightarrow> CHR '':'' \<notin> set p"

lemma block_slot_eq [simp]:
  assumes "colon_free p" and "colon_free q"
  shows "block_slot p d = block_slot q e \<longleftrightarrow> p = q \<and> d = e"
proof -
  have split: "p @ CHR '':'' # x = q @ CHR '':'' # y \<Longrightarrow> p = q \<and> x = y" for x y
  proof -
    have "takeWhile (\<lambda>c. c \<noteq> CHR '':'') (r @ CHR '':'' # z) = r" if "colon_free r" for r z
      using that by (auto simp: colon_free_def takeWhile_tail)
    note until = this [OF assms(1), of x] this [OF assms(2), of y]
    assume eq: "p @ CHR '':'' # x = q @ CHR '':'' # y"
    then have "p = q" using until by simp
    then show "p = q \<and> x = y" using eq by simp
  qed
  have "CHR '':'' \<notin> set p" "CHR '':'' \<notin> set q" using assms by (simp_all add: colon_free_def)
  then have "p @ CHR '':'' # x \<noteq> q" "p \<noteq> q @ CHR '':'' # x" for x by auto
  moreover have "p @ CHR '':'' # x = q @ CHR '':'' # y \<longleftrightarrow> p = q \<and> x = y" for x y using split by blast
  ultimately show ?thesis by (cases d; cases e) simp_all
qed

lemma dom_block_all: "dom (block_all b ds M) = dom M \<union> (\<lambda>d. block_slot (bi_peer_id b) (Some d)) ` set ds"
proof (induction ds arbitrary: M)
  case (Cons d ds)
  show ?case unfolding block_all.simps Cons.IH by (simp del: block_slot.simps)
qed simp

lemma dom_a_block:
  "dom (a_block b R M) = dom M \<union> {block_slot (bi_peer_id b) (bi_device_id b)}
    \<union> (if bi_device_id b = None then (\<lambda>d. block_slot (bi_peer_id b) (Some d)) ` set (devices_of R (bi_peer_id b)) else {})"
  by (auto simp: a_block_def Let_def dom_block_all simp del: block_slot.simps)

lemma blocked_in_dom: "blocked_in M p d \<longleftrightarrow> block_slot p None \<in> dom M \<or> d \<noteq> None \<and> block_slot p d \<in> dom M"
  unfolding blocked_in_def dom_def by blast

lemma blocked_in_block:
  assumes "colon_free (bi_peer_id b)" and "colon_free q"
  shows "blocked_in (a_block b R M) q e \<longleftrightarrow>
    blocked_in M q e \<or> q = bi_peer_id b \<and> (bi_device_id b = None \<or> e = bi_device_id b)"
  unfolding blocked_in_dom dom_a_block using assms by (auto simp del: block_slot.simps)

lemma dom_a_unblock:
  "dom (a_unblock p None R M) = dom M - {block_slot p None} - (\<lambda>d. block_slot p (Some d)) ` set (devices_of R p)"
  "dom (a_unblock p (Some d) R M) = dom M - {block_slot p (Some d)}"
  by (auto simp: dom_restrict simp del: block_slot.simps)

lemma blocked_in_unblock:
  assumes "colon_free p" and "colon_free q"
  shows "blocked_in (a_unblock p None R M) q e \<longleftrightarrow>
      (if q = p then \<exists>d. e = Some d \<and> d \<notin> set (devices_of R p) \<and> block_slot p (Some d) \<in> dom M else blocked_in M q e)"
    and "blocked_in (a_unblock p (Some d) R M) q e \<longleftrightarrow>
      (if q = p \<and> e = Some d then blocked_in M p None else blocked_in M q e)"
  unfolding blocked_in_dom dom_a_unblock using assms by (auto simp del: block_slot.simps)

section \<open>Registered devices of blocked peers\<close>

definition paired :: "block_map \<Rightarrow> registry \<Rightarrow> bool" where
  "paired M R \<longleftrightarrow> (\<forall>p. \<forall>d \<in> set (devices_of R p). colon_free p \<longrightarrow> block_slot p None \<in> dom M \<longrightarrow> block_slot p (Some d) \<in> dom M)"

datatype block_op = Block blocked_identity | Register u64 string string | Unblock string "string option"

fun op_peer :: "block_op \<Rightarrow> string" where
  "op_peer (Block b) = bi_peer_id b"
| "op_peer (Register now p d) = p"
| "op_peer (Unblock p d) = p"

fun block_step :: "block_op \<Rightarrow> block_map \<times> registry \<Rightarrow> block_map \<times> registry" where
  "block_step (Block b) (M, R) = (a_block b R M, R)"
| "block_step (Register now p d) (M, R) = a_register now p d R M"
| "block_step (Unblock p d) (M, R) = (a_unblock p d R M, case d of None \<Rightarrow> R(p := None) | Some e \<Rightarrow> a_unregister p e R)"

fun block_exec ::
  "'s storage_backend \<Rightarrow> (blocked_identity \<Rightarrow> string + bytes) \<Rightarrow> (bytes \<Rightarrow> string + blocked_identity) \<Rightarrow> (string list \<Rightarrow> string + bytes) \<Rightarrow> (bytes \<Rightarrow> string + string list) \<Rightarrow> block_op \<Rightarrow> 's \<Rightarrow> 's" where
  "block_exec B to_json from_json devs_to_json devs_from_json (Block b) s = snd (block_identity B to_json devs_from_json b s)"
| "block_exec B to_json from_json devs_to_json devs_from_json (Register now p d) s =
     snd (register_device_id B to_json from_json devs_to_json devs_from_json now p d s)"
| "block_exec B to_json from_json devs_to_json devs_from_json (Unblock p d) s =
     snd (unblock_identity B devs_to_json devs_from_json p d s)"

lemma devices_of_upd:
  "devices_of (R(p := v)) q = (if q = p then (case v of None \<Rightarrow> [] | Some ds \<Rightarrow> ds) else devices_of R q)"
  by (simp add: devices_of_def)

lemma devices_a_unregister: "set (devices_of (a_unregister p d R) q) = set (devices_of R q) - (if q = p then {d} else {})"
  by (auto simp: a_unregister_def Let_def devices_of_upd filter_empty_conv)

lemma paired_block: "colon_free (bi_peer_id b) \<Longrightarrow> paired M R \<Longrightarrow> paired (a_block b R M) R"
  unfolding paired_def dom_a_block by (auto simp del: block_slot.simps)

lemma paired_register:
  assumes "colon_free p" and "paired M R"
  shows "paired (fst (a_register now p d R M)) (snd (a_register now p d R M))"
proof (cases "d \<in> set (devices_of R p)")
  case True
  then show ?thesis using assms(2) by (simp add: a_register_def)
next
  case False
  let ?M = "fst (a_register now p d R M)" and ?R = "snd (a_register now p d R M)"
  have dom: "dom ?M = (if block_slot p None \<in> dom M then insert (block_slot p (Some d)) (dom M) else dom M)"
    using False by (auto simp: a_register_def)
  have dev: "set (devices_of ?R q) = (if q = p then insert d (set (devices_of R p)) else set (devices_of R q))" for q
    using False by (simp add: a_register_def devices_of_upd)
  show ?thesis
    unfolding paired_def dom
  proof (intro allI ballI impI)
    fix q e
    assume e: "e \<in> set (devices_of ?R q)" and q: "colon_free q"
      and m: "block_slot q None \<in> (if block_slot p None \<in> dom M then insert (block_slot p (Some d)) (dom M) else dom M)"
    have "block_slot q None \<noteq> block_slot p (Some d)" using block_slot_eq [OF q assms(1), of None "Some d"] by blast
    then have m: "block_slot q None \<in> dom M" using m by (simp del: block_slot.simps split: if_splits)
    show "block_slot q (Some e) \<in> (if block_slot p None \<in> dom M then insert (block_slot p (Some d)) (dom M) else dom M)"
    proof (cases "q = p \<and> e = d")
      case False
      then have "e \<in> set (devices_of R q)" using e dev [of q] by (simp split: if_splits)
      then have "block_slot q (Some e) \<in> dom M" using assms(2) q m unfolding paired_def by blast
      then show ?thesis by (simp del: block_slot.simps)
    qed (use m in \<open>simp del: block_slot.simps\<close>)
  qed
qed

lemma paired_unblock: "colon_free p \<Longrightarrow> paired M R \<Longrightarrow> paired (a_unblock p None R M) (R(p := None))"
  unfolding paired_def dom_a_unblock by (auto simp: devices_of_upd simp del: block_slot.simps split: if_splits)

lemma paired_unblock_device: "colon_free p \<Longrightarrow> paired M R \<Longrightarrow> paired (a_unblock p (Some d) R M) (a_unregister p d R)"
  unfolding paired_def dom_a_unblock devices_a_unregister by (auto simp del: block_slot.simps)

lemma paired_step: "colon_free (op_peer oper) \<Longrightarrow> paired M R \<Longrightarrow> paired (fst (block_step oper (M, R))) (snd (block_step oper (M, R)))"
  by (cases oper) (auto simp: paired_block paired_register paired_unblock paired_unblock_device simp del: a_unblock.simps split: option.split)

context reliable_backend
begin

lemma block_exec_ok:
  assumes "sound s" and "holds_blocks js djs (entries s) M R" and inv: "\<And>b. fj (js b) = Inr b" and dinv: "\<And>ds. dfj (djs ds) = Inr ds"
  shows "sound (block_exec B (\<lambda>b. Inr (js b)) fj (\<lambda>ds. Inr (djs ds)) dfj oper s)
    \<and> holds_blocks js djs (entries (block_exec B (\<lambda>b. Inr (js b)) fj (\<lambda>ds. Inr (djs ds)) dfj oper s))
        (fst (block_step oper (M, R))) (snd (block_step oper (M, R)))"
proof (cases oper)
  case (Block b)
  then show ?thesis using block_ok [OF assms(1,2) dinv, of b] by auto
next
  case (Register now p d)
  obtain s' where "register_device_id B (\<lambda>b. Inr (js b)) fj (\<lambda>ds. Inr (djs ds)) dfj now p d s = (Inr (d \<notin> set (devices_of R p)), s')"
    "sound s'" "holds_blocks js djs (entries s') (fst (a_register now p d R M)) (snd (a_register now p d R M))"
    using register_ok [OF assms, of now p d] by (auto simp: case_prod_unfold)
  then show ?thesis using Register by simp
next
  case (Unblock p d)
  then show ?thesis using unblock_ok [OF assms(1,2) dinv, of p d] by auto
qed

lemma block_run_ok:
  assumes inv: "\<And>b. fj (js b) = Inr b" and dinv: "\<And>ds. dfj (djs ds) = Inr ds"
  shows "sound s \<Longrightarrow> holds_blocks js djs (entries s) M R \<Longrightarrow> paired M R \<Longrightarrow> \<forall>oper \<in> set ops. colon_free (op_peer oper) \<Longrightarrow>
    \<exists>M' R'. sound (fold (block_exec B (\<lambda>b. Inr (js b)) fj (\<lambda>ds. Inr (djs ds)) dfj) ops s) \<and> paired M' R'
      \<and> holds_blocks js djs (entries (fold (block_exec B (\<lambda>b. Inr (js b)) fj (\<lambda>ds. Inr (djs ds)) dfj) ops s)) M' R'"
proof (induction ops arbitrary: s M R)
  case (Cons oper ops)
  let ?s = "block_exec B (\<lambda>b. Inr (js b)) fj (\<lambda>ds. Inr (djs ds)) dfj oper s"
  have "sound ?s" "holds_blocks js djs (entries ?s) (fst (block_step oper (M, R))) (snd (block_step oper (M, R)))"
    using block_exec_ok [OF Cons.prems(1,2) inv dinv] by blast+
  moreover have "paired (fst (block_step oper (M, R))) (snd (block_step oper (M, R)))"
    using paired_step Cons.prems(3,4) by simp
  ultimately show ?case using Cons.IH [of ?s] Cons.prems(4) by simp
qed auto

end

section \<open>The block list over the in-memory store\<close>

definition holds_block_list ::
  "(blocked_identity \<Rightarrow> bytes) \<Rightarrow> (string list \<Rightarrow> bytes) \<Rightarrow> memory_storage \<Rightarrow> block_map \<Rightarrow> registry \<Rightarrow> bool" where
  "holds_block_list js djs s M R \<longleftrightarrow> hm_wf s \<and> holds_blocks js djs (hm_get s) M R"

lemma is_blocked_list:
  "holds_block_list js djs s M R \<Longrightarrow> is_blocked memory_backend p d s = Inr (blocked_in M p d)"
  using memory.is_blocked_ok by (auto simp: holds_block_list_def)

text \<open>
  C18. Blocking is exact, for peer ids without a colon, which separates the parts of a key: \<open>block\<close> succeeds, and afterwards an identity is blocked exactly if it was blocked before, or it is the
  blocked peer with any device in case of a peer-level block, or it is the one device named by the block.
\<close>

theorem block_exact:
  assumes "holds_block_list js djs s M R" and "\<And>ds. dfj (djs ds) = Inr ds" and "colon_free (bi_peer_id b)"
  shows "\<exists>s'. block_identity memory_backend (\<lambda>b. Inr (js b)) dfj b s = (Inr (), s')
    \<and> (\<forall>q e. colon_free q \<longrightarrow> is_blocked memory_backend q e s' =
         Inr (is_blocked memory_backend q e s = Inr True \<or> q = bi_peer_id b \<and> (bi_device_id b = None \<or> e = bi_device_id b)))"
proof -
  obtain s' where s': "block_identity memory_backend (\<lambda>b. Inr (js b)) dfj b s = (Inr (), s')" "hm_wf s'"
    "holds_blocks js djs (hm_get s') (a_block b R M) R"
    using memory.block_ok [OF _ _ assms(2)] assms(1) unfolding holds_block_list_def by blast
  then have "holds_block_list js djs s' (a_block b R M) R" by (simp add: holds_block_list_def)
  from is_blocked_list [OF this] is_blocked_list [OF assms(1)] show ?thesis
    using s'(1) blocked_in_block [OF assms(3)] by simp
qed

text \<open>
  C34. Unblocking a peer is exact: \<open>unblock\<close> without a device succeeds, leaves every other peer as it was, and the peer itself is
  no longer blocked, except for its devices that have a block of their own and are not in the registry: those
  stay blocked, although all of the peer's device blocks are meant to be removed.
\<close>

theorem unblock_exact:
  assumes "holds_block_list js djs s M R" and "\<And>ds. dfj (djs ds) = Inr ds" and "colon_free p"
  shows "\<exists>s'. unblock_identity memory_backend (\<lambda>ds. Inr (djs ds)) dfj p None s = (Inr (), s')
    \<and> (\<forall>q e. colon_free q \<longrightarrow> is_blocked memory_backend q e s' =
         (if q = p then Inr (\<exists>d. e = Some d \<and> d \<notin> set (devices_of R p) \<and> block_slot p (Some d) \<in> dom M)
          else is_blocked memory_backend q e s))"
proof -
  obtain s' where s': "unblock_identity memory_backend (\<lambda>ds. Inr (djs ds)) dfj p None s = (Inr (), s')" "hm_wf s'"
    "holds_blocks js djs (hm_get s') (a_unblock p None R M) (R(p := None))"
    using memory.unblock_ok [OF _ _ assms(2), of s js M R p None] assms(1) unfolding holds_block_list_def by auto
  then have "holds_block_list js djs s' (a_unblock p None R M) (R(p := None))" by (simp add: holds_block_list_def)
  from is_blocked_list [OF this] is_blocked_list [OF assms(1)] show ?thesis
    using s'(1) blocked_in_unblock(1) [OF assms(3)] by (simp del: a_unblock.simps block_slot.simps)
qed

text \<open>
  C32. New devices of a blocked peer are blocked on their own: after any sequence of blocks, registrations
  and unblocks on an empty store, every device registered for a peer with a peer-level block has a block
  record of its own.
\<close>

theorem registered_devices_blocked:
  assumes inv: "\<And>b. fj (js b) = Inr b" and dinv: "\<And>ds. dfj (djs ds) = Inr ds"
    and ops: "\<forall>oper \<in> set ops. colon_free (op_peer oper)"
  defines "s \<equiv> fold (block_exec memory_backend (\<lambda>b. Inr (js b)) fj (\<lambda>ds. Inr (djs ds)) dfj) ops memory_storage_new"
  assumes p: "colon_free p" "is_blocked memory_backend p None s = Inr True"
  shows "\<exists>ds. get_known_devices memory_backend dfj p s = Inr ds
    \<and> (\<forall>d \<in> set ds. \<exists>b. blocked_get memory_backend fj p (Some d) s = Inr (Some b))"
proof -
  have start: "hm_wf memory_storage_new" "holds_blocks js djs (hm_get memory_storage_new) Map.empty Map.empty"
    "paired Map.empty Map.empty"
    by (simp_all add: memory_storage_new_def holds_blocks_def table_def paired_def devices_of_def)
  obtain M R where s: "hm_wf s" "paired M R" "holds_blocks js djs (hm_get s) M R"
    using memory.block_run_ok [OF inv dinv start ops] unfolding s_def by blast
  have "block_slot p None \<in> dom M" using p(2) memory.is_blocked_ok [OF s(1,3)] by (auto simp: blocked_in_def)
  then have "\<exists>b. M (block_slot p (Some d)) = Some b" if "d \<in> set (devices_of R p)" for d
    using s(2) p(1) that unfolding paired_def by blast
  then show ?thesis
    using memory.known_devices [OF s(1,3) dinv] memory.blocked_get_ok [OF s(1,3) inv] by (simp del: block_slot.simps)
qed

text \<open>A serialiser for concrete inputs.\<close>

definition block_ser :: "blocked_identity \<Rightarrow> bytes" where
  "block_ser b = unary (as_bytes (bi_peer_id b)) @ unary_opt (map_option as_bytes (bi_device_id b))
     @ unary_opt (map_option as_bytes (bi_reason b)) @ unary_opt (map_option as_bytes (bi_notes b))
     @ bit_byte (bi_is_deleted b) # nat_to_le 8 (unat (bi_blocked_at b))"

definition block_deser :: "bytes \<Rightarrow> string + blocked_identity" where
  "block_deser bs =
     (let (p, bs1) = dec_unary bs; (d, bs2) = dec_opt bs1; (r, bs3) = dec_opt bs2; (n, bs4) = dec_opt bs3
      in Inr \<lparr>bi_peer_id = str_of p, bi_device_id = map_option str_of d, bi_blocked_at = word_of_nat (nat_of_le (drop 1 bs4)),
              bi_reason = map_option str_of r, bi_notes = map_option str_of n, bi_is_deleted = (bs4 ! 0 = 1)\<rparr>)"

definition devs_ser :: "string list \<Rightarrow> bytes" where
  "devs_ser ds = unary_list (map as_bytes ds)"

definition devs_deser :: "bytes \<Rightarrow> string + string list" where
  "devs_deser bs = Inr (map str_of (fst (dec_list bs)))"

lemma block_deser_ser: "block_deser (block_ser b) = Inr b"
  unfolding block_deser_def block_ser_def Let_def dec_unary dec_opt prod.case by (simp add: le64_inverse)

lemma devs_deser_ser: "devs_deser (devs_ser ds) = Inr ds"
  using dec_list [of "map as_bytes ds" "[]"] by (simp add: devs_deser_def devs_ser_def comp_def)

lemma empty_block_list: "holds_block_list js djs [] Map.empty Map.empty"
  by (simp add: holds_block_list_def holds_blocks_def table_def)

theorem block_exact_witness:
  "\<exists>s'. block_identity memory_backend (\<lambda>b. Inr (block_ser b)) devs_deser (blocked_new 7 ''eve'') [] = (Inr (), s')
    \<and> (\<forall>q e. colon_free q \<longrightarrow> is_blocked memory_backend q e s' =
         Inr (is_blocked memory_backend q e [] = Inr True \<or> q = bi_peer_id (blocked_new 7 ''eve'')
           \<and> (bi_device_id (blocked_new 7 ''eve'') = None \<or> e = bi_device_id (blocked_new 7 ''eve''))))"
  by (rule block_exact [OF empty_block_list devs_deser_ser]) (simp add: blocked_new_def colon_free_def)

definition one_device_blocked :: memory_storage where
  "one_device_blocked = [(block_key ''eve'' (Some ''d''), block_ser (blocked_with_device_id ''d'' (blocked_new 7 ''eve'')))]"

lemma one_device_blocked:
  "holds_block_list block_ser devs_ser one_device_blocked
     [block_slot ''eve'' (Some ''d'') \<mapsto> blocked_with_device_id ''d'' (blocked_new 7 ''eve'')] Map.empty"
proof -
  have "block_key ''eve'' (Some ''d'') \<noteq> table_key DEVICE_REGISTRY_PREFIX i" for i by (simp add: block_key_def)
  then show ?thesis
    by (auto simp: holds_block_list_def holds_blocks_def table_def one_device_blocked_def block_key_def)
qed

theorem unblock_exact_witness:
  "\<exists>s'. unblock_identity memory_backend (\<lambda>ds. Inr (devs_ser ds)) devs_deser ''eve'' None one_device_blocked = (Inr (), s')
    \<and> is_blocked memory_backend ''eve'' (Some ''d'') s' = Inr True"
proof -
  have "colon_free ''eve''" by (simp add: colon_free_def)
  with unblock_exact [OF one_device_blocked devs_deser_ser this]
  show ?thesis by (auto simp: devices_of_def)
qed

theorem registered_devices_blocked_witness:
  "\<exists>ds. get_known_devices memory_backend devs_deser ''eve''
       (fold (block_exec memory_backend (\<lambda>b. Inr (block_ser b)) block_deser (\<lambda>ds. Inr (devs_ser ds)) devs_deser)
         [Block (blocked_new 7 ''eve''), Register 8 ''eve'' ''d''] memory_storage_new) = Inr ds
    \<and> (\<forall>d \<in> set ds. \<exists>b. blocked_get memory_backend block_deser ''eve'' (Some d)
       (fold (block_exec memory_backend (\<lambda>b. Inr (block_ser b)) block_deser (\<lambda>ds. Inr (devs_ser ds)) devs_deser)
         [Block (blocked_new 7 ''eve''), Register 8 ''eve'' ''d''] memory_storage_new) = Inr (Some b))"
proof (rule registered_devices_blocked [OF block_deser_ser devs_deser_ser])
  show "\<forall>oper \<in> set [Block (blocked_new 7 ''eve''), Register 8 ''eve'' ''d'']. colon_free (op_peer oper)" "colon_free ''eve''"
    by (simp_all add: blocked_new_def colon_free_def)
  show "is_blocked memory_backend ''eve'' None
       (fold (block_exec memory_backend (\<lambda>b. Inr (block_ser b)) block_deser (\<lambda>ds. Inr (devs_ser ds)) devs_deser)
         [Block (blocked_new 7 ''eve''), Register 8 ''eve'' ''d''] memory_storage_new) = Inr True"
    by code_simp
qed

end
