(* ===== verification/Store_Contacts.thy ===== *)
theory Store_Contacts
  imports Store_History "HOL-Library.List_Lexorder" "HOL-Library.Char_ord"
begin

text \<open>
  The contact list of \<open>src/core/src/store/contacts.rs\<close>: one record per peer below the prefix \<open>contact:\<close>, the
  migration of records that older versions stored under the bare peer id, and the recovery of contacts
  from the message history. JSON, hexadecimal and base58 decoding, the check of a public key and
  of a UUID, lower-casing and the clock are arguments. The lemmas show that the migration loses no contact, that
  updates change the named contact only and what a recovered contact is.
\<close>

section \<open>Trimming\<close>

text \<open>
  \<open>str::trim\<close> on the UTF-8 encoding: the encodings of the Unicode white-space characters are removed from
  both ends.
\<close>

definition white_space :: "string list" where
  "white_space = map (map char_of)
     ([[9], [10], [11], [12], [13], [32], [194, 133], [194, 160], [225, 154, 128], [226, 128, 168], [226, 128, 169],
       [226, 128, 175], [226, 129, 159], [227, 128, 128]] @ map (\<lambda>n. [226, 128, n]) [128..<139 :: nat])"

definition begins_with :: "string list \<Rightarrow> string \<Rightarrow> string option" where
  "begins_with ws s = find (\<lambda>w. w \<noteq> [] \<and> take (length w) s = w) ws"

lemma begins_withD: "begins_with ws s = Some w \<Longrightarrow> w \<noteq> [] \<and> s \<noteq> [] \<and> w \<in> set ws \<and> s = w @ drop (length w) s"
proof -
  assume "begins_with ws s = Some w"
  then have w: "w \<noteq> []" "take (length w) s = w" "w \<in> set ws"
    unfolding begins_with_def find_Some_iff by auto
  then have "w @ drop (length w) s = s" using append_take_drop_id [of "length w" s] by simp
  then show ?thesis using w by (metis append_is_Nil_conv)
qed

function strip_all :: "string list \<Rightarrow> string \<Rightarrow> string" where
  "strip_all ws s = (case begins_with ws s of None \<Rightarrow> s | Some w \<Rightarrow> strip_all ws (drop (length w) s))"
  by pat_completeness auto
termination
  by (relation "measure (\<lambda>(ws, s). length s)") (auto dest!: begins_withD)

declare strip_all.simps [simp del]

definition str_trim :: "string \<Rightarrow> string" where
  "str_trim s = rev (strip_all (map rev white_space) (rev (strip_all white_space s)))"

section \<open>Contacts\<close>

record contact =
  ct_peer_id :: string
  ct_nickname :: "string option"
  ct_local_nickname :: "string option"
  ct_public_key :: string
  ct_added_at :: u64
  ct_last_seen :: "u64 option"
  ct_notes :: "string option"
  ct_last_known_device_id :: "string option"

definition contact_new :: "u64 \<Rightarrow> string \<Rightarrow> string \<Rightarrow> contact" where
  "contact_new now peer_id public_key =
     \<lparr>ct_peer_id = peer_id, ct_nickname = None, ct_local_nickname = None, ct_public_key = public_key, ct_added_at = now,
      ct_last_seen = None, ct_notes = None, ct_last_known_device_id = None\<rparr>"

definition contact_with_nickname :: "string \<Rightarrow> contact \<Rightarrow> contact" where
  "contact_with_nickname nickname c = c\<lparr>ct_nickname := Some nickname\<rparr>"

definition display_name :: "contact \<Rightarrow> string" where
  "display_name c =
     (case ct_local_nickname c of
        Some local \<Rightarrow> local
      | None \<Rightarrow> (case ct_nickname c of Some nickname \<Rightarrow> nickname | None \<Rightarrow> ct_peer_id c))"

definition federated_nickname :: "contact \<Rightarrow> string option" where
  "federated_nickname c = ct_nickname c"

definition CONTACT_KEY_PREFIX :: string where
  "CONTACT_KEY_PREFIX = ''contact:''"

definition contact_key :: "string \<Rightarrow> bytes" where
  "contact_key peer_id = table_key CONTACT_KEY_PREFIX peer_id"

section \<open>Migration\<close>

definition key_exists :: "'s storage_backend \<Rightarrow> bytes \<Rightarrow> 's \<Rightarrow> bool" where
  "key_exists B k s = (case bk_get B k s of Inr (Some _) \<Rightarrow> True | _ \<Rightarrow> False)"

fun migrate_entries :: "'s storage_backend \<Rightarrow> (bytes \<Rightarrow> string + contact) \<Rightarrow> scan_result \<Rightarrow> 's \<Rightarrow> 's" where
  "migrate_entries B from_json [] s = s"
| "migrate_entries B from_json ((k, v) # es) s =
     (if starts_with (as_bytes CONTACT_KEY_PREFIX) k then migrate_entries B from_json es s
      else (case from_json v of
              Inl _ \<Rightarrow> migrate_entries B from_json es s
            | Inr c \<Rightarrow>
                if as_bytes (ct_peer_id c) \<noteq> k then migrate_entries B from_json es s
                else if key_exists B (contact_key (ct_peer_id c)) s then
                  migrate_entries B from_json es (snd (bk_remove B k s))
                else (case bk_put B (contact_key (ct_peer_id c)) v s of
                        (Inr _, s') \<Rightarrow> migrate_entries B from_json es (snd (bk_remove B k s'))
                      | (Inl _, s') \<Rightarrow> migrate_entries B from_json es s')))"

abbreviation migrated_key :: bytes where
  "migrated_key \<equiv> as_bytes ''metadata_contacts_migrated''"

definition migrate_unprefixed_contacts :: "'s storage_backend \<Rightarrow> (bytes \<Rightarrow> string + contact) \<Rightarrow> 's \<Rightarrow> 's" where
  "migrate_unprefixed_contacts B from_json s =
     (if key_exists B migrated_key s then s
      else (case bk_scan_prefix B [] s of
              Inl _ \<Rightarrow> s
            | Inr es \<Rightarrow> snd (bk_put B migrated_key (as_bytes ''true'') (migrate_entries B from_json es s))))"

definition contact_manager_new :: "'s storage_backend \<Rightarrow> (bytes \<Rightarrow> string + contact) \<Rightarrow> 's \<Rightarrow> 's" where
  "contact_manager_new B from_json s = migrate_unprefixed_contacts B from_json s"

section \<open>Operations\<close>

definition contacts_add :: "'s storage_backend \<Rightarrow> (contact \<Rightarrow> string + bytes) \<Rightarrow> contact \<Rightarrow> 's \<Rightarrow> (core_error + unit) \<times> 's" where
  "contacts_add B to_json c s =
     (case to_json c of Inl _ \<Rightarrow> (Inl Internal, s) | Inr v \<Rightarrow> st_put B (contact_key (ct_peer_id c)) v s)"

definition contacts_get :: "'s storage_backend \<Rightarrow> (bytes \<Rightarrow> string + contact) \<Rightarrow> string \<Rightarrow> 's \<Rightarrow> core_error + contact option" where
  "contacts_get B from_json peer_id s =
     try_res (storage_res (bk_get B (contact_key peer_id) s)) (\<lambda>found.
       case found of None \<Rightarrow> Inr None | Some data \<Rightarrow> try_res (json_res (from_json data)) (\<lambda>c. Inr (Some c)))"

definition contacts_remove :: "'s storage_backend \<Rightarrow> string \<Rightarrow> 's \<Rightarrow> (core_error + unit) \<times> 's" where
  "contacts_remove B peer_id s = st_remove B (contact_key peer_id) s"

definition contacts_list :: "'s storage_backend \<Rightarrow> (bytes \<Rightarrow> string + contact) \<Rightarrow> 's \<Rightarrow> core_error + contact list" where
  "contacts_list B from_json s =
     try_res (storage_res (bk_scan_prefix B (as_bytes CONTACT_KEY_PREFIX) s)) (\<lambda>es.
     try_res (parse_all from_json es) (\<lambda>cs. Inr (sort_key display_name cs)))"

definition contacts_search ::
  "'s storage_backend \<Rightarrow> (bytes \<Rightarrow> string + contact) \<Rightarrow> (string \<Rightarrow> string) \<Rightarrow> string \<Rightarrow> 's \<Rightarrow> core_error + contact list" where
  "contacts_search B from_json to_lowercase query s =
     (let has = (\<lambda>t. sublist (to_lowercase query) (to_lowercase t))
      in try_res (contacts_list B from_json s) (\<lambda>cs.
           Inr (filter (\<lambda>c. has (ct_peer_id c) \<or> has (ct_public_key c)
                   \<or> (case ct_nickname c of Some n \<Rightarrow> has n | None \<Rightarrow> False)
                   \<or> (case ct_local_nickname c of Some n \<Rightarrow> has n | None \<Rightarrow> False)) cs)))"

definition clean_nickname :: "string option \<Rightarrow> string option" where
  "clean_nickname nickname =
     (case nickname of None \<Rightarrow> None | Some n \<Rightarrow> let t = str_trim n in if t = [] then None else Some t)"

text \<open>Reading a contact, changing it and writing it back.\<close>

definition update_contact ::
  "'s storage_backend \<Rightarrow> (contact \<Rightarrow> string + bytes) \<Rightarrow> (bytes \<Rightarrow> string + contact) \<Rightarrow> core_error + unit \<Rightarrow> (contact \<Rightarrow> contact) \<Rightarrow>
   string \<Rightarrow> 's \<Rightarrow> (core_error + unit) \<times> 's" where
  "update_contact B to_json from_json missing f peer_id s =
     (case contacts_get B from_json peer_id s of
        Inl e \<Rightarrow> (Inl e, s)
      | Inr None \<Rightarrow> (missing, s)
      | Inr (Some c) \<Rightarrow> contacts_add B to_json (f c) s)"

definition set_nickname where
  "set_nickname B to_json from_json peer_id nickname s =
     update_contact B to_json from_json (Inl InvalidInput) (\<lambda>c. c\<lparr>ct_nickname := clean_nickname nickname\<rparr>) peer_id s"

definition set_local_nickname where
  "set_local_nickname B to_json from_json peer_id nickname s =
     update_contact B to_json from_json (Inl InvalidInput) (\<lambda>c. c\<lparr>ct_local_nickname := clean_nickname nickname\<rparr>) peer_id s"

definition update_last_seen where
  "update_last_seen B to_json from_json now peer_id s =
     update_contact B to_json from_json (Inr ()) (\<lambda>c. c\<lparr>ct_last_seen := Some now\<rparr>) peer_id s"

definition update_last_known_device_id ::
  "'s storage_backend \<Rightarrow> (contact \<Rightarrow> string + bytes) \<Rightarrow> (bytes \<Rightarrow> string + contact) \<Rightarrow> (string \<Rightarrow> bool) \<Rightarrow> string \<Rightarrow> string option \<Rightarrow> 's \<Rightarrow>
   (core_error + unit) \<times> 's" where
  "update_last_known_device_id B to_json from_json is_uuid peer_id device_id s =
     (case contacts_get B from_json peer_id s of
        Inl e \<Rightarrow> (Inl e, s)
      | Inr None \<Rightarrow> (Inr (), s)
      | Inr (Some c) \<Rightarrow>
          (case device_id of
             None \<Rightarrow> contacts_add B to_json (c\<lparr>ct_last_known_device_id := None\<rparr>) s
           | Some d \<Rightarrow>
               let normalized = str_trim d
               in if normalized \<noteq> [] \<and> is_uuid normalized then
                    contacts_add B to_json (c\<lparr>ct_last_known_device_id := Some normalized\<rparr>) s
                  else (Inr (), s)))"

definition contacts_count :: "'s storage_backend \<Rightarrow> 's \<Rightarrow> u32" where
  "contacts_count B s = word_of_nat (count_or_zero B (as_bytes CONTACT_KEY_PREFIX) s)"

definition contacts_flush :: "'s storage_backend \<Rightarrow> 's \<Rightarrow> 's" where
  "contacts_flush B s = snd (bk_flush B s)"

definition verify_integrity :: "'s storage_backend \<Rightarrow> 's \<Rightarrow> core_error + unit" where
  "verify_integrity B s =
     (if contacts_count B s = 0 \<and> count_or_zero B (as_bytes CONTACT_KEY_PREFIX) s > 0 then
        if scan_or_empty B (as_bytes CONTACT_KEY_PREFIX) s \<noteq> [] then Inl CorruptionDetected else Inr ()
      else Inr ())"

section \<open>Recovery from the history\<close>

definition is_hexdigit :: "char \<Rightarrow> bool" where
  "is_hexdigit c \<longleftrightarrow>
     (let n = of_char c :: nat in 48 \<le> n \<and> n \<le> 57 \<or> 65 \<le> n \<and> n \<le> 70 \<or> 97 \<le> n \<and> n \<le> 102)"

definition derive_public_key_from_peer_id ::
  "(string \<Rightarrow> string + bytes) \<Rightarrow> (bytes \<Rightarrow> string) \<Rightarrow> (string \<Rightarrow> string + bytes) \<Rightarrow> (bytes \<Rightarrow> bool) \<Rightarrow> (string \<Rightarrow> string) \<Rightarrow> string \<Rightarrow>
   core_error + string" where
  "derive_public_key_from_peer_id hex_decode hex_encode bs58_decode valid_key to_lowercase peer_id =
     (let trimmed = str_trim peer_id
      in if length trimmed = 64 \<and> list_all is_hexdigit trimmed then
           (case hex_decode trimmed of
              Inr bs \<Rightarrow> if length bs = 32 \<and> valid_key bs then Inr (to_lowercase trimmed) else Inl InvalidInput
            | Inl _ \<Rightarrow> Inl InvalidInput)
         else
           (case bs58_decode trimmed of
              Inr bs \<Rightarrow>
                if length bs = 38 \<and> take 6 bs = [0x00, 0x24, 0x08, 0x01, 0x12, 0x20] then Inr (hex_encode (take 32 (drop 6 bs)))
                else if length bs \<ge> 32 then Inr (hex_encode (drop (length bs - 32) bs))
                else Inl InvalidInput
            | Inl _ \<Rightarrow> Inl InvalidInput))"

fun recover_contacts ::
  "'s storage_backend \<Rightarrow> (contact \<Rightarrow> string + bytes) \<Rightarrow> (bytes \<Rightarrow> string + contact) \<Rightarrow> (string \<Rightarrow> core_error + string) \<Rightarrow> u64 \<Rightarrow>
   message_record list \<Rightarrow> u32 \<Rightarrow> 's \<Rightarrow> (core_error + u32) \<times> 's" where
  "recover_contacts B to_json from_json derive now [] n s = (Inr n, s)"
| "recover_contacts B to_json from_json derive now (msg # msgs) n s =
     (case contacts_get B from_json (hr_peer_id msg) s of
        Inr None \<Rightarrow>
          (case derive (hr_peer_id msg) of
             Inr pub_key \<Rightarrow>
               and_then (contacts_add B to_json (contact_new now (hr_peer_id msg) pub_key) s) (\<lambda>_ s'.
                 recover_contacts B to_json from_json derive now msgs (n + 1) s')
           | Inl _ \<Rightarrow> recover_contacts B to_json from_json derive now msgs n s)
      | _ \<Rightarrow> recover_contacts B to_json from_json derive now msgs n s)"

definition reconcile_from_history where
  "reconcile_from_history B to_json from_json msg_from_json derive now s =
     (case recent_including_hidden B msg_from_json None 10000 s of
        Inl e \<Rightarrow> (Inl e, s)
      | Inr msgs \<Rightarrow> recover_contacts B to_json from_json derive now msgs 0 s)"

section \<open>Trimmed text\<close>

lemma strip_all_done: "begins_with ws (strip_all ws s) = None"
proof (induction ws s rule: strip_all.induct)
  case (1 ws s)
  show ?case
  proof (cases "begins_with ws s")
    case None
    then show ?thesis by (subst strip_all.simps) simp
  next
    case (Some w)
    then show ?thesis using "1.IH" [OF Some] by (subst strip_all.simps) simp
  qed
qed

lemma strip_all_id: "begins_with ws s = None \<Longrightarrow> strip_all ws s = s"
  by (subst strip_all.simps) simp

lemma strip_all_suffix: "\<exists>p. s = p @ strip_all ws s"
proof (induction ws s rule: strip_all.induct)
  case (1 ws s)
  show ?case
  proof (cases "begins_with ws s")
    case None
    then show ?thesis by (subst strip_all.simps) simp
  next
    case (Some w)
    obtain p where "drop (length w) s = p @ strip_all ws (drop (length w) s)" using "1.IH" [OF Some] by blast
    moreover have "strip_all ws s = strip_all ws (drop (length w) s)" using Some by (subst strip_all.simps) simp
    ultimately have "s = (w @ p) @ strip_all ws s" using begins_withD [OF Some] by (metis append.assoc)
    then show ?thesis by blast
  qed
qed

lemma begins_with_append: "begins_with ws (s @ t) = None \<Longrightarrow> begins_with ws s = None"
  unfolding begins_with_def find_None_iff
proof (intro notI, elim exE conjE)
  fix w
  assume none: "\<not> (\<exists>w. w \<in> set ws \<and> w \<noteq> [] \<and> take (length w) (s @ t) = w)" and w: "w \<in> set ws" "w \<noteq> []" "take (length w) s = w"
  then have "length w \<le> length s" by (metis length_take min.cobounded1)
  then show False using none w by auto
qed

lemma str_trim_idem: "str_trim (str_trim s) = str_trim s"
proof -
  let ?t = "strip_all white_space s" and ?rw = "map rev white_space"
  let ?u = "strip_all ?rw (rev ?t)"
  obtain p where "rev ?t = p @ ?u" using strip_all_suffix by blast
  then have "?t = rev ?u @ rev p" by (metis rev_append rev_rev_ident)
  moreover have "begins_with white_space ?t = None" by (rule strip_all_done)
  ultimately have "begins_with white_space (rev ?u) = None" by (metis begins_with_append)
  moreover have "begins_with ?rw ?u = None" by (rule strip_all_done)
  ultimately show ?thesis unfolding str_trim_def by (simp add: strip_all_id)
qed

section \<open>Migration\<close>

text \<open>The bare key of a contact stored by an older version.\<close>

definition legacy :: "(bytes \<Rightarrow> string + contact) \<Rightarrow> (bytes \<rightharpoonup> bytes) \<Rightarrow> bytes \<Rightarrow> bool" where
  "legacy from_json E k \<longleftrightarrow> \<not> starts_with (as_bytes CONTACT_KEY_PREFIX) k
     \<and> (\<exists>v c. E k = Some v \<and> from_json v = Inr c \<and> as_bytes (ct_peer_id c) = k)"

definition moved :: "(bytes \<Rightarrow> string + contact) \<Rightarrow> (bytes \<rightharpoonup> bytes) \<Rightarrow> bytes set \<Rightarrow> bytes \<rightharpoonup> bytes" where
  "moved from_json E K = (\<lambda>k.
     if k \<in> K \<and> legacy from_json E k then None
     else (case E k of
             Some v \<Rightarrow> Some v
           | None \<Rightarrow> if \<exists>p. k = contact_key p \<and> as_bytes p \<in> K \<and> legacy from_json E (as_bytes p)
                     then E (the_elem {as_bytes p | p. k = contact_key p}) else None))"

lemma contact_key_eq [simp]: "contact_key p = contact_key q \<longleftrightarrow> p = q"
  by (simp add: contact_key_def)

lemma contact_key_not_legacy [simp]: "\<not> legacy from_json E (contact_key p)"
  by (simp add: legacy_def contact_key_def)

lemma moved_contact:
  "moved from_json E K (contact_key p) =
     (case E (contact_key p) of
        Some v \<Rightarrow> Some v
      | None \<Rightarrow> if as_bytes p \<in> K \<and> legacy from_json E (as_bytes p) then E (as_bytes p) else None)"
  by (auto simp: moved_def split: option.split)

lemma moved_other: "\<not> starts_with (as_bytes CONTACT_KEY_PREFIX) k \<Longrightarrow>
  moved from_json E K k = (if k \<in> K \<and> legacy from_json E k then None else E k)"
  by (auto simp: moved_def contact_key_def split: option.split)

lemma key_cases:
  obtains p where "k = contact_key p" | "\<not> starts_with (as_bytes CONTACT_KEY_PREFIX) k"
  by (auto simp: contact_key_def starts_with_table)

lemma moved_empty: "moved from_json E {} = E"
  by (auto simp: moved_def fun_eq_iff split: option.split)

lemma moved_skip: "\<not> legacy from_json E k \<Longrightarrow> moved from_json E (insert k K) = moved from_json E K"
  by (intro ext, rule_tac k = x in key_cases) (auto simp: moved_contact moved_other split: option.split)

lemma moved_step:
  assumes "legacy from_json E (as_bytes p)" and "as_bytes p \<notin> K"
  shows "moved from_json E (insert (as_bytes p) K) =
    (if E (contact_key p) = None then (moved from_json E K)(contact_key p := E (as_bytes p)) else moved from_json E K)(as_bytes p := None)"
proof
  fix k
  have np: "\<not> starts_with (as_bytes CONTACT_KEY_PREFIX) (as_bytes p)" using assms(1) by (simp add: legacy_def)
  have neq: "contact_key q \<noteq> as_bytes p" for q using np unfolding contact_key_def by (metis table_key_prefix)
  show "moved from_json E (insert (as_bytes p) K) k =
    ((if E (contact_key p) = None then (moved from_json E K)(contact_key p := E (as_bytes p)) else moved from_json E K)(as_bytes p := None)) k"
  proof (cases rule: key_cases [of k])
    case (1 q)
    then show ?thesis using assms neq by (auto simp: moved_contact split: option.split)
  next
    case 2
    then have "k \<noteq> contact_key p" by (auto simp: contact_key_def)
    then show ?thesis using 2 assms by (auto simp: moved_other)
  qed
qed

context reliable_backend
begin

lemma key_exists_ok: "sound s \<Longrightarrow> key_exists B k s \<longleftrightarrow> entries s k \<noteq> None"
  using get_ok [of s k] by (simp add: key_exists_def split: option.split)

lemma migrate_entries_ok:
  "sound s \<Longrightarrow> entries s = moved fj E K \<Longrightarrow> \<forall>(k, v) \<in> set es. E k = Some v \<Longrightarrow> distinct (map fst es) \<Longrightarrow> K \<inter> fst ` set es = {} \<Longrightarrow>
   sound (migrate_entries B fj es s) \<and> entries (migrate_entries B fj es s) = moved fj E (K \<union> fst ` set es)"
proof (induction es arbitrary: s K)
  case (Cons e es)
  obtain k v where e: "e = (k, v)" by (cases e)
  have Ek: "E k = Some v" and k: "k \<notin> K" "k \<notin> fst ` set es" using Cons.prems(3,4,5) e by auto
  have rest: "\<forall>(k, v) \<in> set es. E k = Some v" "distinct (map fst es)" "insert k K \<inter> fst ` set es = {}"
    using Cons.prems(3,4,5) k by auto
  have goal: "K \<union> fst ` set (e # es) = insert k K \<union> fst ` set es" by (simp add: e)
  have IH: "sound t \<and> entries t = moved fj E (insert k K) \<Longrightarrow>
    sound (migrate_entries B fj es t) \<and> entries (migrate_entries B fj es t) = moved fj E (K \<union> fst ` set (e # es))" for t
    unfolding goal using Cons.IH [OF _ _ rest, of t] by blast
  show ?case
  proof (cases "legacy fj E k")
    case False
    then have "migrate_entries B fj (e # es) s = migrate_entries B fj es s"
      using Ek by (auto simp: e legacy_def split: sum.split)
    then show ?thesis using IH [of s] Cons.prems(1,2) moved_skip [OF False] by simp
  next
    case True
    then obtain c where c: "\<not> starts_with (as_bytes CONTACT_KEY_PREFIX) k" "fj v = Inr c" "k = as_bytes (ct_peer_id c)"
      using Ek by (auto simp: legacy_def)
    let ?p = "ct_peer_id c"
    have ex: "key_exists B (contact_key ?p) s \<longleftrightarrow> E (contact_key ?p) \<noteq> None"
      using key_exists_ok [OF Cons.prems(1)] k(1) c(3) unfolding Cons.prems(2) by (auto simp: moved_contact split: option.split)
    have step: "moved fj E (insert k K) = (if E (contact_key ?p) = None then (moved fj E K)(contact_key ?p := Some v) else moved fj E K)(k := None)"
      using moved_step [of fj E ?p K] True k(1) Ek unfolding c(3) by simp
    obtain s1 where s1: "bk_put B (contact_key ?p) v s = (Inr (), s1)" "sound s1" "entries s1 = (entries s)(contact_key ?p \<mapsto> v)"
      by (rule putE [OF Cons.prems(1)])
    have rem: "sound (snd (bk_remove B k t)) \<and> entries (snd (bk_remove B k t)) = (entries t)(k := None)" if "sound t" for t
      using remove_ok [OF that, of k] by auto
    show ?thesis
    proof (cases "E (contact_key ?p) = None")
      case True
      have "migrate_entries B fj (e # es) s = migrate_entries B fj es (snd (bk_remove B k s1))"
        using c ex True s1(1) by (simp add: e)
      then show ?thesis using IH [of "snd (bk_remove B k s1)"] rem [OF s1(2)] s1(3) step True Cons.prems(2) by simp
    next
      case False
      have "migrate_entries B fj (e # es) s = migrate_entries B fj es (snd (bk_remove B k s))"
        using c ex False by (simp add: e)
      then show ?thesis using IH [of "snd (bk_remove B k s)"] rem [OF Cons.prems(1)] step False Cons.prems(2) by simp
    qed
  qed
qed simp

lemma migrate_ok:
  assumes "sound s" and "entries s migrated_key = None"
  shows "sound (contact_manager_new B fj s) \<and> entries (contact_manager_new B fj s) = (moved fj (entries s) UNIV)(migrated_key \<mapsto> as_bytes ''true'')"
proof -
  obtain es where es: "bk_scan_prefix B [] s = Inr es" "distinct (map fst es)" "set es = {(k, v). entries s k = Some v \<and> starts_with [] k}"
    by (rule scanE [OF assms(1)])
  let ?s = "migrate_entries B fj es s"
  have m: "sound ?s" "entries ?s = moved fj (entries s) ({} \<union> fst ` set es)"
    using migrate_entries_ok [of s fj "entries s" "{}" es] assms(1) es by (auto simp: moved_empty)
  have "fst ` set es = dom (entries s)" unfolding es(3) by (force simp: starts_with_def)
  moreover have "moved fj (entries s) (dom (entries s)) = moved fj (entries s) UNIV"
    unfolding moved_def legacy_def by (intro ext) (auto split: option.split)
  ultimately have m2: "entries ?s = moved fj (entries s) UNIV" using m(2) by simp
  obtain s2 where "bk_put B migrated_key (as_bytes ''true'') ?s = (Inr (), s2)" "sound s2" "entries s2 = (entries ?s)(migrated_key \<mapsto> as_bytes ''true'')"
    by (rule putE [OF m(1)])
  moreover have "\<not> key_exists B migrated_key s" using key_exists_ok [OF assms(1)] assms(2) by simp
  ultimately show ?thesis
    using m2 by (simp add: contact_manager_new_def migrate_unprefixed_contacts_def es(1))
qed

end

section \<open>The contact list as a map\<close>

definition contact_keyed :: "(string \<rightharpoonup> contact) \<Rightarrow> bool" where
  "contact_keyed C \<longleftrightarrow> (\<forall>p c. C p = Some c \<longrightarrow> ct_peer_id c = p)"

definition holds_contacts :: "(contact \<Rightarrow> bytes) \<Rightarrow> (bytes \<rightharpoonup> bytes) \<Rightarrow> (string \<rightharpoonup> contact) \<Rightarrow> bool" where
  "holds_contacts js E C \<longleftrightarrow> table CONTACT_KEY_PREFIX js E C \<and> contact_keyed C"

lemma holds_contacts_put:
  "holds_contacts js E C \<Longrightarrow> ct_peer_id c = p \<Longrightarrow> holds_contacts js (E(contact_key p \<mapsto> js c)) (C(p \<mapsto> c))"
  using table_update by (auto simp: holds_contacts_def contact_keyed_def contact_key_def)

context reliable_backend
begin

lemma contacts_get_ok:
  assumes "sound s" and "holds_contacts js (entries s) C" and "\<And>c. fj (js c) = Inr c"
  shows "contacts_get B fj p s = Inr (C p)"
  using get_ok [OF assms(1)] tableD [of CONTACT_KEY_PREFIX js "entries s" C p] assms(2,3)
  by (cases "C p") (simp_all add: contacts_get_def holds_contacts_def contact_key_def storage_res_def json_res_def)

lemma contacts_add_ok:
  assumes "sound s" and "holds_contacts js (entries s) C"
  shows "\<exists>s'. contacts_add B (\<lambda>c. Inr (js c)) c s = (Inr (), s') \<and> sound s' \<and> holds_contacts js (entries s') (C(ct_peer_id c \<mapsto> c))
    \<and> only_under {CONTACT_KEY_PREFIX} (entries s) (entries s')"
proof -
  obtain s' where s': "st_put B (contact_key (ct_peer_id c)) (js c) s = (Inr (), s')" "sound s'"
    "entries s' = (entries s)(contact_key (ct_peer_id c) \<mapsto> js c)"
    by (rule st_putE [OF assms(1)])
  have "only_under {CONTACT_KEY_PREFIX} (entries s) (entries s')"
    unfolding s'(3) contact_key_def by (rule only_under_update) simp
  then show ?thesis using s' holds_contacts_put [OF assms(2)] by (simp add: contacts_add_def)
qed

lemma update_contact_ok:
  assumes "sound s" and "holds_contacts js (entries s) C" and "\<And>c. fj (js c) = Inr c" and "\<And>c. ct_peer_id (f c) = ct_peer_id c"
  shows "\<exists>s'. update_contact B (\<lambda>c. Inr (js c)) fj missing f p s = (if C p = None then missing else Inr (), s') \<and> sound s'
    \<and> holds_contacts js (entries s') (C(p := map_option f (C p)))"
proof (cases "C p")
  case None
  then have "C(p := map_option f (C p)) = C" by (simp add: fun_upd_idem)
  then show ?thesis using assms(1,2) contacts_get_ok [OF assms(1-3), of p] None by (simp add: update_contact_def)
next
  case (Some c)
  then have "ct_peer_id (f c) = p" using assms(2,4) by (simp add: holds_contacts_def contact_keyed_def)
  then show ?thesis
    using contacts_add_ok [OF assms(1,2), of "f c"] contacts_get_ok [OF assms(1-3), of p] Some by (auto simp: update_contact_def)
qed

lemma recover_ok:
  assumes inv: "\<And>c. fj (js c) = Inr c"
  shows "sound s \<Longrightarrow> holds_contacts js (entries s) C \<Longrightarrow>
    \<exists>m s' C'. recover_contacts B (\<lambda>c. Inr (js c)) fj derive now msgs n s = (Inr m, s') \<and> sound s' \<and> holds_contacts js (entries s') C'
      \<and> only_under {CONTACT_KEY_PREFIX} (entries s) (entries s') \<and> C \<subseteq>\<^sub>m C'
      \<and> (\<forall>p c. C' p = Some c \<longrightarrow> C p = Some c \<or> p \<in> hr_peer_id ` set msgs \<and> derive p = Inr (ct_public_key c))"
proof (induction msgs arbitrary: n s C)
  case (Cons msg msgs)
  let ?p = "hr_peer_id msg"
  show ?case
  proof (cases "C ?p = None \<and> (\<exists>k. derive ?p = Inr k)")
    case True
    then obtain k where k: "derive ?p = Inr k" by blast
    let ?c = "contact_new now ?p k"
    have pid: "ct_peer_id ?c = ?p" "ct_public_key ?c = k" by (simp_all add: contact_new_def)
    obtain s1 where s1: "contacts_add B (\<lambda>c. Inr (js c)) ?c s = (Inr (), s1)" "sound s1" "holds_contacts js (entries s1) (C(?p \<mapsto> ?c))"
      "only_under {CONTACT_KEY_PREFIX} (entries s) (entries s1)"
      using contacts_add_ok [OF Cons.prems, of ?c] unfolding pid by blast
    obtain m s' C' where s': "recover_contacts B (\<lambda>c. Inr (js c)) fj derive now msgs (n + 1) s1 = (Inr m, s')" "sound s'" "holds_contacts js (entries s') C'"
      "only_under {CONTACT_KEY_PREFIX} (entries s1) (entries s')" "C(?p \<mapsto> ?c) \<subseteq>\<^sub>m C'"
      "\<forall>p c. C' p = Some c \<longrightarrow> (C(?p \<mapsto> ?c)) p = Some c \<or> p \<in> hr_peer_id ` set msgs \<and> derive p = Inr (ct_public_key c)"
      using Cons.IH [OF s1(2,3)] by blast
    have "recover_contacts B (\<lambda>c. Inr (js c)) fj derive now (msg # msgs) n s = (Inr m, s')"
      using contacts_get_ok [OF Cons.prems inv, of ?p] True k s1(1) s'(1) by simp
    moreover have "C \<subseteq>\<^sub>m C'" using s'(5) True by (auto simp: map_le_def split: if_splits) (metis domI option.distinct(1))
    moreover have "\<forall>p c. C' p = Some c \<longrightarrow> C p = Some c \<or> p \<in> hr_peer_id ` set (msg # msgs) \<and> derive p = Inr (ct_public_key c)"
    proof (intro allI impI)
      fix p c
      assume "C' p = Some c"
      then have "(C(?p \<mapsto> ?c)) p = Some c \<or> p \<in> hr_peer_id ` set msgs \<and> derive p = Inr (ct_public_key c)" using s'(6) by blast
      then show "C p = Some c \<or> p \<in> hr_peer_id ` set (msg # msgs) \<and> derive p = Inr (ct_public_key c)"
        using k pid(2) by (cases "p = ?p") auto
    qed
    ultimately show ?thesis using s'(2,3) only_under_trans [OF s1(4) s'(4)] by blast
  next
    case False
    then have eq: "recover_contacts B (\<lambda>c. Inr (js c)) fj derive now (msg # msgs) n s = recover_contacts B (\<lambda>c. Inr (js c)) fj derive now msgs n s"
      using contacts_get_ok [OF Cons.prems inv, of ?p] by (auto split: option.split sum.split)
    obtain m s' C' where ih: "recover_contacts B (\<lambda>c. Inr (js c)) fj derive now msgs n s = (Inr m, s')" "sound s'" "holds_contacts js (entries s') C'"
      "only_under {CONTACT_KEY_PREFIX} (entries s) (entries s')" "C \<subseteq>\<^sub>m C'"
      "\<forall>p c. C' p = Some c \<longrightarrow> C p = Some c \<or> p \<in> hr_peer_id ` set msgs \<and> derive p = Inr (ct_public_key c)"
      using Cons.IH [OF Cons.prems] by blast
    have "\<forall>p c. C' p = Some c \<longrightarrow> C p = Some c \<or> p \<in> hr_peer_id ` set (msg # msgs) \<and> derive p = Inr (ct_public_key c)"
      using ih(6) by auto
    then show ?thesis unfolding eq using ih(1-5) by blast
  qed
qed auto

end

section \<open>The contact list over the in-memory store\<close>

text \<open>
  C33. The migration loses no contact: opening the contact list on a store that was not migrated yet makes every
  contact stored under its bare peer id readable, unless a record under the prefixed key exists, which then
  wins; every other contact reads as before, entries of other components stay as they are, and
  opening the list again changes nothing.
\<close>

theorem migration_keeps_contacts:
  fixes s :: memory_storage and fj :: "bytes \<Rightarrow> string + contact"
  assumes "hm_wf s" and "hm_get s migrated_key = None"
  defines "s' \<equiv> contact_manager_new memory_backend fj s"
  shows "contacts_get memory_backend fj p s' =
      (if hm_get s (contact_key p) = None \<and> legacy fj (hm_get s) (as_bytes p)
       then Inr (Some (projr (fj (the (hm_get s (as_bytes p)))))) else contacts_get memory_backend fj p s)
    \<and> (\<forall>k. \<not> starts_with (as_bytes CONTACT_KEY_PREFIX) k \<and> \<not> legacy fj (hm_get s) k \<and> k \<noteq> migrated_key \<longrightarrow> hm_get s' k = hm_get s k)
    \<and> contact_manager_new memory_backend fj s' = s'"
proof -
  have m: "hm_wf s'" "hm_get s' = (moved fj (hm_get s) UNIV)(migrated_key \<mapsto> as_bytes ''true'')"
    using memory.migrate_ok [OF assms(1,2), of fj] unfolding s'_def by blast+
  have neq: "contact_key q \<noteq> migrated_key" for q
    unfolding contact_key_def table_key_def as_bytes_eq by (simp add: CONTACT_KEY_PREFIX_def)
  have "contacts_get memory_backend fj p s' =
      (if hm_get s (contact_key p) = None \<and> legacy fj (hm_get s) (as_bytes p)
       then Inr (Some (projr (fj (the (hm_get s (as_bytes p)))))) else contacts_get memory_backend fj p s)"
    using m(2) neq [of p]
    by (auto simp: contacts_get_def memory_backend_def mem_get_def storage_res_def json_res_def moved_contact legacy_def split: option.split)
  moreover have "hm_get s' k = hm_get s k"
    if "\<not> starts_with (as_bytes CONTACT_KEY_PREFIX) k" "\<not> legacy fj (hm_get s) k" "k \<noteq> migrated_key" for k
    using that unfolding m(2) by (simp add: moved_other)
  moreover have "contact_manager_new memory_backend fj s' = s'"
    using m by (simp add: contact_manager_new_def migrate_unprefixed_contacts_def memory.key_exists_ok)
  ultimately show ?thesis by blast
qed

text \<open>
  Recovery from the history never overwrites a contact: \<open>reconcile_from_history\<close> keeps every contact as it is, and each
  contact it adds belongs to a peer of a stored message and has the public key derived from that peer's id.
\<close>

lemma reconcile_keeps_contacts:
  assumes "holds_history mjs s H" and "\<And>r. mfj (mjs r) = Inr r" and "holds_contacts js (hm_get s) C" and "\<And>c. fj (js c) = Inr c"
  shows "\<exists>n s' C'. reconcile_from_history memory_backend (\<lambda>c. Inr (js c)) fj mfj derive now s = (Inr n, s') \<and> holds_contacts js (hm_get s') C'
    \<and> C \<subseteq>\<^sub>m C' \<and> holds_history mjs s' H
    \<and> (\<forall>p c. C' p = Some c \<longrightarrow> C p = Some c \<or> p \<in> hr_peer_id ` ran H \<and> derive p = Inr (ct_public_key c))"
proof -
  have s: "hm_wf s" "table ''msg_'' mjs (hm_get s) H" "keyed H" using assms(1) by (simp_all add: holds_history_def)
  obtain rs where rs: "history_all memory_backend mfj s = Inr rs" "set rs = adjust_legacy_timestamps ` ran H"
    using memory.history_all_table [OF s(1,2) assms(2)] by blast
  let ?msgs = "newest_first 10000 (filter (\<lambda>r. True) rs)"
  have recent: "recent_including_hidden memory_backend mfj None 10000 s = Inr ?msgs"
    by (simp add: recent_including_hidden_def recent_internal_def rs(1))
  have peers: "hr_peer_id ` set ?msgs \<subseteq> hr_peer_id ` ran H"
    using rs(2) by (auto simp: newest_first_def dest!: in_set_takeD)
  obtain m s' C' where s': "recover_contacts memory_backend (\<lambda>c. Inr (js c)) fj derive now ?msgs 0 s = (Inr m, s')" "hm_wf s'"
    "holds_contacts js (hm_get s') C'" "only_under {CONTACT_KEY_PREFIX} (hm_get s) (hm_get s')" "C \<subseteq>\<^sub>m C'"
    "\<forall>p c. C' p = Some c \<longrightarrow> C p = Some c \<or> p \<in> hr_peer_id ` set ?msgs \<and> derive p = Inr (ct_public_key c)"
    using memory.recover_ok [OF assms(4) s(1) assms(3)] by blast
  have "table ''msg_'' mjs (hm_get s') H"
    by (rule only_under_table [OF s'(4) s(2)]) (simp add: apart_def CONTACT_KEY_PREFIX_def)
  then have "holds_history mjs s' H" using s'(2) s(3) by (simp add: holds_history_def)
  then show ?thesis using s' peers recent by (simp add: reconcile_from_history_def) blast
qed

text \<open>
  The integrity check never reports corruption: with fewer than 2^32 entries \<open>verify_integrity\<close> succeeds whatever the
  entries contain, since it compares a count of entries with the same count.
\<close>

lemma verify_integrity_silent:
  assumes "length s < 2 ^ 32"
  shows "verify_integrity memory_backend s = Inr ()"
proof -
  let ?n = "count_or_zero memory_backend (as_bytes CONTACT_KEY_PREFIX) s"
  have "?n \<le> length s"
    using length_filter_le [of _ "map fst s"] by (simp add: count_or_zero_def memory_backend_def mem_count_prefix_def)
  then have "unat (contacts_count memory_backend s) = ?n" using assms by (simp add: contacts_count_def unat_of_nat)
  then show ?thesis by (auto simp: verify_integrity_def)
qed

text \<open>A serialiser for concrete inputs.\<close>

definition seen_bytes :: "u64 option \<Rightarrow> bytes option" where
  "seen_bytes t = map_option (\<lambda>w. nat_to_le 8 (unat w)) t"

definition contact_ser :: "contact \<Rightarrow> bytes" where
  "contact_ser c = unary (as_bytes (ct_peer_id c)) @ unary_opt (map_option as_bytes (ct_nickname c))
     @ unary_opt (map_option as_bytes (ct_local_nickname c)) @ unary (as_bytes (ct_public_key c))
     @ unary_opt (map_option as_bytes (ct_notes c)) @ unary_opt (map_option as_bytes (ct_last_known_device_id c))
     @ unary_opt (seen_bytes (ct_last_seen c)) @ nat_to_le 8 (unat (ct_added_at c))"

definition contact_deser :: "bytes \<Rightarrow> string + contact" where
  "contact_deser bs =
     (let (p, bs1) = dec_unary bs; (n, bs2) = dec_opt bs1; (l, bs3) = dec_opt bs2; (k, bs4) = dec_unary bs3;
          (t, bs5) = dec_opt bs4; (d, bs6) = dec_opt bs5; (seen, bs7) = dec_opt bs6
      in Inr \<lparr>ct_peer_id = str_of p, ct_nickname = map_option str_of n, ct_local_nickname = map_option str_of l,
              ct_public_key = str_of k, ct_added_at = word_of_nat (nat_of_le bs7),
              ct_last_seen = map_option (\<lambda>bs. word_of_nat (nat_of_le bs)) seen, ct_notes = map_option str_of t,
              ct_last_known_device_id = map_option str_of d\<rparr>)"

lemma contact_deser_ser: "contact_deser (contact_ser c) = Inr c"
proof -
  have "map_option (\<lambda>bs. word_of_nat (nat_of_le bs)) (seen_bytes t) = t" for t
    by (cases t) (simp_all add: seen_bytes_def le64_inverse)
  then show ?thesis
    unfolding contact_deser_def contact_ser_def Let_def dec_unary dec_opt prod.case by (simp add: le64_inverse)
qed

definition bare_contact :: memory_storage where
  "bare_contact = [(as_bytes ''bob'', contact_ser (contact_new 5 ''bob'' ''key''))]"

theorem migration_keeps_contacts_witness:
  "contacts_get memory_backend contact_deser ''bob'' (contact_manager_new memory_backend contact_deser bare_contact)
     = Inr (Some (contact_new 5 ''bob'' ''key''))"
proof -
  have "hm_get bare_contact (contact_key ''bob'') = None"
    unfolding bare_contact_def contact_key_def table_key_def by (simp add: CONTACT_KEY_PREFIX_def del: as_bytes_append)
  moreover have "legacy contact_deser (hm_get bare_contact) (as_bytes ''bob'')"
    using starts_with_as_bytes [of CONTACT_KEY_PREFIX "''bob''"]
    by (simp add: legacy_def bare_contact_def contact_deser_ser contact_new_def CONTACT_KEY_PREFIX_def)
  moreover have "hm_wf bare_contact" "hm_get bare_contact migrated_key = None" by (simp_all add: bare_contact_def)
  ultimately show ?thesis
    using migration_keeps_contacts [of bare_contact contact_deser "''bob''"] by (simp add: bare_contact_def contact_deser_ser)
qed

end
