(* ===== verification/Crypto_Ratchet.thy ===== *)
theory Crypto_Ratchet
  imports Drift_Prelude "HOL-Library.List_Lexorder" "HOL-Library.Product_Lexorder"
begin

text \<open>
  The double ratchet of \<open>src/core/src/crypto/ratchet.rs\<close>. X25519, BLAKE3, SHA-512 and the AEAD cipher are the fields of a
  record that every operation takes; random secrets and nonces are arguments. \<open>encrypt\<close> and \<open>decrypt\<close> return the session
  next to their result, also when they fail, since the code changes the session in place; a nonce of the
  wrong length panics, which is the result \<open>None\<close>. The lemmas show that two sessions stay in step in
  any conversation whose messages arrive at once, that the messages of one chain may arrive in any
  order, and that one forged message breaks a session.
\<close>

section \<open>Definitions\<close>

record ratchet_crypto =
  cr_public :: "bytes \<Rightarrow> bytes"
  cr_dh :: "bytes \<Rightarrow> bytes \<Rightarrow> bytes"
  cr_derive_key :: "string \<Rightarrow> bytes \<Rightarrow> bytes"
  cr_hash_hex :: "string \<Rightarrow> string"
  cr_sha512 :: "bytes \<Rightarrow> bytes"
  cr_seal :: "bytes \<Rightarrow> bytes \<Rightarrow> bytes \<Rightarrow> bytes \<Rightarrow> string + bytes"
  cr_open :: "bytes \<Rightarrow> bytes \<Rightarrow> bytes \<Rightarrow> bytes \<Rightarrow> string + bytes"

definition RATCHET_KDF_CONTEXT :: string where
  "RATCHET_KDF_CONTEXT = ''iron-core ratchet v1 2026-04-15''"

definition ROOT_KDF_CONTEXT :: string where
  "ROOT_KDF_CONTEXT = ''iron-core root-chain v1 2026-04-15''"

definition MAX_SKIP_KEYS :: nat where
  "MAX_SKIP_KEYS = 256"

definition MAX_RATCHET_STEPS :: u32 where
  "MAX_RATCHET_STEPS = 10000"

definition derive_key_with_info :: "ratchet_crypto \<Rightarrow> bytes \<Rightarrow> string \<Rightarrow> bytes" where
  "derive_key_with_info cr key info = cr_derive_key cr (RATCHET_KDF_CONTEXT @ '':'' @ cr_hash_hex cr info) key"

definition root_key_ratchet :: "ratchet_crypto \<Rightarrow> bytes \<Rightarrow> bytes \<Rightarrow> bytes \<times> bytes" where
  "root_key_ratchet cr root_key dh_output =
     (let combined = cr_derive_key cr ROOT_KDF_CONTEXT (root_key @ dh_output)
      in (cr_derive_key cr (ROOT_KDF_CONTEXT @ '':root'') combined, cr_derive_key cr (ROOT_KDF_CONTEXT @ '':chain'') combined))"

definition derive_root_key :: "ratchet_crypto \<Rightarrow> bytes \<Rightarrow> bytes \<Rightarrow> bytes" where
  "derive_root_key cr prior_root shared_secret = cr_derive_key cr ROOT_KDF_CONTEXT (prior_root @ shared_secret)"

definition ed25519_to_x25519_secret :: "ratchet_crypto \<Rightarrow> bytes \<Rightarrow> bytes" where
  "ed25519_to_x25519_secret cr signing_key = take 32 (cr_sha512 cr signing_key)"

record chain =
  ch_chain_key :: bytes
  ch_index :: u32

definition chain_new :: "bytes \<Rightarrow> chain" where
  "chain_new chain_key = \<lparr>ch_chain_key = chain_key, ch_index = 0\<rparr>"

definition chain_new_with_index :: "bytes \<Rightarrow> u32 \<Rightarrow> chain" where
  "chain_new_with_index chain_key index = \<lparr>ch_chain_key = chain_key, ch_index = index\<rparr>"

definition next_message_key :: "ratchet_crypto \<Rightarrow> chain \<Rightarrow> bytes \<times> chain" where
  "next_message_key cr ch =
     (derive_key_with_info cr (ch_chain_key ch) ''message-key'',
      \<lparr>ch_chain_key = derive_key_with_info cr (ch_chain_key ch) ''chain-key'', ch_index = ch_index ch + 1\<rparr>)"

record ratchet_session =
  rs_our_dh_secret :: bytes
  rs_our_dh_public :: bytes
  rs_their_dh_public :: "bytes option"
  rs_root_key :: bytes
  rs_sending_chain :: "chain option"
  rs_receiving_chain :: "chain option"
  rs_dh_step_count :: u32
  rs_skipped_keys :: "(bytes \<times> u32, bytes) hmap"
  rs_initialized :: bool
  rs_our_identity_secret :: "bytes option"

definition session_reconstruct ::
  "bytes \<Rightarrow> bytes \<Rightarrow> bytes option \<Rightarrow> bytes \<Rightarrow> chain option \<Rightarrow> chain option \<Rightarrow> u32 \<Rightarrow> bool \<Rightarrow> bytes option \<Rightarrow> ratchet_session" where
  "session_reconstruct our_dh_secret our_dh_public their_dh_public root_key sending receiving steps init identity_secret =
     \<lparr>rs_our_dh_secret = our_dh_secret, rs_our_dh_public = our_dh_public, rs_their_dh_public = their_dh_public,
      rs_root_key = root_key, rs_sending_chain = sending, rs_receiving_chain = receiving, rs_dh_step_count = steps,
      rs_skipped_keys = [], rs_initialized = init, rs_our_identity_secret = identity_secret\<rparr>"

text \<open>\<open>secret\<close> is the random secret the code draws.\<close>

definition init_as_sender :: "ratchet_crypto \<Rightarrow> bytes \<Rightarrow> bytes \<Rightarrow> bytes \<Rightarrow> ratchet_session" where
  "init_as_sender cr secret our_signing_key their_identity_public =
     (let shared_secret = cr_dh cr (ed25519_to_x25519_secret cr our_signing_key) their_identity_public;
          root_key = derive_root_key cr (replicate 32 0) shared_secret;
          (new_root_key, sending_chain_key) = root_key_ratchet cr root_key (cr_dh cr secret their_identity_public)
      in \<lparr>rs_our_dh_secret = secret, rs_our_dh_public = cr_public cr secret,
          rs_their_dh_public = Some their_identity_public, rs_root_key = new_root_key,
          rs_sending_chain = Some (chain_new sending_chain_key), rs_receiving_chain = None, rs_dh_step_count = 1,
          rs_skipped_keys = [], rs_initialized = True, rs_our_identity_secret = None\<rparr>)"

definition init_as_receiver :: "ratchet_crypto \<Rightarrow> bytes \<Rightarrow> bytes \<Rightarrow> bytes \<Rightarrow> ratchet_session" where
  "init_as_receiver cr secret our_signing_key sender_identity_public =
     (let our_x25519 = ed25519_to_x25519_secret cr our_signing_key;
          shared_secret = cr_dh cr our_x25519 sender_identity_public;
          root_key = derive_root_key cr (replicate 32 0) shared_secret
      in \<lparr>rs_our_dh_secret = secret, rs_our_dh_public = cr_public cr secret, rs_their_dh_public = None,
          rs_root_key = root_key, rs_sending_chain = None, rs_receiving_chain = None, rs_dh_step_count = 0,
          rs_skipped_keys = [], rs_initialized = False, rs_our_identity_secret = Some our_x25519\<rparr>)"

record ratchet_message =
  rm_ciphertext :: bytes
  rm_nonce :: bytes
  rm_message_number :: u32
  rm_our_dh_public :: bytes

definition ratchet_encrypt ::
  "ratchet_crypto \<Rightarrow> bytes \<Rightarrow> bytes \<Rightarrow> bytes \<Rightarrow> ratchet_session \<Rightarrow> (string + ratchet_message) \<times> ratchet_session" where
  "ratchet_encrypt cr nonce plaintext aad rs =
     (case rs_sending_chain rs of
        None \<Rightarrow> (Inl ''Sending chain not initialized'', rs)
      | Some chain \<Rightarrow>
          if rs_dh_step_count rs \<ge> MAX_RATCHET_STEPS then (Inl ''Ratchet session has exceeded maximum steps'', rs)
          else
            let (message_key, chain') = next_message_key cr chain;
                rs' = rs\<lparr>rs_sending_chain := Some chain'\<rparr>
            in (case cr_seal cr message_key nonce plaintext aad of
                  Inl e \<Rightarrow> (Inl (''Encryption failed: '' @ e), rs')
                | Inr ciphertext \<Rightarrow>
                    (Inr \<lparr>rm_ciphertext = ciphertext, rm_nonce = nonce, rm_message_number = ch_index chain' - 1,
                          rm_our_dh_public = rs_our_dh_public rs\<rparr>, rs')))"

definition handle_dh_ratchet :: "ratchet_crypto \<Rightarrow> bytes \<Rightarrow> bytes \<Rightarrow> ratchet_session \<Rightarrow> ratchet_session" where
  "handle_dh_ratchet cr new_secret their_new_dh rs =
     (let first_dh_secret = (case rs_our_identity_secret rs of Some s \<Rightarrow> s | None \<Rightarrow> rs_our_dh_secret rs);
          (new_root_key, receiving_chain_key) = root_key_ratchet cr (rs_root_key rs) (cr_dh cr first_dh_secret their_new_dh);
          (new_root_key_2, sending_chain_key) = root_key_ratchet cr new_root_key (cr_dh cr new_secret their_new_dh)
      in rs\<lparr>rs_our_identity_secret := None, rs_their_dh_public := Some their_new_dh,
            rs_our_dh_secret := new_secret, rs_our_dh_public := cr_public cr new_secret, rs_root_key := new_root_key_2,
            rs_receiving_chain := Some (chain_new receiving_chain_key), rs_sending_chain := Some (chain_new sending_chain_key),
            rs_dh_step_count := rs_dh_step_count rs + 1, rs_initialized := True\<rparr>)"

definition evict_min :: "(bytes \<times> u32, bytes) hmap \<Rightarrow> (bytes \<times> u32, bytes) hmap" where
  "evict_min sk = (if length sk > MAX_SKIP_KEYS then hm_remove (Min (fst ` set sk)) sk else sk)"

text \<open>The loop that stores the keys of skipped messages, \<open>n\<close> times.\<close>

fun skip_keys ::
  "ratchet_crypto \<Rightarrow> bytes \<Rightarrow> nat \<Rightarrow> chain \<Rightarrow> (bytes \<times> u32, bytes) hmap \<Rightarrow> chain \<times> (bytes \<times> u32, bytes) hmap" where
  "skip_keys cr dh 0 ch sk = (ch, sk)"
| "skip_keys cr dh (Suc n) ch sk =
     (let (key, ch') = next_message_key cr ch
      in skip_keys cr dh n ch' (evict_min (hm_insert (dh, ch_index ch' - 1) key sk)))"

definition get_message_key ::
  "ratchet_crypto \<Rightarrow> bytes \<Rightarrow> u32 \<Rightarrow> ratchet_session \<Rightarrow> (string + bytes) \<times> ratchet_session" where
  "get_message_key cr their_dh target_number rs =
     (case hm_get (rs_skipped_keys rs) (their_dh, target_number) of
        Some key \<Rightarrow> (Inr key, rs\<lparr>rs_skipped_keys := hm_remove (their_dh, target_number) (rs_skipped_keys rs)\<rparr>)
      | None \<Rightarrow>
          (case rs_receiving_chain rs of
             None \<Rightarrow> (Inl ''Receiving chain not initialized'', rs)
           | Some ch \<Rightarrow>
               if target_number < ch_index ch then (Inl ''Message number is behind current chain position'', rs)
               else if unat (target_number - ch_index ch) > MAX_SKIP_KEYS then (Inl ''Too many skipped messages'', rs)
               else
                 let (ch', sk) = skip_keys cr their_dh (unat target_number - unat (ch_index ch)) ch (rs_skipped_keys rs);
                     (key, ch'') = next_message_key cr ch'
                 in (Inr key, rs\<lparr>rs_receiving_chain := Some ch'', rs_skipped_keys := sk\<rparr>)))"

definition ratchet_decrypt ::
  "ratchet_crypto \<Rightarrow> bytes \<Rightarrow> bytes \<Rightarrow> u32 \<Rightarrow> bytes \<Rightarrow> bytes \<Rightarrow> bytes \<Rightarrow> ratchet_session \<Rightarrow> (string + bytes) option \<times> ratchet_session" where
  "ratchet_decrypt cr new_secret their_dh_public message_number nonce ciphertext aad rs =
     (if length their_dh_public \<noteq> 32 then (Some (Inl ''Invalid DH public key length''), rs)
      else
        let rs1 = (if rs_their_dh_public rs \<noteq> Some their_dh_public then handle_dh_ratchet cr new_secret their_dh_public rs else rs)
        in case get_message_key cr their_dh_public message_number rs1 of
             (Inl e, rs2) \<Rightarrow> (Some (Inl e), rs2)
           | (Inr message_key, rs2) \<Rightarrow>
               if length nonce \<noteq> 24 then (None, rs2)
               else (case cr_open cr message_key nonce ciphertext aad of
                       Inl _ \<Rightarrow> (Some (Inl ''Decryption failed''), rs2)
                     | Inr plaintext \<Rightarrow> (Some (Inr plaintext), rs2)))"

definition force_ratchet :: "ratchet_crypto \<Rightarrow> bytes \<Rightarrow> ratchet_session \<Rightarrow> bytes \<times> ratchet_session" where
  "force_ratchet cr new_secret rs =
     (let rs1 = rs\<lparr>rs_our_dh_secret := new_secret, rs_our_dh_public := cr_public cr new_secret,
                   rs_dh_step_count := rs_dh_step_count rs + 1\<rparr>;
          rs2 = (case rs_their_dh_public rs1 of
                   None \<Rightarrow> rs1
                 | Some their_dh \<Rightarrow>
                     let (new_root_key, sending_chain_key) = root_key_ratchet cr (rs_root_key rs1) (cr_dh cr new_secret their_dh)
                     in rs1\<lparr>rs_root_key := new_root_key, rs_sending_chain := Some (chain_new sending_chain_key)\<rparr>)
      in (rs_our_dh_public rs2, rs2))"

section \<open>Chains\<close>

definition chain_keys :: "ratchet_crypto \<Rightarrow> bytes \<Rightarrow> nat \<Rightarrow> bytes" where
  "chain_keys cr ck n = ((\<lambda>k. derive_key_with_info cr k ''chain-key'') ^^ n) ck"

definition message_key :: "ratchet_crypto \<Rightarrow> bytes \<Rightarrow> nat \<Rightarrow> bytes" where
  "message_key cr ck n = derive_key_with_info cr (chain_keys cr ck n) ''message-key''"

definition chain_at :: "ratchet_crypto \<Rightarrow> bytes \<Rightarrow> nat \<Rightarrow> chain" where
  "chain_at cr ck n = \<lparr>ch_chain_key = chain_keys cr ck n, ch_index = word_of_nat n\<rparr>"

lemma next_message_key_at: "next_message_key cr (chain_at cr ck n) = (message_key cr ck n, chain_at cr ck (Suc n))"
  by (simp add: next_message_key_def chain_at_def message_key_def chain_keys_def)

lemma chain_new_at: "chain_new ck = chain_at cr ck 0"
  by (simp add: chain_new_def chain_at_def chain_keys_def)

lemma index_at [simp]: "ch_index (chain_at cr ck n) = word_of_nat n"
  by (simp add: chain_at_def)

lemma index_Suc_at [simp]: "ch_index (chain_at cr ck (Suc n)) - 1 = word_of_nat n"
  by (simp add: chain_at_def)

section \<open>Conversations\<close>

text \<open>What the primitives are documented to do.\<close>

definition sound_crypto :: "ratchet_crypto \<Rightarrow> bool" where
  "sound_crypto cr \<longleftrightarrow>
     (\<forall>a b. cr_dh cr a (cr_public cr b) = cr_dh cr b (cr_public cr a)) \<and> (\<forall>a. length (cr_public cr a) = 32) \<and>
     (\<forall>k n m aad. \<exists>c. cr_seal cr k n m aad = Inr c \<and> cr_open cr k n c aad = Inr m)"

text \<open>One message from \<open>X\<close> to \<open>Y\<close>, delivered at once.\<close>

definition exchange ::
  "ratchet_crypto \<Rightarrow> bytes \<Rightarrow> bytes \<Rightarrow> bytes \<Rightarrow> bytes \<Rightarrow> ratchet_session \<Rightarrow> ratchet_session \<Rightarrow>
   (string + bytes) option \<times> ratchet_session \<times> ratchet_session" where
  "exchange cr aad nonce m fresh X Y =
     (case ratchet_encrypt cr nonce m aad X of
        (Inl e, X') \<Rightarrow> (Some (Inl e), X', Y)
      | (Inr msg, X') \<Rightarrow>
          (case ratchet_decrypt cr fresh (rm_our_dh_public msg) (rm_message_number msg) (rm_nonce msg) (rm_ciphertext msg) aad Y of
             (r, Y') \<Rightarrow> (r, X', Y')))"

definition first_secret :: "ratchet_session \<Rightarrow> bytes" where
  "first_secret rs = (case rs_our_identity_secret rs of Some s \<Rightarrow> s | None \<Rightarrow> rs_our_dh_secret rs)"

lemma first_secret_update [simp]:
  "first_secret (rs\<lparr>rs_sending_chain := c\<rparr>) = first_secret rs" "first_secret (rs\<lparr>rs_receiving_chain := c\<rparr>) = first_secret rs"
  by (simp_all add: first_secret_def split: option.splits)

text \<open>
  \<open>X\<close> has a key that \<open>Y\<close> has not seen, and \<open>Y\<close> will derive from it the chain \<open>X\<close> sends with; what \<open>Y\<close> sends with its
  current key is what \<open>X\<close> expects next. \<open>U\<close> contains the public keys used so far.
\<close>

definition leads :: "ratchet_crypto \<Rightarrow> bytes set \<Rightarrow> nat \<Rightarrow> ratchet_session \<Rightarrow> ratchet_session \<Rightarrow> bool" where
  "leads cr U k X Y \<longleftrightarrow>
     rs_our_identity_secret X = None \<and> rs_our_dh_public X = cr_public cr (rs_our_dh_secret X) \<and>
     (\<exists>ck. rs_sending_chain X = Some (chain_at cr ck 0) \<and>
        root_key_ratchet cr (rs_root_key Y) (cr_dh cr (first_secret Y) (rs_our_dh_public X)) = (rs_root_key X, ck)) \<and>
     rs_their_dh_public Y \<noteq> Some (rs_our_dh_public X) \<and>
     (rs_sending_chain Y = None \<or>
       (\<exists>ck n. rs_sending_chain Y = Some (chain_at cr ck n) \<and> rs_receiving_chain X = Some (chain_at cr ck n) \<and> n \<le> k
          \<and> rs_their_dh_public X = Some (rs_our_dh_public Y) \<and> length (rs_our_dh_public Y) = 32)) \<and>
     rs_skipped_keys X = [] \<and> rs_skipped_keys Y = [] \<and> rs_our_dh_public X \<in> U \<and> rs_our_dh_public Y \<in> U \<and>
     (\<forall>p. rs_their_dh_public X = Some p \<longrightarrow> p \<in> U) \<and>
     unat (rs_dh_step_count X) \<le> Suc k \<and> unat (rs_dh_step_count Y) \<le> Suc k"

lemma skip_none: "get_message_key cr dh (word_of_nat n) rs = (Inr (message_key cr ck n), rs\<lparr>rs_receiving_chain := Some (chain_at cr ck (Suc n))\<rparr>)"
  if "rs_skipped_keys rs = []" "rs_receiving_chain rs = Some (chain_at cr ck n)"
  using that by (simp add: get_message_key_def next_message_key_at)

lemma encrypt_at:
  assumes "sound_crypto cr" and "rs_sending_chain X = Some (chain_at cr ck n)" and "rs_dh_step_count X < MAX_RATCHET_STEPS"
  shows "\<exists>c. ratchet_encrypt cr nonce m aad X =
      (Inr \<lparr>rm_ciphertext = c, rm_nonce = nonce, rm_message_number = word_of_nat n, rm_our_dh_public = rs_our_dh_public X\<rparr>,
       X\<lparr>rs_sending_chain := Some (chain_at cr ck (Suc n))\<rparr>) \<and> cr_open cr (message_key cr ck n) nonce c aad = Inr m"
proof -
  obtain c where "cr_seal cr (message_key cr ck n) nonce m aad = Inr c" "cr_open cr (message_key cr ck n) nonce c aad = Inr m"
    using assms(1) unfolding sound_crypto_def by blast
  then show ?thesis using assms(2,3) by (simp add: ratchet_encrypt_def next_message_key_at)
qed

lemma decrypt_same_key:
  assumes "rs_their_dh_public Y = Some dh" and "length dh = 32" and "length nonce = 24" and "rs_skipped_keys Y = []"
    and "rs_receiving_chain Y = Some (chain_at cr ck n)" and "cr_open cr (message_key cr ck n) nonce c aad = Inr m"
  shows "ratchet_decrypt cr fresh dh (word_of_nat n) nonce c aad Y = (Some (Inr m), Y\<lparr>rs_receiving_chain := Some (chain_at cr ck (Suc n))\<rparr>)"
  using assms skip_none [OF assms(4,5), of dh] by (simp add: ratchet_decrypt_def)

lemma decrypt_new_key:
  assumes "rs_their_dh_public Y \<noteq> Some dh" and "length dh = 32" and "length nonce = 24" and "rs_skipped_keys Y = []"
    and "root_key_ratchet cr (rs_root_key Y) (cr_dh cr (first_secret Y) dh) = (rk, ck)" and "cr_open cr (message_key cr ck 0) nonce c aad = Inr m"
  shows "ratchet_decrypt cr fresh dh 0 nonce c aad Y =
    (Some (Inr m), (handle_dh_ratchet cr fresh dh Y)\<lparr>rs_receiving_chain := Some (chain_at cr ck 1)\<rparr>)"
proof -
  let ?Y = "handle_dh_ratchet cr fresh dh Y"
  have "rs_receiving_chain ?Y = Some (chain_at cr ck 0)" "rs_skipped_keys ?Y = []"
    using assms(4,5) by (simp_all add: handle_dh_ratchet_def Let_def first_secret_def chain_new_at [of ck cr] case_prod_unfold)
  from skip_none [OF this(2,1), of dh] show ?thesis using assms by (simp add: ratchet_decrypt_def)
qed

lemma unat_add_one: "unat (w + 1) \<le> Suc (unat w)" for w :: u32
proof -
  have "unat (w + 1) = (unat w + 1) mod 2 ^ 32" by (simp add: unat_word_ariths)
  then show ?thesis using mod_less_eq_dividend [of "unat w + 1" "2 ^ 32"] by simp
qed

lemma steps_left: "unat w \<le> Suc k \<Longrightarrow> k < 9999 \<Longrightarrow> w < MAX_RATCHET_STEPS" for w :: u32
  by (simp add: MAX_RATCHET_STEPS_def word_less_nat_alt)

lemma leader_sends:
  assumes sound: "sound_crypto cr" and lead: "leads cr U k X Y" and "k < 9998" and nonce: "length nonce = 24" and fresh: "cr_public cr fresh \<notin> U"
  shows "\<exists>X' Y'. exchange cr aad nonce m fresh X Y = (Some (Inr m), X', Y')
    \<and> leads cr (insert (cr_public cr fresh) U) (Suc k) Y' X' \<and> rs_sending_chain X' \<noteq> None"
proof -
  let ?dh = "rs_our_dh_public X"
  obtain ck where ck: "rs_sending_chain X = Some (chain_at cr ck 0)"
    "root_key_ratchet cr (rs_root_key Y) (cr_dh cr (first_secret Y) ?dh) = (rs_root_key X, ck)"
    using lead unfolding leads_def by blast
  have X: "rs_our_identity_secret X = None" "?dh = cr_public cr (rs_our_dh_secret X)" "rs_skipped_keys X = []"
    "rs_skipped_keys Y = []" "rs_their_dh_public Y \<noteq> Some ?dh" "unat (rs_dh_step_count X) \<le> Suc k" "unat (rs_dh_step_count Y) \<le> Suc k"
    and U: "?dh \<in> U" "\<forall>p. rs_their_dh_public X = Some p \<longrightarrow> p \<in> U"
    using lead unfolding leads_def by blast+
  have len: "length ?dh = 32" using sound X(2) by (simp add: sound_crypto_def)
  let ?X = "X\<lparr>rs_sending_chain := Some (chain_at cr ck 1)\<rparr>"
  obtain c where c: "ratchet_encrypt cr nonce m aad X =
      (Inr \<lparr>rm_ciphertext = c, rm_nonce = nonce, rm_message_number = 0, rm_our_dh_public = ?dh\<rparr>, ?X)"
    "cr_open cr (message_key cr ck 0) nonce c aad = Inr m"
    using encrypt_at [OF sound ck(1) steps_left [OF X(6)], of nonce m aad] assms(3) by auto
  let ?Y = "(handle_dh_ratchet cr fresh ?dh Y)\<lparr>rs_receiving_chain := Some (chain_at cr ck 1)\<rparr>"
  have "ratchet_decrypt cr fresh ?dh 0 nonce c aad Y = (Some (Inr m), ?Y)"
    by (rule decrypt_new_key [OF X(5) len nonce X(4) ck(2) c(2)])
  then have ex: "exchange cr aad nonce m fresh X Y = (Some (Inr m), ?X, ?Y)" using c(1) by (simp add: exchange_def)
  obtain rk ck' where r: "root_key_ratchet cr (rs_root_key X) (cr_dh cr fresh ?dh) = (rk, ck')" by fastforce
  have comm: "cr_dh cr fresh ?dh = cr_dh cr (rs_our_dh_secret X) (cr_public cr fresh)"
    using sound unfolding X(2) sound_crypto_def by blast
  have Y: "rs_our_identity_secret ?Y = None" "rs_our_dh_public ?Y = cr_public cr fresh" "rs_our_dh_secret ?Y = fresh"
    "rs_their_dh_public ?Y = Some ?dh" "rs_root_key ?Y = rk" "rs_sending_chain ?Y = Some (chain_at cr ck' 0)"
    "rs_receiving_chain ?Y = Some (chain_at cr ck 1)" "rs_dh_step_count ?Y = rs_dh_step_count Y + 1" "rs_skipped_keys ?Y = []"
    using ck(2) r X(4) chain_new_at [of ck' cr] unfolding handle_dh_ratchet_def first_secret_def by simp_all
  have steps: "unat (rs_dh_step_count Y + 1) \<le> Suc (Suc k)" using X(7) unat_add_one [of "rs_dh_step_count Y"] by simp
  have "leads cr (insert (cr_public cr fresh) U) (Suc k) ?Y ?X"
    unfolding leads_def Y using X(1,3,6) U fresh r comm len steps
    by (auto simp: first_secret_def intro: exI [of _ ck] exI [of _ 1])
  then show ?thesis using ex by simp
qed

lemma follower_sends:
  assumes sound: "sound_crypto cr" and lead: "leads cr U k X Y" and "rs_sending_chain Y \<noteq> None" and "k < 9998" and nonce: "length nonce = 24"
  shows "\<exists>X' Y'. exchange cr aad nonce m fresh Y X = (Some (Inr m), Y', X')
    \<and> leads cr (insert (cr_public cr fresh) U) (Suc k) X' Y' \<and> rs_sending_chain Y' \<noteq> None"
proof -
  let ?dh = "rs_our_dh_public Y"
  obtain ck n where ck: "rs_sending_chain Y = Some (chain_at cr ck n)" "rs_receiving_chain X = Some (chain_at cr ck n)" "n \<le> k"
    "rs_their_dh_public X = Some ?dh" "length ?dh = 32"
    using lead assms(3) unfolding leads_def by blast
  have X: "rs_skipped_keys X = []" "unat (rs_dh_step_count Y) \<le> Suc k" using lead unfolding leads_def by blast+
  let ?Y = "Y\<lparr>rs_sending_chain := Some (chain_at cr ck (Suc n))\<rparr>" and ?X = "X\<lparr>rs_receiving_chain := Some (chain_at cr ck (Suc n))\<rparr>"
  obtain c where c: "ratchet_encrypt cr nonce m aad Y =
      (Inr \<lparr>rm_ciphertext = c, rm_nonce = nonce, rm_message_number = word_of_nat n, rm_our_dh_public = ?dh\<rparr>, ?Y)"
    "cr_open cr (message_key cr ck n) nonce c aad = Inr m"
    using encrypt_at [OF sound ck(1) steps_left [OF X(2)], of nonce m aad] assms(4) by auto
  have "ratchet_decrypt cr fresh ?dh (word_of_nat n) nonce c aad X = (Some (Inr m), ?X)"
    by (rule decrypt_same_key [OF ck(4,5) nonce X(1) ck(2) c(2)])
  then have "exchange cr aad nonce m fresh Y X = (Some (Inr m), ?Y, ?X)" using c(1) by (simp add: exchange_def)
  moreover have "leads cr (insert (cr_public cr fresh) U) (Suc k) ?X ?Y"
    using lead ck unfolding leads_def by auto
  ultimately show ?thesis by simp
qed

text \<open>The identity key of a party, as the other party knows it.\<close>

abbreviation identity_public :: "ratchet_crypto \<Rightarrow> bytes \<Rightarrow> bytes" where
  "identity_public cr signing_key \<equiv> cr_public cr (ed25519_to_x25519_secret cr signing_key)"

lemma initial_leads:
  assumes "sound_crypto cr"
  shows "leads cr {cr_public cr a, cr_public cr b, identity_public cr bob} 0
    (init_as_sender cr a alice (identity_public cr bob)) (init_as_receiver cr b bob (identity_public cr alice))"
proof -
  have comm: "cr_dh cr x (cr_public cr y) = cr_dh cr y (cr_public cr x)" for x y using assms by (simp add: sound_crypto_def)
  show ?thesis
    unfolding leads_def init_as_sender_def init_as_receiver_def Let_def first_secret_def
    using comm [of "ed25519_to_x25519_secret cr alice" "ed25519_to_x25519_secret cr bob"] comm [of a "ed25519_to_x25519_secret cr bob"]
    by (auto simp: chain_new_at [of _ cr] case_prod_unfold)
qed

text \<open>A concrete set of primitives, for the witnesses: keys are 32 bytes, every derivation adds the length of its context.\<close>

definition pad32 :: "bytes \<Rightarrow> bytes" where
  "pad32 x = take 32 (x @ replicate 32 0)"

definition plain_crypto :: ratchet_crypto where
  "plain_crypto =
     \<lparr>cr_public = pad32, cr_dh = (\<lambda>a B. map2 (+) (pad32 a) B),
      cr_derive_key = (\<lambda>ctx k. map (\<lambda>x. x + word_of_nat (length ctx)) (pad32 k)),
      cr_hash_hex = (\<lambda>x. x), cr_sha512 = (\<lambda>x. take 64 (x @ replicate 64 0)),
      cr_seal = (\<lambda>k n m aad. Inr (k @ m)),
      cr_open = (\<lambda>k n c aad. if take (length k) c = k then Inr (drop (length k) c) else Inl ''aead::Error'')\<rparr>"

lemma map2_add_commute: "map2 (+) xs ys = map2 (+) ys xs" for xs ys :: bytes
  by (induction xs ys rule: list_induct2') (simp_all add: add.commute)

lemma plain_crypto_sound: "sound_crypto plain_crypto"
  by (simp add: sound_crypto_def plain_crypto_def map2_add_commute) (auto simp: pad32_def min_def)

section \<open>Messages of one chain in any order\<close>

text \<open>The stored keys are those of the messages before \<open>m\<close> that are not among the received ones \<open>G\<close>.\<close>

definition waiting :: "ratchet_crypto \<Rightarrow> bytes \<Rightarrow> bytes \<Rightarrow> nat \<Rightarrow> nat set \<Rightarrow> (bytes \<times> u32, bytes) hmap \<Rightarrow> bool" where
  "waiting cr dh ck m G sk \<longleftrightarrow> hm_wf sk \<and> G \<subseteq> {..<m} \<and>
     (\<forall>d i. hm_get sk (d, i) = (if d = dh \<and> unat i < m \<and> unat i \<notin> G then Some (message_key cr ck (unat i)) else None))"

lemma unat_index: "m \<le> 257 \<Longrightarrow> unat (word_of_nat m :: u32) = m"
  by (simp add: unat_of_nat)

lemma waiting_length:
  assumes "waiting cr dh ck m G sk" and "m \<le> 257"
  shows "length sk \<le> m"
proof -
  have "fst ` set sk \<subseteq> (\<lambda>i. (dh, word_of_nat i)) ` {..<m}"
  proof
    fix x assume "x \<in> fst ` set sk"
    then obtain v where "hm_get sk x = Some v" by (metis domD dom_map_of_conv_image_fst)
    then have "fst x = dh" "unat (snd x) < m" using assms(1) unfolding waiting_def by (metis option.distinct(1) prod.collapse)+
    then show "x \<in> (\<lambda>i. (dh, word_of_nat i)) ` {..<m}" by (intro image_eqI [of _ _ "unat (snd x)"]) auto
  qed
  then have "card (fst ` set sk) \<le> m" by (metis card_lessThan finite_lessThan surj_card_le)
  moreover have "length sk = card (fst ` set sk)"
    using assms(1) unfolding waiting_def by (metis distinct_card length_map set_map)
  ultimately show ?thesis by simp
qed

lemma waiting_skip:
  assumes "waiting cr dh ck m G sk" and "m < 256"
  shows "waiting cr dh ck (Suc m) G (evict_min (hm_insert (dh, word_of_nat m) (message_key cr ck m) sk))"
proof -
  let ?sk = "hm_insert (dh, word_of_nat m) (message_key cr ck m) sk"
  have u: "unat (word_of_nat m :: u32) = m" using assms(2) by (simp add: unat_index)
  have i: "unat i < Suc m \<longleftrightarrow> unat i < m \<or> i = word_of_nat m" for i :: u32 using u by (metis less_Suc_eq word_unat_eq_iff)
  have "m \<notin> G" using assms(1) by (auto simp: waiting_def)
  then have w: "waiting cr dh ck (Suc m) G ?sk"
    using assms(1) u unfolding waiting_def i by auto
  then have "length ?sk \<le> MAX_SKIP_KEYS" using waiting_length [OF w] assms(2) by (simp add: MAX_SKIP_KEYS_def)
  then show ?thesis using w by (simp add: evict_min_def)
qed

lemma skip_keys_at:
  "waiting cr dh ck m G sk \<Longrightarrow> m + n \<le> 256 \<Longrightarrow>
   \<exists>sk'. skip_keys cr dh n (chain_at cr ck m) sk = (chain_at cr ck (m + n), sk') \<and> waiting cr dh ck (m + n) G sk'"
proof (induction n arbitrary: m sk)
  case (Suc n)
  from Suc.IH [OF waiting_skip [OF Suc.prems(1)]] Suc.prems(2) show ?case by (simp add: next_message_key_at)
qed simp

lemma waiting_receive: "waiting cr dh ck m G sk \<Longrightarrow> i < m \<Longrightarrow> m \<le> 257 \<Longrightarrow>
    waiting cr dh ck m (insert i G) (hm_remove (dh, word_of_nat i) sk)"
  unfolding waiting_def by (auto simp: unat_index)

lemma waiting_advance: "waiting cr dh ck m G sk \<Longrightarrow> m \<le> 257 \<Longrightarrow> waiting cr dh ck (Suc m) (insert m G) sk"
  unfolding waiting_def by (auto simp: less_Suc_eq)

text \<open>Every message of the chain that has not been received has its key.\<close>

lemma any_key:
  assumes "rs_receiving_chain rs = Some (chain_at cr ck m)" and w: "waiting cr dh ck m G (rs_skipped_keys rs)" and "m \<le> 257"
    and "i \<notin> G" and "i \<le> 256"
  shows "\<exists>m' sk. get_message_key cr dh (word_of_nat i) rs =
      (Inr (message_key cr ck i), rs\<lparr>rs_receiving_chain := Some (chain_at cr ck m'), rs_skipped_keys := sk\<rparr>)
    \<and> waiting cr dh ck m' (insert i G) sk \<and> m' \<le> 257"
proof (cases "i < m")
  case True
  have "hm_get (rs_skipped_keys rs) (dh, word_of_nat i) = Some (message_key cr ck i)"
    using w True assms(4,5) by (simp add: waiting_def unat_index)
  then have "get_message_key cr dh (word_of_nat i) rs = (Inr (message_key cr ck i),
      rs\<lparr>rs_receiving_chain := Some (chain_at cr ck m), rs_skipped_keys := hm_remove (dh, word_of_nat i) (rs_skipped_keys rs)\<rparr>)"
    using assms(1) by (simp add: get_message_key_def)
  then show ?thesis using waiting_receive [OF w True assms(3)] assms(3) by blast
next
  case False
  obtain sk where sk: "skip_keys cr dh (i - m) (chain_at cr ck m) (rs_skipped_keys rs) = (chain_at cr ck i, sk)" "waiting cr dh ck i G sk"
    using skip_keys_at [OF w, of "i - m"] False assms(5) by auto
  have "hm_get (rs_skipped_keys rs) (dh, word_of_nat i) = None"
    using w False assms(5) by (simp add: waiting_def unat_index)
  moreover have "\<not> (word_of_nat i :: u32) < word_of_nat m"
    using False assms(3,5) by (simp add: word_less_nat_alt unat_index)
  moreover have "unat (word_of_nat i - word_of_nat m :: u32) = i - m"
    using False assms(3,5) by (simp add: unat_sub word_le_nat_alt unat_index)
  ultimately have "get_message_key cr dh (word_of_nat i) rs = (Inr (message_key cr ck i),
      rs\<lparr>rs_receiving_chain := Some (chain_at cr ck (Suc i)), rs_skipped_keys := sk\<rparr>)"
    using assms(1,3,5) sk(1) by (simp add: get_message_key_def unat_index MAX_SKIP_KEYS_def next_message_key_at)
  then show ?thesis using waiting_advance [OF sk(2)] assms(5) by fastforce
qed

text \<open>A list of texts with their nonces, encrypted one after the other; and messages in the order in which they arrive.\<close>

fun send_all ::
  "ratchet_crypto \<Rightarrow> bytes \<Rightarrow> (bytes \<times> bytes) list \<Rightarrow> ratchet_session \<Rightarrow> (string + ratchet_message list) \<times> ratchet_session" where
  "send_all cr aad [] X = (Inr [], X)"
| "send_all cr aad ((nonce, m) # ms) X =
     (case ratchet_encrypt cr nonce m aad X of
        (Inl e, X') \<Rightarrow> (Inl e, X')
      | (Inr c, X') \<Rightarrow> (case send_all cr aad ms X' of (Inl e, X'') \<Rightarrow> (Inl e, X'') | (Inr cs, X'') \<Rightarrow> (Inr (c # cs), X'')))"

fun deliver_all :: "ratchet_crypto \<Rightarrow> bytes \<Rightarrow> (bytes \<times> ratchet_message) list \<Rightarrow> ratchet_session \<Rightarrow> (string + bytes) option list" where
  "deliver_all cr aad [] Y = []"
| "deliver_all cr aad ((fresh, c) # cs) Y =
     (case ratchet_decrypt cr fresh (rm_our_dh_public c) (rm_message_number c) (rm_nonce c) (rm_ciphertext c) aad Y of
        (r, Y') \<Rightarrow> r # deliver_all cr aad cs Y')"

definition carries :: "ratchet_crypto \<Rightarrow> bytes \<Rightarrow> bytes \<Rightarrow> bytes \<Rightarrow> nat \<Rightarrow> bytes \<Rightarrow> ratchet_message \<Rightarrow> bool" where
  "carries cr aad dh ck i m c \<longleftrightarrow> rm_our_dh_public c = dh \<and> rm_message_number c = word_of_nat i \<and> length (rm_nonce c) = 24 \<and>
     cr_open cr (message_key cr ck i) (rm_nonce c) (rm_ciphertext c) aad = Inr m"

lemma send_all_carries:
  assumes "sound_crypto cr"
  shows "rs_sending_chain X = Some (chain_at cr ck n) \<Longrightarrow> rs_dh_step_count X < MAX_RATCHET_STEPS \<Longrightarrow> \<forall>(nonce, m) \<in> set ms. length nonce = 24 \<Longrightarrow>
    \<exists>cs X'. send_all cr aad ms X = (Inr cs, X') \<and> length cs = length ms \<and>
      (\<forall>i < length ms. carries cr aad (rs_our_dh_public X) ck (n + i) (snd (ms ! i)) (cs ! i))"
proof (induction ms arbitrary: X n)
  case (Cons a ms)
  obtain nonce m where a: "a = (nonce, m)" by fastforce
  obtain c where c: "ratchet_encrypt cr nonce m aad X =
      (Inr \<lparr>rm_ciphertext = c, rm_nonce = nonce, rm_message_number = word_of_nat n, rm_our_dh_public = rs_our_dh_public X\<rparr>,
       X\<lparr>rs_sending_chain := Some (chain_at cr ck (Suc n))\<rparr>)" (is "_ = (Inr ?c, ?X)")
    "cr_open cr (message_key cr ck n) nonce c aad = Inr m"
    using encrypt_at [OF assms Cons.prems(1,2)] by blast
  obtain cs X' where cs: "send_all cr aad ms ?X = (Inr cs, X')" "length cs = length ms"
    "\<forall>i < length ms. carries cr aad (rs_our_dh_public X) ck (Suc n + i) (snd (ms ! i)) (cs ! i)"
    using Cons.IH [of ?X "Suc n"] Cons.prems by auto
  have "carries cr aad (rs_our_dh_public X) ck n m ?c" using c(2) Cons.prems(3) a by (simp add: carries_def)
  then have "\<forall>i < length (a # ms). carries cr aad (rs_our_dh_public X) ck (n + i) (snd ((a # ms) ! i)) ((?c # cs) ! i)"
    using cs(3) a by (auto simp: less_Suc_eq_0_disj)
  then show ?case using a c(1) cs(1,2) by simp
qed simp

lemma deliver_same_key:
  assumes "\<forall>i < n. carries cr aad dh ck i (f i) (cs ! i)" and "length dh = 32" and "n \<le> 257"
  shows "rs_their_dh_public Y = Some dh \<Longrightarrow> rs_receiving_chain Y = Some (chain_at cr ck m) \<Longrightarrow> m \<le> 257 \<Longrightarrow>
    waiting cr dh ck m G (rs_skipped_keys Y) \<Longrightarrow> distinct ord \<Longrightarrow> set ord \<subseteq> {..<n} \<Longrightarrow> set ord \<inter> G = {} \<Longrightarrow>
    deliver_all cr aad (map (\<lambda>i. (fresh i, cs ! i)) ord) Y = map (\<lambda>i. Some (Inr (f i))) ord"
proof (induction ord arbitrary: Y m G)
  case (Cons i ord)
  have i: "i \<notin> G" "i \<le> 256" "i < n" using Cons.prems(6,7) assms(3) by auto
  from any_key [OF Cons.prems(2,4,3) i(1,2)] obtain m' sk where
    k: "get_message_key cr dh (word_of_nat i) Y =
      (Inr (message_key cr ck i), Y\<lparr>rs_receiving_chain := Some (chain_at cr ck m'), rs_skipped_keys := sk\<rparr>)" (is "_ = (_, ?Y)")
    and w: "waiting cr dh ck m' (insert i G) sk" "m' \<le> 257" by blast
  have "carries cr aad dh ck i (f i) (cs ! i)" using assms(1) i(3) by blast
  then have "ratchet_decrypt cr (fresh i) (rm_our_dh_public (cs ! i)) (rm_message_number (cs ! i)) (rm_nonce (cs ! i))
      (rm_ciphertext (cs ! i)) aad Y = (Some (Inr (f i)), ?Y)"
    using k Cons.prems(1) assms(2) by (simp add: carries_def ratchet_decrypt_def)
  then show ?case using Cons.IH [of ?Y m' "insert i G"] w Cons.prems by auto
qed simp

lemma deliver_new_key:
  assumes "\<forall>i < n. carries cr aad dh ck i (f i) (cs ! i)" and "length dh = 32" and "n \<le> 257"
    and "rs_their_dh_public Y \<noteq> Some dh" and "rs_skipped_keys Y = []"
    and "root_key_ratchet cr (rs_root_key Y) (cr_dh cr (first_secret Y) dh) = (rk, ck)"
    and "distinct ord" and "set ord \<subseteq> {..<n}"
  shows "deliver_all cr aad (map (\<lambda>i. (fresh i, cs ! i)) ord) Y = map (\<lambda>i. Some (Inr (f i))) ord"
proof (cases ord)
  case (Cons i ord')
  let ?Y = "handle_dh_ratchet cr (fresh i) dh Y"
  have Y: "rs_their_dh_public ?Y = Some dh" "rs_receiving_chain ?Y = Some (chain_at cr ck 0)" "rs_skipped_keys ?Y = []"
    using assms(5,6) by (simp_all add: handle_dh_ratchet_def Let_def first_secret_def chain_new_at [of ck cr] case_prod_unfold)
  then have w: "waiting cr dh ck 0 {} (rs_skipped_keys ?Y)" by (simp add: waiting_def)
  have "carries cr aad dh ck i (f i) (cs ! i)" using assms(1,8) Cons by auto
  then have "deliver_all cr aad (map (\<lambda>i. (fresh i, cs ! i)) ord) Y = deliver_all cr aad (map (\<lambda>i. (fresh i, cs ! i)) ord) ?Y"
    using assms(2,4) Y(1) Cons by (simp add: carries_def ratchet_decrypt_def Let_def)
  then show ?thesis using deliver_same_key [OF assms(1-3) Y(1,2) _ w assms(7,8)] by simp
qed simp

text \<open>
  C8. Delivery order within a chain does not matter: the first 257 messages of a session decrypt to what was written in
  whatever order they arrive, and whichever of them are lost. The keys of overtaken messages are kept, and the limit of 256
  stored keys is never the reason to drop one of them.
\<close>

theorem chain_any_order:
  assumes sound: "sound_crypto cr" and "length ms \<le> 257" and "\<forall>(nonce, m) \<in> set ms. length nonce = 24"
    and "distinct ord" and "set ord \<subseteq> {..<length ms}"
  shows "\<exists>cs A'. send_all cr aad ms (init_as_sender cr a alice (identity_public cr bob)) = (Inr cs, A') \<and>
    deliver_all cr aad (map (\<lambda>i. (fresh i, cs ! i)) ord) (init_as_receiver cr b bob (identity_public cr alice))
      = map (\<lambda>i. Some (Inr (snd (ms ! i)))) ord"
proof -
  let ?A = "init_as_sender cr a alice (identity_public cr bob)" and ?B = "init_as_receiver cr b bob (identity_public cr alice)"
  obtain ck where A: "rs_sending_chain ?A = Some (chain_at cr ck 0)"
    "root_key_ratchet cr (rs_root_key ?B) (cr_dh cr (first_secret ?B) (rs_our_dh_public ?A)) = (rs_root_key ?A, ck)"
    using initial_leads [OF sound, of a b bob alice] unfolding leads_def by blast
  have len: "length (rs_our_dh_public ?A) = 32" "rs_dh_step_count ?A < MAX_RATCHET_STEPS"
    using sound by (auto simp: sound_crypto_def init_as_sender_def Let_def case_prod_unfold MAX_RATCHET_STEPS_def)
  have B: "rs_their_dh_public ?B \<noteq> Some (rs_our_dh_public ?A)" "rs_skipped_keys ?B = []" by (simp_all add: init_as_receiver_def Let_def)
  from send_all_carries [OF sound A(1) len(2) assms(3), of aad] obtain cs A' where cs: "send_all cr aad ms ?A = (Inr cs, A')"
    "\<forall>i < length ms. carries cr aad (rs_our_dh_public ?A) ck i (snd (ms ! i)) (cs ! i)" by auto
  from deliver_new_key [OF cs(2) len(1) assms(2) B A(2) assms(4,5)] cs(1) show ?thesis by blast
qed

theorem chain_any_order_witness:
  "\<exists>cs A'. send_all plain_crypto [7] [(replicate 24 1, [1]), (replicate 24 2, [2]), (replicate 24 3, [3])]
      (init_as_sender plain_crypto [5] [21] (identity_public plain_crypto [22])) = (Inr cs, A') \<and>
    deliver_all plain_crypto [7] [([11], cs ! 2), ([12], cs ! 0)] (init_as_receiver plain_crypto [6] [22] (identity_public plain_crypto [21]))
      = [Some (Inr [3]), Some (Inr [1])]"
  using chain_any_order [OF plain_crypto_sound, of "[(replicate 24 1, [1]), (replicate 24 2, [2]), (replicate 24 3, [3])]" "[2, 0]" "[7]" "[5]" "[21]" "[22]"
      "\<lambda>i. if i = 2 then [11] else [12]" "[6]"] by simp

section \<open>What breaks a session\<close>

lemma key_in_new_chain:
  assumes "rs_receiving_chain rs = Some (chain_at cr ck 0)" and "\<And>i. hm_get (rs_skipped_keys rs) (dh, i) = None" and "n \<le> 256"
  shows "fst (get_message_key cr dh (word_of_nat n) rs) = Inr (message_key cr ck n)"
proof -
  have "fst (skip_keys cr dh k (chain_at cr ck i) sk) = chain_at cr ck (i + k)" for k i sk
    by (induction k arbitrary: i sk) (simp_all add: next_message_key_at)
  from this [of n 0] show ?thesis
    using assms by (simp add: get_message_key_def unat_index MAX_SKIP_KEYS_def next_message_key_at case_prod_unfold)
qed

text \<open>The chain on which a session receives after a message with the new key \<open>dh\<close>.\<close>

definition chain_after :: "ratchet_crypto \<Rightarrow> ratchet_session \<Rightarrow> bytes \<Rightarrow> bytes" where
  "chain_after cr Y dh = snd (root_key_ratchet cr (rs_root_key Y) (cr_dh cr (first_secret Y) dh))"

lemma handle_dh_ratchet_fields:
  "rs_their_dh_public (handle_dh_ratchet cr s dh Y) = Some dh"
  "rs_receiving_chain (handle_dh_ratchet cr s dh Y) = Some (chain_at cr (chain_after cr Y dh) 0)"
  "rs_skipped_keys (handle_dh_ratchet cr s dh Y) = rs_skipped_keys Y"
  by (simp_all add: handle_dh_ratchet_def Let_def first_secret_def chain_new_at [of _ cr] case_prod_unfold chain_after_def)

text \<open>A message with a new key makes the session step to that key, whether or not the message decrypts.\<close>

lemma decrypt_steps:
  assumes "rs_their_dh_public Y \<noteq> Some dh" and "length dh = 32" and "rs_skipped_keys Y = []" and "n \<le> 256" and "length nonce = 24"
    and "cr_open cr (message_key cr (chain_after cr Y dh) n) nonce c aad = Inl e"
  shows "fst (ratchet_decrypt cr s dh (word_of_nat n) nonce c aad Y) = Some (Inl ''Decryption failed'')"
  using key_in_new_chain [of "handle_dh_ratchet cr s dh Y" cr "chain_after cr Y dh" dh n] assms
  by (cases "get_message_key cr dh (word_of_nat n) (handle_dh_ratchet cr s dh Y)")
    (simp add: ratchet_decrypt_def handle_dh_ratchet_fields)

lemma decrypt_steps_zero:
  assumes "rs_their_dh_public Y \<noteq> Some dh" and "length dh = 32" and "rs_skipped_keys Y = []" and "length nonce = 24"
    and "cr_open cr (message_key cr (chain_after cr Y dh) 0) nonce c aad = Inl e"
  shows "ratchet_decrypt cr s dh 0 nonce c aad Y = (Some (Inl ''Decryption failed''),
    (handle_dh_ratchet cr s dh Y)\<lparr>rs_receiving_chain := Some (chain_at cr (chain_after cr Y dh) 1)\<rparr>)"
  using skip_none [of "handle_dh_ratchet cr s dh Y" cr _ 0 dh] assms
  by (simp add: ratchet_decrypt_def handle_dh_ratchet_fields Let_def)

text \<open>
  C40. One forged message is enough to lose a session: the session steps to the key of a message before the message is
  authenticated. If it can read the next message of its peer, and a message with an unknown key that is refused
  arrives first, the peer's message is refused too, unless the key of a chain that neither party has agreed on happens to open it.
\<close>

theorem forged_message_breaks_session:
  assumes "rs_their_dh_public Y = Some dh" and "length dh = 32" and "rs_skipped_keys Y = []"
    and "rs_receiving_chain Y = Some (chain_at cr ck n)" and "n \<le> 256" and "length nonce = 24"
    and genuine: "cr_open cr (message_key cr ck n) nonce c aad = Inr m"
    and "dh' \<noteq> dh" and "length dh' = 32" and "length nonce' = 24"
    and forged: "cr_open cr (message_key cr (chain_after cr Y dh') 0) nonce' c' aad = Inl e'"
    and other: "cr_open cr (message_key cr (chain_after cr (handle_dh_ratchet cr s' dh' Y) dh) n) nonce c aad = Inl e"
    and "g = \<lparr>rm_ciphertext = c, rm_nonce = nonce, rm_message_number = word_of_nat n, rm_our_dh_public = dh\<rparr>"
    and "f = \<lparr>rm_ciphertext = c', rm_nonce = nonce', rm_message_number = 0, rm_our_dh_public = dh'\<rparr>"
  shows "deliver_all cr aad [(s, g)] Y = [Some (Inr m)] \<and>
    deliver_all cr aad [(s', f), (s, g)] Y = [Some (Inl ''Decryption failed''), Some (Inl ''Decryption failed'')]"
proof
  show "deliver_all cr aad [(s, g)] Y = [Some (Inr m)]"
    using decrypt_same_key [OF assms(1,2,6,3,4) genuine] assms(13) by simp
  let ?Y = "(handle_dh_ratchet cr s' dh' Y)\<lparr>rs_receiving_chain := Some (chain_at cr (chain_after cr Y dh') 1)\<rparr>"
  have "rs_their_dh_public Y \<noteq> Some dh'" using assms(1,8) by simp
  from decrypt_steps_zero [OF this assms(9,3,10) forged]
  have f: "ratchet_decrypt cr s' dh' 0 nonce' c' aad Y = (Some (Inl ''Decryption failed''), ?Y)" .
  have "chain_after cr ?Y dh = chain_after cr (handle_dh_ratchet cr s' dh' Y) dh" by (simp add: chain_after_def)
  then have "cr_open cr (message_key cr (chain_after cr ?Y dh) n) nonce c aad = Inl e" using other by simp
  from decrypt_steps [OF _ assms(2) _ assms(5,6) this]
  have "fst (ratchet_decrypt cr s dh (word_of_nat n) nonce c aad ?Y) = Some (Inl ''Decryption failed'')"
    using assms(3,8) by (simp add: handle_dh_ratchet_fields)
  then show "deliver_all cr aad [(s', f), (s, g)] Y = [Some (Inl ''Decryption failed''), Some (Inl ''Decryption failed'')]"
    using f assms(13,14) by (simp add: case_prod_unfold)
qed

definition sample_session :: ratchet_session where
  "sample_session =
     \<lparr>rs_our_dh_secret = [1], rs_our_dh_public = pad32 [1], rs_their_dh_public = Some (pad32 [2]), rs_root_key = replicate 32 3,
      rs_sending_chain = None, rs_receiving_chain = Some (chain_at plain_crypto (pad32 [4]) 1), rs_dh_step_count = 2,
      rs_skipped_keys = [], rs_initialized = True, rs_our_identity_secret = None\<rparr>"

theorem forged_message_breaks_session_witness:
  "deliver_all plain_crypto [7]
     [([8], \<lparr>rm_ciphertext = message_key plain_crypto (pad32 [4]) 1 @ [9], rm_nonce = replicate 24 5, rm_message_number = 1,
             rm_our_dh_public = pad32 [2]\<rparr>)] sample_session = [Some (Inr [9])] \<and>
   deliver_all plain_crypto [7]
     [([6], \<lparr>rm_ciphertext = [], rm_nonce = replicate 24 0, rm_message_number = 0, rm_our_dh_public = pad32 [3]\<rparr>),
      ([8], \<lparr>rm_ciphertext = message_key plain_crypto (pad32 [4]) 1 @ [9], rm_nonce = replicate 24 5, rm_message_number = 1,
             rm_our_dh_public = pad32 [2]\<rparr>)] sample_session
     = [Some (Inl ''Decryption failed''), Some (Inl ''Decryption failed'')]"
proof (rule forged_message_breaks_session [where n = 1 and dh = "pad32 [2]" and dh' = "pad32 [3]"])
  show "cr_open plain_crypto (message_key plain_crypto (chain_after plain_crypto sample_session (pad32 [3])) 0) (replicate 24 0) [] [7] = Inl ''aead::Error''"
    by code_simp
  show "cr_open plain_crypto (message_key plain_crypto (chain_after plain_crypto (handle_dh_ratchet plain_crypto [6] (pad32 [3]) sample_session)
      (pad32 [2])) 1) (replicate 24 5) (message_key plain_crypto (pad32 [4]) 1 @ [9]) [7] = Inl ''aead::Error''"
    by code_simp
  show "cr_open plain_crypto (message_key plain_crypto (pad32 [4]) 1) (replicate 24 5) (message_key plain_crypto (pad32 [4]) 1 @ [9]) [7] = Inr [9]"
    by (simp add: plain_crypto_def)
  show "pad32 [3] \<noteq> pad32 [2]" by code_simp
qed (simp_all add: sample_session_def pad32_def)

end
