(* ===== verification/Crypto_Sessions.thy ===== *)
theory Crypto_Sessions
  imports Crypto_Ratchet Store_Backend
begin

text \<open>
  \<open>RatchetSessionManager\<close> of \<open>src/core/src/crypto/session_manager.rs\<close>: the sessions by peer, and their disk format. Hexadecimal
  and JSON are parameters. The lemmas show that saved sessions are loaded again, without the keys of skipped messages,
  that loading overwrites no session, and that the strict variant is all or nothing.
\<close>

section \<open>UTF-8\<close>

text \<open>\<open>String::from_utf8\<close> of the standard library.\<close>

definition utf8_tail :: "u8 \<Rightarrow> bool" where
  "utf8_tail b \<longleftrightarrow> 0x80 \<le> b \<and> b \<le> 0xBF"

definition utf8_second :: "u8 \<Rightarrow> u8 \<Rightarrow> bool" where
  "utf8_second a b \<longleftrightarrow> utf8_tail b \<and> (a = 0xE0 \<longrightarrow> 0xA0 \<le> b) \<and> (a = 0xED \<longrightarrow> b \<le> 0x9F) \<and> (a = 0xF0 \<longrightarrow> 0x90 \<le> b) \<and> (a = 0xF4 \<longrightarrow> b \<le> 0x8F)"

definition utf8_width :: "u8 \<Rightarrow> nat" where
  "utf8_width a =
     (if a < 0x80 then 1 else if 0xC2 \<le> a \<and> a \<le> 0xDF then 2 else if 0xE0 \<le> a \<and> a \<le> 0xEF then 3
      else if 0xF0 \<le> a \<and> a \<le> 0xF4 then 4 else 0)"

function utf8_valid :: "bytes \<Rightarrow> bool" where
  "utf8_valid [] = True"
| "utf8_valid (a # bs) =
     (let n = utf8_width a - 1
      in 0 < utf8_width a \<and> n \<le> length bs \<and> (0 < n \<longrightarrow> utf8_second a (hd bs)) \<and> list_all utf8_tail (take n bs) \<and> utf8_valid (drop n bs))"
  by pat_completeness auto
termination by (relation "measure length") auto

definition from_utf8 :: "bytes \<Rightarrow> string + string" where
  "from_utf8 bs = (if utf8_valid bs then Inr (str_of bs) else Inl ''invalid utf-8 sequence'')"

section \<open>The disk format\<close>

record hex_codec =
  hx_encode :: "bytes \<Rightarrow> string"
  hx_decode :: "string \<Rightarrow> string + bytes"
  hx_slice32 :: "string \<Rightarrow> bytes" \<comment> \<open>what \<open>decode_to_slice\<close> leaves in a buffer of 32 zero bytes, also when it fails\<close>

record chain_state =
  cs_chain_key_hex :: string
  cs_index :: u32

record serializable_session =
  ss_our_dh_secret_hex :: string
  ss_our_dh_public_hex :: string
  ss_their_dh_public_hex :: "string option"
  ss_root_key_hex :: string
  ss_sending_chain :: "chain_state option"
  ss_receiving_chain :: "chain_state option"
  ss_dh_step_count :: u32
  ss_initialized :: bool
  ss_has_identity_secret :: bool
  ss_identity_secret_hex :: "string option"

definition to_chain_state :: "hex_codec \<Rightarrow> chain \<Rightarrow> chain_state" where
  "to_chain_state hx c = \<lparr>cs_chain_key_hex = hx_encode hx (ch_chain_key c), cs_index = ch_index c\<rparr>"

definition from_session :: "hex_codec \<Rightarrow> ratchet_session \<Rightarrow> serializable_session" where
  "from_session hx s =
     \<lparr>ss_our_dh_secret_hex = hx_encode hx (rs_our_dh_secret s), ss_our_dh_public_hex = hx_encode hx (rs_our_dh_public s),
      ss_their_dh_public_hex = map_option (hx_encode hx) (rs_their_dh_public s), ss_root_key_hex = hx_encode hx (rs_root_key s),
      ss_sending_chain = map_option (to_chain_state hx) (rs_sending_chain s),
      ss_receiving_chain = map_option (to_chain_state hx) (rs_receiving_chain s),
      ss_dh_step_count = rs_dh_step_count s, ss_initialized = rs_initialized s,
      ss_has_identity_secret = (rs_our_identity_secret s \<noteq> None),
      ss_identity_secret_hex = map_option (hx_encode hx) (rs_our_identity_secret s)\<rparr>"

definition decode_key :: "hex_codec \<Rightarrow> string \<Rightarrow> string \<Rightarrow> string + bytes" where
  "decode_key hx name hex =
     (case hx_decode hx hex of
        Inl e \<Rightarrow> Inl (''Invalid '' @ name @ ''_hex: '' @ e)
      | Inr bs \<Rightarrow> if length bs \<noteq> 32 then Inl (name @ '' must be 32 bytes'') else Inr bs)"

definition decode_opt_key :: "hex_codec \<Rightarrow> string \<Rightarrow> string option \<Rightarrow> string + bytes option" where
  "decode_opt_key hx name hex =
     (case hex of None \<Rightarrow> Inr None | Some h \<Rightarrow> try_res (decode_key hx name h) (\<lambda>bs. Inr (Some bs)))"

definition from_chain_state :: "hex_codec \<Rightarrow> chain_state \<Rightarrow> chain" where
  "from_chain_state hx cs = chain_new_with_index (hx_slice32 hx (cs_chain_key_hex cs)) (cs_index cs)"

definition into_session :: "hex_codec \<Rightarrow> serializable_session \<Rightarrow> string + ratchet_session" where
  "into_session hx ss =
     try_res (decode_key hx ''our_dh_secret'' (ss_our_dh_secret_hex ss)) (\<lambda>our_dh_secret.
     try_res (decode_key hx ''our_dh_public'' (ss_our_dh_public_hex ss)) (\<lambda>our_dh_public.
     try_res (decode_opt_key hx ''their_dh_public'' (ss_their_dh_public_hex ss)) (\<lambda>their_dh_public.
     try_res (decode_key hx ''root_key'' (ss_root_key_hex ss)) (\<lambda>root_key.
     try_res (decode_opt_key hx ''identity_secret'' (ss_identity_secret_hex ss)) (\<lambda>our_identity_secret.
       Inr (session_reconstruct our_dh_secret our_dh_public their_dh_public root_key
              (map_option (from_chain_state hx) (ss_sending_chain ss)) (map_option (from_chain_state hx) (ss_receiving_chain ss))
              (ss_dh_step_count ss) (ss_initialized ss) our_identity_secret))))))"

section \<open>The manager\<close>

record 's session_manager =
  sm_sessions :: "(string, ratchet_session) hmap"
  sm_backend :: "'s storage_backend option"

record json_codec =
  js_to :: "(string, serializable_session) hmap \<Rightarrow> string + string"
  js_from :: "string \<Rightarrow> string + (string, serializable_session) hmap"

definition session_manager_new :: "'s session_manager" where
  "session_manager_new = \<lparr>sm_sessions = [], sm_backend = None\<rparr>"

definition session_manager_with_backend :: "'s storage_backend \<Rightarrow> 's session_manager" where
  "session_manager_with_backend B = \<lparr>sm_sessions = [], sm_backend = Some B\<rparr>"

definition SESSIONS_KEY :: bytes where
  "SESSIONS_KEY = as_bytes ''ratchet_sessions_v1''"

definition serialize_sessions :: "hex_codec \<Rightarrow> json_codec \<Rightarrow> 's session_manager \<Rightarrow> string + string" where
  "serialize_sessions hx js m =
     (case js_to js (map (\<lambda>(k, v). (k, from_session hx v)) (sm_sessions m)) of
        Inl e \<Rightarrow> Inl (''Failed to serialize ratchet sessions: '' @ e)
      | Inr json \<Rightarrow> Inr json)"

fun merge_sessions ::
  "hex_codec \<Rightarrow> (string, serializable_session) hmap \<Rightarrow> (string, ratchet_session) hmap \<Rightarrow> (string, ratchet_session) hmap" where
  "merge_sessions hx [] ss = ss"
| "merge_sessions hx ((peer_id, ser) # es) ss =
     (if hm_contains ss peer_id then merge_sessions hx es ss
      else case into_session hx ser of
             Inl _ \<Rightarrow> merge_sessions hx es ss
           | Inr s \<Rightarrow> merge_sessions hx es (hm_insert peer_id s ss))"

definition deserialize_sessions :: "hex_codec \<Rightarrow> json_codec \<Rightarrow> string \<Rightarrow> 's session_manager \<Rightarrow> (string + unit) \<times> 's session_manager" where
  "deserialize_sessions hx js json m =
     (case js_from js json of
        Inl e \<Rightarrow> (Inl (''Failed to deserialize ratchet sessions: '' @ e), m)
      | Inr es \<Rightarrow> (Inr (), m\<lparr>sm_sessions := merge_sessions hx es (sm_sessions m)\<rparr>))"

fun decode_new ::
  "hex_codec \<Rightarrow> (string, serializable_session) hmap \<Rightarrow> (string, ratchet_session) hmap \<Rightarrow> string + (string \<times> ratchet_session) list" where
  "decode_new hx [] ss = Inr []"
| "decode_new hx ((peer_id, ser) # es) ss =
     (if hm_contains ss peer_id then decode_new hx es ss
      else try_res (into_session hx ser) (\<lambda>s. try_res (decode_new hx es ss) (\<lambda>ds. Inr ((peer_id, s) # ds))))"

definition deserialize_sessions_strict :: "hex_codec \<Rightarrow> json_codec \<Rightarrow> string \<Rightarrow> 's session_manager \<Rightarrow> (string + unit) \<times> 's session_manager" where
  "deserialize_sessions_strict hx js json m =
     (case js_from js json of
        Inl e \<Rightarrow> (Inl (''Failed to deserialize ratchet sessions: '' @ e), m)
      | Inr es \<Rightarrow>
          (case decode_new hx es (sm_sessions m) of
             Inl e \<Rightarrow> (Inl e, m)
           | Inr ds \<Rightarrow> (Inr (), m\<lparr>sm_sessions := fold (\<lambda>(k, v). hm_insert k v) ds (sm_sessions m)\<rparr>)))"

definition sessions_save :: "hex_codec \<Rightarrow> json_codec \<Rightarrow> 's session_manager \<Rightarrow> 's \<Rightarrow> (string + unit) \<times> 's" where
  "sessions_save hx js m st =
     (case sm_backend m of
        None \<Rightarrow> (Inr (), st)
      | Some B \<Rightarrow>
          (case serialize_sessions hx js m of
             Inl e \<Rightarrow> (Inl e, st)
           | Inr json \<Rightarrow>
               (case bk_put B SESSIONS_KEY (as_bytes json) st of
                  (Inl e, st') \<Rightarrow> (Inl (''Failed to save ratchet sessions: '' @ e), st')
                | (Inr _, st') \<Rightarrow> (Inr (), st'))))"

definition sessions_load :: "hex_codec \<Rightarrow> json_codec \<Rightarrow> 's \<Rightarrow> 's session_manager \<Rightarrow> (string + unit) \<times> 's session_manager" where
  "sessions_load hx js st m =
     (case sm_backend m of
        None \<Rightarrow> (Inr (), m)
      | Some B \<Rightarrow>
          (case bk_get B SESSIONS_KEY st of
             Inl e \<Rightarrow> (Inl (''Failed to load ratchet sessions: '' @ e), m)
           | Inr None \<Rightarrow> (Inr (), m)
           | Inr (Some bs) \<Rightarrow>
               (case from_utf8 bs of
                  Inl e \<Rightarrow> (Inl (''Invalid ratchet session encoding: '' @ e), m)
                | Inr json \<Rightarrow> deserialize_sessions hx js json m)))"

text \<open>
  \<open>get_or_create_session\<close> and \<open>create_receiver_session\<close> return a reference into the map; here the caller looks the session up.
\<close>

definition get_or_create_session ::
  "ratchet_crypto \<Rightarrow> bytes \<Rightarrow> string \<Rightarrow> bytes \<Rightarrow> bytes \<Rightarrow> 's session_manager \<Rightarrow> 's session_manager" where
  "get_or_create_session cr secret peer_id our_signing_key their_identity_public m =
     (if hm_contains (sm_sessions m) peer_id then m
      else m\<lparr>sm_sessions := hm_insert peer_id (init_as_sender cr secret our_signing_key their_identity_public) (sm_sessions m)\<rparr>)"

definition create_receiver_session ::
  "ratchet_crypto \<Rightarrow> bytes \<Rightarrow> string \<Rightarrow> bytes \<Rightarrow> bytes \<Rightarrow> 's session_manager \<Rightarrow> 's session_manager" where
  "create_receiver_session cr secret peer_id our_signing_key sender_identity_public m =
     m\<lparr>sm_sessions := hm_insert peer_id (init_as_receiver cr secret our_signing_key sender_identity_public) (sm_sessions m)\<rparr>"

definition get_session :: "string \<Rightarrow> 's session_manager \<Rightarrow> ratchet_session option" where
  "get_session peer_id m = hm_get (sm_sessions m) peer_id"

definition set_session :: "string \<Rightarrow> ratchet_session \<Rightarrow> 's session_manager \<Rightarrow> 's session_manager" where
  "set_session peer_id s m = m\<lparr>sm_sessions := hm_insert peer_id s (sm_sessions m)\<rparr>"

definition remove_session :: "string \<Rightarrow> 's session_manager \<Rightarrow> 's session_manager" where
  "remove_session peer_id m = m\<lparr>sm_sessions := hm_remove peer_id (sm_sessions m)\<rparr>"

definition session_count :: "'s session_manager \<Rightarrow> nat" where
  "session_count m = length (sm_sessions m)"

definition has_session :: "string \<Rightarrow> 's session_manager \<Rightarrow> bool" where
  "has_session peer_id m = hm_contains (sm_sessions m) peer_id"

section \<open>Saving and loading\<close>

text \<open>In the code the keys are arrays of 32 bytes.\<close>

definition wf_session :: "ratchet_session \<Rightarrow> bool" where
  "wf_session s \<longleftrightarrow> length (rs_our_dh_secret s) = 32 \<and> length (rs_our_dh_public s) = 32 \<and> length (rs_root_key s) = 32 \<and>
     pred_option (\<lambda>k. length k = 32) (rs_their_dh_public s) \<and> pred_option (\<lambda>k. length k = 32) (rs_our_identity_secret s) \<and>
     pred_option (\<lambda>c. length (ch_chain_key c) = 32) (rs_sending_chain s) \<and> pred_option (\<lambda>c. length (ch_chain_key c) = 32) (rs_receiving_chain s)"

definition sound_hex :: "hex_codec \<Rightarrow> bool" where
  "sound_hex hx \<longleftrightarrow> (\<forall>b. hx_decode hx (hx_encode hx b) = Inr b) \<and> (\<forall>b. length b = 32 \<longrightarrow> hx_slice32 hx (hx_encode hx b) = b)"

text \<open>The map \<open>m\<close> has a JSON text, which is valid UTF-8 as every \<open>String\<close> and parses to the same map.\<close>

definition sound_json :: "json_codec \<Rightarrow> (string, serializable_session) hmap \<Rightarrow> bool" where
  "sound_json js m \<longleftrightarrow> (\<exists>j es. js_to js m = Inr j \<and> utf8_valid (as_bytes j) \<and> js_from js j = Inr es \<and> hm_wf es \<and> hm_get es = hm_get m)"

definition snapshot :: "hex_codec \<Rightarrow> 's session_manager \<Rightarrow> (string, serializable_session) hmap" where
  "snapshot hx m = map (\<lambda>(k, v). (k, from_session hx v)) (sm_sessions m)"

definition without_skipped :: "ratchet_session \<Rightarrow> ratchet_session" where
  "without_skipped s = s\<lparr>rs_skipped_keys := []\<rparr>"

lemma decode_key_encode [simp]: "sound_hex hx \<Longrightarrow> length k = 32 \<Longrightarrow> decode_key hx n (hx_encode hx k) = Inr k"
  by (simp add: decode_key_def sound_hex_def)

lemma decode_opt_key_encode [simp]:
  "sound_hex hx \<Longrightarrow> pred_option (\<lambda>k. length k = 32) k \<Longrightarrow> decode_opt_key hx n (map_option (hx_encode hx) k) = Inr k"
  by (cases k) (simp_all add: decode_opt_key_def)

lemma chain_state_inverse [simp]:
  "sound_hex hx \<Longrightarrow> pred_option (\<lambda>c. length (ch_chain_key c) = 32) c \<Longrightarrow>
   map_option (from_chain_state hx) (map_option (to_chain_state hx) c) = c"
  by (cases c) (simp_all add: from_chain_state_def to_chain_state_def chain_new_with_index_def sound_hex_def)

lemma into_from_session: "sound_hex hx \<Longrightarrow> wf_session s \<Longrightarrow> into_session hx (from_session hx s) = Inr (without_skipped s)"
  unfolding wf_session_def into_session_def from_session_def
  by (elim conjE) (simp add: session_reconstruct_def without_skipped_def del: option.map_comp)

definition decoded_session :: "hex_codec \<Rightarrow> serializable_session \<Rightarrow> ratchet_session option" where
  "decoded_session hx ser = (case into_session hx ser of Inl _ \<Rightarrow> None | Inr s \<Rightarrow> Some s)"

lemma get_merge_sessions:
  "hm_wf es \<Longrightarrow> hm_get (merge_sessions hx es ss) k =
     (case hm_get ss k of Some s \<Rightarrow> Some s | None \<Rightarrow> Option.bind (hm_get es k) (decoded_session hx))"
proof (induction es arbitrary: ss)
  case (Cons e es)
  obtain p ser where e: "e = (p, ser)" by fastforce
  have p: "hm_get es p = None" using Cons.prems e by (simp add: map_of_eq_None_iff)
  have c: "p \<in> fst ` set ss \<longleftrightarrow> hm_get ss p \<noteq> None" by (simp add: map_of_eq_None_iff)
  have ih: "hm_get (merge_sessions hx es ss') k =
     (case hm_get ss' k of Some s \<Rightarrow> Some s | None \<Rightarrow> Option.bind (hm_get es k) (decoded_session hx))" for ss'
    using Cons.IH Cons.prems by simp
  show ?case
  proof (cases "hm_get ss p")
    case None
    then show ?thesis using c p unfolding e by (cases "into_session hx ser") (simp_all add: ih decoded_session_def [of hx ser] split: option.splits)
  next
    case (Some s)
    then show ?thesis using c p unfolding e by (simp add: ih split: option.splits)
  qed
qed (simp split: option.splits)

lemma hm_get_map_snd: "hm_get (map (\<lambda>(k, v). (k, f v)) m) k = map_option f (hm_get m k)"
  by (induction m) auto

lemma serialize_ok:
  assumes "sound_json js (snapshot hx m)"
  obtains j es where "serialize_sessions hx js m = Inr j" "utf8_valid (as_bytes j)" "js_from js j = Inr es" "hm_wf es"
    "\<And>k. hm_get es k = map_option (from_session hx) (get_session k m)"
proof -
  obtain j es where "js_to js (snapshot hx m) = Inr j" "utf8_valid (as_bytes j)" "js_from js j = Inr es" "hm_wf es"
    "hm_get es = hm_get (snapshot hx m)"
    using assms unfolding sound_json_def by blast
  then show thesis using that [of j es] by (simp add: serialize_sessions_def snapshot_def hm_get_map_snd get_session_def)
qed

lemma get_deserialize:
  "js_from js j = Inr es \<Longrightarrow> hm_wf es \<Longrightarrow> deserialize_sessions hx js j m = (r, m') \<Longrightarrow>
   r = Inr () \<and> sm_backend m' = sm_backend m \<and>
   get_session k m' = (case get_session k m of Some s \<Rightarrow> Some s | None \<Rightarrow> Option.bind (hm_get es k) (decoded_session hx))"
  by (auto simp: deserialize_sessions_def get_session_def get_merge_sessions)

lemma decoded_from_session:
  "sound_hex hx \<Longrightarrow> (\<And>s. x = Some s \<Longrightarrow> wf_session s) \<Longrightarrow>
   Option.bind (map_option (from_session hx) x) (decoded_session hx) = map_option without_skipped x"
  by (cases x) (simp_all add: decoded_session_def into_from_session)

context reliable_backend
begin

lemma save_load:
  assumes "sound st" and "sound_hex hx" and "sound_json js (snapshot hx m)"
    and "\<And>k s. get_session k m = Some s \<Longrightarrow> wf_session s" and "sm_backend m = Some B" and "sm_backend m2 = Some B"
  shows "\<exists>st' m3. sessions_save hx js m st = (Inr (), st') \<and> sessions_load hx js st' m2 = (Inr (), m3) \<and>
    (\<forall>k. get_session k m3 = (case get_session k m2 of Some s \<Rightarrow> Some s | None \<Rightarrow> map_option without_skipped (get_session k m)))"
proof -
  obtain j es where j: "serialize_sessions hx js m = Inr j" "utf8_valid (as_bytes j)" "js_from js j = Inr es" "hm_wf es"
    "\<And>k. hm_get es k = map_option (from_session hx) (get_session k m)"
    using serialize_ok [OF assms(3)] by metis
  obtain st' where st': "bk_put B SESSIONS_KEY (as_bytes j) st = (Inr (), st')" "sound st'" "entries st' SESSIONS_KEY = Some (as_bytes j)"
    using put_ok [OF assms(1), of SESSIONS_KEY "as_bytes j"] by auto
  obtain r m3 where m3: "deserialize_sessions hx js j m2 = (r, m3)" by fastforce
  note g = get_deserialize [OF j(3,4) m3]
  have "sessions_load hx js st' m2 = (Inr (), m3)"
    using g m3 assms(6) j(2) get_ok [OF st'(2)] st'(3) by (simp add: sessions_load_def from_utf8_def)
  moreover have "sessions_save hx js m st = (Inr (), st')"
    using assms(5) j(1) st'(1) by (simp add: sessions_save_def)
  moreover have "get_session k m3 = (case get_session k m2 of Some s \<Rightarrow> Some s | None \<Rightarrow> map_option without_skipped (get_session k m))" for k
    using g [of k] j(5) decoded_from_session [OF assms(2), of "get_session k m"] assms(4) by (simp split: option.split)
  ultimately show ?thesis by blast
qed

end

lemma fold_insert_get:
  "distinct (map fst ds) \<Longrightarrow> hm_get (fold (\<lambda>(k, v). hm_insert k v) ds ss) k = (case hm_get ds k of Some v \<Rightarrow> Some v | None \<Rightarrow> hm_get ss k)"
proof (induction ds arbitrary: ss)
  case (Cons d ds)
  obtain p v where d: "d = (p, v)" by fastforce
  then have "hm_get ds p = None" using Cons.prems by (simp add: map_of_eq_None_iff)
  then show ?case using Cons d by (auto split: option.splits)
qed simp

lemma decode_new_get:
  "hm_wf es \<Longrightarrow> decode_new hx es ss = Inr ds \<Longrightarrow>
   distinct (map fst ds) \<and> (\<forall>k. hm_get ds k = (if hm_get ss k = None then Option.bind (hm_get es k) (decoded_session hx) else None)) \<and>
   (\<forall>k ser. hm_get es k = Some ser \<longrightarrow> hm_get ss k = None \<longrightarrow> decoded_session hx ser \<noteq> None)"
proof (induction es arbitrary: ds)
  case (Cons e es)
  obtain p ser where e: "e = (p, ser)" by fastforce
  have p: "hm_get es p = None" "hm_wf es" using Cons.prems e by (simp_all add: map_of_eq_None_iff)
  show ?case
  proof (cases "hm_contains ss p")
    case True
    then show ?thesis using Cons.IH [of ds] Cons.prems e p by (auto simp: hm_contains_get simp del: set_map)
  next
    case False
    then obtain s ds' where d: "into_session hx ser = Inr s" "decode_new hx es ss = Inr ds'" "ds = (p, s) # ds'"
      using Cons.prems e by auto
    have "hm_get ss p = None" using False by (simp add: map_of_eq_None_iff)
    moreover have "p \<notin> fst ` set ds'" using Cons.IH [OF p(2) d(2)] p(1) by (metis bind.bind_lzero map_of_eq_None_iff)
    ultimately show ?thesis using Cons.IH [OF p(2) d(2)] d e by (auto simp: decoded_session_def)
  qed
qed simp

text \<open>The strict variant leaves the manager alone when it fails, and otherwise does what the lenient one does.\<close>

lemma strict_fails: "fst (deserialize_sessions_strict hx js json m) = Inl e \<Longrightarrow> snd (deserialize_sessions_strict hx js json m) = m"
  by (auto simp: deserialize_sessions_strict_def split: sum.splits)

lemma get_strict:
  assumes "js_from js j = Inr es" and "hm_wf es" and "deserialize_sessions_strict hx js j m = (Inr (), m')"
  shows "get_session k m' = (case get_session k m of Some s \<Rightarrow> Some s | None \<Rightarrow> Option.bind (hm_get es k) (decoded_session hx))"
proof -
  obtain ds where ds: "decode_new hx es (sm_sessions m) = Inr ds" "m' = m\<lparr>sm_sessions := fold (\<lambda>(k, v). hm_insert k v) ds (sm_sessions m)\<rparr>"
    using assms by (auto simp: deserialize_sessions_strict_def split: sum.splits)
  show ?thesis
    using decode_new_get [OF assms(2) ds(1)] fold_insert_get [of ds "sm_sessions m" k] ds(2)
    by (auto simp: get_session_def split: option.splits)
qed

lemma decode_new_ok:
  "(\<And>k ser. (k, ser) \<in> set es \<Longrightarrow> decoded_session hx ser \<noteq> None) \<Longrightarrow> \<exists>ds. decode_new hx es ss = Inr ds"
proof (induction es)
  case (Cons e es)
  obtain p ser where e: "e = (p, ser)" by fastforce
  obtain s where "into_session hx ser = Inr s" using Cons.prems [of p ser] e by (auto simp: decoded_session_def split: sum.splits)
  moreover obtain ds where "decode_new hx es ss = Inr ds" using Cons by auto
  ultimately show ?case using e by simp
qed simp

text \<open>
  C39. A restart keeps the sessions: when a manager is saved and another one of the same store loads, every peer has its session again,
  unless the second manager already had one, which is kept. Only the keys of skipped messages are lost, so
  messages that were overtaken before the restart cannot be read after it.
\<close>

theorem sessions_survive_restart:
  assumes "hm_wf st" and "sound_hex hx" and "sound_json js (snapshot hx m)"
    and "\<And>k s. get_session k m = Some s \<Longrightarrow> wf_session s" and "sm_backend m = Some memory_backend" and "sm_backend m2 = Some memory_backend"
  shows "\<exists>st' m3. sessions_save hx js m st = (Inr (), st') \<and> sessions_load hx js st' m2 = (Inr (), m3) \<and>
    (\<forall>k. get_session k m3 = (case get_session k m2 of Some s \<Rightarrow> Some s | None \<Rightarrow> map_option without_skipped (get_session k m)))"
  by (rule memory.save_load [OF assms])

definition sample_manager :: "memory_storage session_manager" where
  "sample_manager = \<lparr>sm_sessions = [(''bob'', sample_session\<lparr>rs_our_dh_secret := pad32 [1], rs_skipped_keys := [((pad32 [2], 0), pad32 [9])]\<rparr>)],
     sm_backend = Some memory_backend\<rparr>"

definition byte_hex :: hex_codec where
  "byte_hex = \<lparr>hx_encode = str_of, hx_decode = (\<lambda>s. Inr (as_bytes s)), hx_slice32 = as_bytes\<rparr>"

definition fixed_json :: json_codec where
  "fixed_json = \<lparr>js_to = (\<lambda>m. if m = snapshot byte_hex sample_manager then Inr ''{sample}'' else Inl ''unsupported''),
     js_from = (\<lambda>j. if j = ''{sample}'' then Inr (snapshot byte_hex sample_manager) else Inl ''expected value'')\<rparr>"

lemma byte_hex_sound: "sound_hex byte_hex"
proof -
  have "as_bytes (str_of b) = b" for b
  proof -
    have "(word_of_nat (of_char (char_of (unat x) :: char)) :: u8) = x" for x :: u8
      using unat_bound [of x] by (simp add: word_unat_eq_iff)
    then show ?thesis by (simp add: as_bytes_def str_of_def comp_def)
  qed
  then show ?thesis by (simp add: sound_hex_def byte_hex_def)
qed

lemma fixed_json_sound: "sound_json fixed_json (snapshot byte_hex sample_manager)"
proof -
  have "utf8_valid (as_bytes ''{sample}'')" by code_simp
  moreover have "hm_wf (snapshot byte_hex sample_manager)" by (simp add: snapshot_def sample_manager_def)
  ultimately show ?thesis by (simp add: sound_json_def fixed_json_def)
qed

theorem sessions_survive_restart_witness:
  "\<exists>st' m3. sessions_save byte_hex fixed_json sample_manager [] = (Inr (), st') \<and>
     sessions_load byte_hex fixed_json st' (session_manager_with_backend memory_backend) = (Inr (), m3) \<and>
     get_session ''bob'' m3 = Some (sample_session\<lparr>rs_our_dh_secret := pad32 [1]\<rparr>)"
proof -
  have "wf_session s" if "get_session k sample_manager = Some s" for k s
    using that by (auto simp: get_session_def sample_manager_def wf_session_def sample_session_def pad32_def chain_at_def chain_keys_def
        derive_key_with_info_def plain_crypto_def split: if_splits)
  moreover have "sm_backend sample_manager = Some memory_backend" by (simp add: sample_manager_def)
  ultimately obtain st' m3 where r: "sessions_save byte_hex fixed_json sample_manager [] = (Inr (), st')"
    "sessions_load byte_hex fixed_json st' (session_manager_with_backend memory_backend) = (Inr (), m3)"
    "\<forall>k. get_session k m3 = (case get_session k (session_manager_with_backend memory_backend) of
        Some s \<Rightarrow> Some s | None \<Rightarrow> map_option without_skipped (get_session k sample_manager))"
    using sessions_survive_restart [OF _ byte_hex_sound fixed_json_sound, of "[]" "session_manager_with_backend memory_backend"]
    by (auto simp: session_manager_with_backend_def)
  have "get_session ''bob'' m3 = Some (sample_session\<lparr>rs_our_dh_secret := pad32 [1]\<rparr>)"
    using r(3) by (simp add: get_session_def session_manager_with_backend_def sample_manager_def without_skipped_def sample_session_def)
  then show ?thesis using r by blast
qed

end
