(* ===== verification/Crypto_Encrypt.thy ===== *)
theory Crypto_Encrypt
  imports Crypto_Sessions Drift_Envelope
begin

text \<open>
  \<open>src/core/src/crypto/encrypt.rs\<close>: encryption of one message under an ephemeral key, encryption through a ratchet session,
  the choice between the two, and signed envelopes. Ed25519, the map to X25519 and bincode are parameters. The lemmas
  show that a message reaches its recipient on either path, and that two parties who choose between the paths
  as the code does understand each other throughout a conversation.
\<close>

section \<open>Definitions\<close>

record identity_crypto =
  ic_verifying_key :: "bytes \<Rightarrow> bytes"
  ic_montgomery :: "bytes \<Rightarrow> bytes option" \<comment> \<open>\<open>None\<close> for bytes that are not a point\<close>
  ic_valid_key :: "bytes \<Rightarrow> string + unit"
  ic_sign :: "bytes \<Rightarrow> bytes \<Rightarrow> bytes"
  ic_verify :: "bytes \<Rightarrow> bytes \<Rightarrow> bytes \<Rightarrow> string + unit"
  ic_bincode :: "envelope \<Rightarrow> string + bytes"

definition KDF_CONTEXT :: string where
  "KDF_CONTEXT = ''iron-core v2 message encryption 2026-02-05''"

definition validate_ed25519_public_key :: "identity_crypto \<Rightarrow> hex_codec \<Rightarrow> string \<Rightarrow> string + unit" where
  "validate_ed25519_public_key ic hx public_key_hex =
     (case hx_decode hx public_key_hex of
        Inl _ \<Rightarrow> Inl ''Invalid hex encoding in public key''
      | Inr bs \<Rightarrow>
          if length bs \<noteq> 32
          then Inl (''Public key must be exactly 32 bytes (64 hex characters), got '' @ decimal (length bs) @ '' bytes ('' @
                    decimal (length public_key_hex) @ '' hex characters)'')
          else if ic_montgomery ic bs = None then Inl ''Public key is not a valid Ed25519 point (decompression failed)''
          else Inr ())"

definition ed25519_public_to_x25519 :: "identity_crypto \<Rightarrow> bytes \<Rightarrow> string + bytes" where
  "ed25519_public_to_x25519 ic public_key_bytes =
     (case ic_montgomery ic public_key_bytes of
        None \<Rightarrow> Inl ''Failed to decompress Ed25519 public key''
      | Some u \<Rightarrow> Inr u)"

definition derive_key :: "ratchet_crypto \<Rightarrow> bytes \<Rightarrow> bytes" where
  "derive_key cr shared_secret = cr_derive_key cr KDF_CONTEXT shared_secret"

definition encrypt_message ::
  "ratchet_crypto \<Rightarrow> identity_crypto \<Rightarrow> bytes \<Rightarrow> bytes \<Rightarrow> bytes \<Rightarrow> bytes \<Rightarrow> bytes \<Rightarrow> string + envelope" where
  "encrypt_message cr ic ephemeral_secret nonce sender_signing_key recipient_public_key plaintext =
     try_res (ed25519_public_to_x25519 ic recipient_public_key) (\<lambda>recipient_x25519.
       let symmetric_key = derive_key cr (cr_dh cr ephemeral_secret recipient_x25519);
           sender_public_bytes = ic_verifying_key ic sender_signing_key
       in (case cr_seal cr symmetric_key nonce plaintext sender_public_bytes of
             Inl e \<Rightarrow> Inl (''Encryption failed: '' @ e)
           | Inr ciphertext \<Rightarrow>
               Inr \<lparr>le_sender_public_key = sender_public_bytes, le_ephemeral_public_key = cr_public cr ephemeral_secret,
                    le_nonce = nonce, le_ciphertext = ciphertext, le_ratchet_dh_public = None, le_ratchet_message_number = None\<rparr>))"

definition decrypt_message :: "ratchet_crypto \<Rightarrow> bytes \<Rightarrow> envelope \<Rightarrow> string + bytes" where
  "decrypt_message cr recipient_signing_key env =
     (if length (le_ephemeral_public_key env) \<noteq> 32 then Inl ''Invalid ephemeral public key length''
      else if length (le_nonce env) \<noteq> 24 then Inl ''Invalid nonce length''
      else if length (le_sender_public_key env) \<noteq> 32 then Inl ''Invalid sender public key length''
      else
        let shared_secret = cr_dh cr (ed25519_to_x25519_secret cr recipient_signing_key) (le_ephemeral_public_key env)
        in (case cr_open cr (derive_key cr shared_secret) (le_nonce env) (le_ciphertext env) (le_sender_public_key env) of
              Inl _ \<Rightarrow> Inl ''Decryption failed: invalid ciphertext, wrong key, or tampered sender public key''
            | Inr plaintext \<Rightarrow> Inr plaintext))"

definition decrypt_message_ratcheted ::
  "ratchet_crypto \<Rightarrow> bytes \<Rightarrow> envelope \<Rightarrow> ratchet_session \<Rightarrow> (string + bytes) option \<times> ratchet_session" where
  "decrypt_message_ratcheted cr fresh env session =
     (case le_ratchet_dh_public env of
        None \<Rightarrow> (Some (Inl ''Ratcheted envelope missing ratchet_dh_public field''), session)
      | Some dh_public \<Rightarrow>
          (case le_ratchet_message_number env of
             None \<Rightarrow> (Some (Inl ''Ratcheted envelope missing ratchet_message_number field''), session)
           | Some message_number \<Rightarrow>
               if length (le_nonce env) \<noteq> 24 then (Some (Inl ''Invalid nonce length in ratcheted envelope''), session)
               else ratchet_decrypt cr fresh dh_public message_number (le_nonce env) (le_ciphertext env) (le_sender_public_key env) session))"

definition encrypt_message_ratcheted ::
  "ratchet_crypto \<Rightarrow> identity_crypto \<Rightarrow> bytes \<Rightarrow> bytes \<Rightarrow> bytes \<Rightarrow> ratchet_session \<Rightarrow> (string + envelope) \<times> ratchet_session" where
  "encrypt_message_ratcheted cr ic nonce sender_signing_key plaintext session =
     (let sender_public_bytes = ic_verifying_key ic sender_signing_key
      in (case ratchet_encrypt cr nonce plaintext sender_public_bytes session of
            (Inl e, session') \<Rightarrow> (Inl e, session')
          | (Inr r, session') \<Rightarrow>
              (Inr \<lparr>le_sender_public_key = sender_public_bytes, le_ephemeral_public_key = rm_our_dh_public r,
                    le_nonce = rm_nonce r, le_ciphertext = rm_ciphertext r, le_ratchet_dh_public = Some (rm_our_dh_public r),
                    le_ratchet_message_number = Some (rm_message_number r)\<rparr>, session')))"

definition encrypt_with_ratchet_fallback ::
  "ratchet_crypto \<Rightarrow> identity_crypto \<Rightarrow> bytes \<Rightarrow> bytes \<Rightarrow> bytes \<Rightarrow> bytes \<Rightarrow> bytes \<Rightarrow> string \<Rightarrow> 's session_manager option \<Rightarrow>
   (string + envelope) \<times> 's session_manager option" where
  "encrypt_with_ratchet_fallback cr ic ephemeral_secret nonce sender_signing_key recipient_public_key plaintext peer_id mgr =
     (let fallback = (encrypt_message cr ic ephemeral_secret nonce sender_signing_key recipient_public_key plaintext, mgr)
      in (case mgr of
            None \<Rightarrow> fallback
          | Some m \<Rightarrow>
              (case get_session peer_id m of
                 None \<Rightarrow> fallback
               | Some session \<Rightarrow>
                   if rs_initialized session
                   then (case encrypt_message_ratcheted cr ic nonce sender_signing_key plaintext session of
                           (r, session') \<Rightarrow> (r, Some (set_session peer_id session' m)))
                   else fallback)))"

definition is_ratcheted_envelope :: "envelope \<Rightarrow> bool" where
  "is_ratcheted_envelope env \<longleftrightarrow> le_ratchet_dh_public env \<noteq> None \<and> le_ratchet_message_number env \<noteq> None"

definition decrypt_with_ratchet_fallback ::
  "ratchet_crypto \<Rightarrow> hex_codec \<Rightarrow> bytes \<Rightarrow> bytes \<Rightarrow> envelope \<Rightarrow> 's session_manager option \<Rightarrow>
   (string + bytes) option \<times> 's session_manager option" where
  "decrypt_with_ratchet_fallback cr hx fresh recipient_signing_key env mgr =
     (if is_ratcheted_envelope env then
        let no_session = (Some (Inl ''Ratcheted envelope received but no active ratchet session for sender''), mgr)
        in (case mgr of
              None \<Rightarrow> no_session
            | Some m \<Rightarrow>
                let peer_id = hx_encode hx (le_sender_public_key env)
                in (case get_session peer_id m of
                      None \<Rightarrow> no_session
                    | Some session \<Rightarrow>
                        (case decrypt_message_ratcheted cr fresh env session of
                           (r, session') \<Rightarrow> (r, Some (set_session peer_id session' m)))))
      else (Some (decrypt_message cr recipient_signing_key env), mgr))"

record signed_envelope =
  se_envelope :: envelope
  se_signature :: bytes

definition sign_envelope :: "identity_crypto \<Rightarrow> envelope \<Rightarrow> bytes \<Rightarrow> string + signed_envelope" where
  "sign_envelope ic env sender_signing_key =
     (case ic_bincode ic env of
        Inl e \<Rightarrow> Inl (''Failed to serialize envelope: '' @ e)
      | Inr bs \<Rightarrow> Inr \<lparr>se_envelope = env, se_signature = ic_sign ic sender_signing_key bs\<rparr>)"

definition verify_envelope :: "identity_crypto \<Rightarrow> signed_envelope \<Rightarrow> string + unit" where
  "verify_envelope ic se =
     (let pk = le_sender_public_key (se_envelope se)
      in if length pk \<noteq> 32 then Inl ''Invalid sender public key length''
         else (case ic_valid_key ic pk of
                 Inl e \<Rightarrow> Inl (''Invalid sender public key: '' @ e)
               | Inr _ \<Rightarrow>
                   if length (se_signature se) \<noteq> 64 then Inl ''Invalid signature length''
                   else (case ic_bincode ic (se_envelope se) of
                           Inl e \<Rightarrow> Inl (''Failed to serialize envelope: '' @ e)
                         | Inr bs \<Rightarrow>
                             (case ic_verify ic pk bs (se_signature se) of
                                Inl e \<Rightarrow> Inl (''Signature verification failed: '' @ e)
                              | Inr _ \<Rightarrow> Inr ()))))"

section \<open>Conversations over both paths\<close>

definition sound_identities :: "ratchet_crypto \<Rightarrow> identity_crypto \<Rightarrow> bool" where
  "sound_identities cr ic \<longleftrightarrow>
     (\<forall>sk. length (ic_verifying_key ic sk) = 32 \<and> ic_montgomery ic (ic_verifying_key ic sk) = Some (identity_public cr sk))"

lemma message_roundtrip:
  assumes "sound_crypto cr" and "sound_identities cr ic" and "length nonce = 24"
  shows "\<exists>env. encrypt_message cr ic eph nonce sender (ic_verifying_key ic recipient) m = Inr env \<and> \<not> is_ratcheted_envelope env \<and>
    le_sender_public_key env = ic_verifying_key ic sender \<and> decrypt_message cr recipient env = Inr m"
proof -
  let ?x = "ed25519_to_x25519_secret cr recipient"
  have comm: "cr_dh cr eph (cr_public cr ?x) = cr_dh cr ?x (cr_public cr eph)" and len: "length (cr_public cr eph) = 32"
    using assms(1) unfolding sound_crypto_def by blast+
  obtain c where "cr_seal cr (derive_key cr (cr_dh cr ?x (cr_public cr eph))) nonce m (ic_verifying_key ic sender) = Inr c"
    "cr_open cr (derive_key cr (cr_dh cr ?x (cr_public cr eph))) nonce c (ic_verifying_key ic sender) = Inr m"
    using assms(1) unfolding sound_crypto_def by blast
  then show ?thesis
    using assms(2,3) len comm
    by (simp add: encrypt_message_def ed25519_public_to_x25519_def sound_identities_def decrypt_message_def is_ratcheted_envelope_def Let_def)
qed

text \<open>One message from the party with signing key \<open>sx\<close> to the one with \<open>sy\<close>; sessions are kept under the peer's public key.\<close>

record letter =
  lt_from_a :: bool
  lt_ephemeral :: bytes
  lt_nonce :: bytes
  lt_text :: bytes
  lt_fresh :: bytes

definition transfer ::
  "ratchet_crypto \<Rightarrow> identity_crypto \<Rightarrow> hex_codec \<Rightarrow> letter \<Rightarrow> bytes \<Rightarrow> bytes \<Rightarrow> 's session_manager option \<Rightarrow> 's session_manager option \<Rightarrow>
   (string + bytes) option \<times> 's session_manager option \<times> 's session_manager option" where
  "transfer cr ic hx e sx sy mx my =
     (case encrypt_with_ratchet_fallback cr ic (lt_ephemeral e) (lt_nonce e) sx (ic_verifying_key ic sy) (lt_text e)
             (hx_encode hx (ic_verifying_key ic sy)) mx of
        (Inl err, mx') \<Rightarrow> (Some (Inl err), mx', my)
      | (Inr env, mx') \<Rightarrow> (case decrypt_with_ratchet_fallback cr hx (lt_fresh e) sy env my of (r, my') \<Rightarrow> (r, mx', my')))"

fun correspond ::
  "ratchet_crypto \<Rightarrow> identity_crypto \<Rightarrow> hex_codec \<Rightarrow> letter list \<Rightarrow> bytes \<Rightarrow> bytes \<Rightarrow> 's session_manager option \<Rightarrow> 's session_manager option \<Rightarrow>
   (string + bytes) option list" where
  "correspond cr ic hx [] sa sb ma mb = []"
| "correspond cr ic hx (e # es) sa sb ma mb =
     (if lt_from_a e then (case transfer cr ic hx e sa sb ma mb of (r, ma', mb') \<Rightarrow> r # correspond cr ic hx es sa sb ma' mb')
      else (case transfer cr ic hx e sb sa mb ma of (r, mb', ma') \<Rightarrow> r # correspond cr ic hx es sa sb ma' mb'))"

lemma get_set_session [simp]: "get_session k (set_session k s m) = Some s"
  by (simp add: get_session_def set_session_def)

lemma transfer_fallback:
  assumes "sound_crypto cr" and "sound_identities cr ic" and "length (lt_nonce e) = 24"
    and "get_session (hx_encode hx (ic_verifying_key ic sy)) mx = Some X" and "\<not> rs_initialized X"
  shows "transfer cr ic hx e sx sy (Some mx) my = (Some (Inr (lt_text e)), Some mx, my)"
  using message_roundtrip [OF assms(1-3), of "lt_ephemeral e" sx sy "lt_text e"] assms(4,5)
  by (auto simp: transfer_def encrypt_with_ratchet_fallback_def decrypt_with_ratchet_fallback_def)

lemma exchange_Inr:
  assumes "exchange cr aad nonce m fresh X Y = (Some (Inr t), X', Y')"
  obtains msg where "ratchet_encrypt cr nonce m aad X = (Inr msg, X')" "rm_nonce msg = nonce"
    "ratchet_decrypt cr fresh (rm_our_dh_public msg) (rm_message_number msg) (rm_nonce msg) (rm_ciphertext msg) aad Y = (Some (Inr t), Y')"
    "rs_initialized X' = rs_initialized X"
proof -
  obtain r X1 where r: "ratchet_encrypt cr nonce m aad X = (r, X1)" by fastforce
  then obtain msg where msg: "r = Inr msg" using assms by (cases r) (auto simp: exchange_def)
  then have "rm_nonce msg = nonce \<and> rs_initialized X1 = rs_initialized X"
    using r by (auto simp: ratchet_encrypt_def Let_def case_prod_unfold split: option.splits if_splits sum.splits)
  then show thesis using that [of msg] assms r msg by (auto simp: exchange_def split: prod.splits)
qed

lemma transfer_exchange:
  assumes "get_session (hx_encode hx (ic_verifying_key ic sy)) mx = Some X" and "rs_initialized X"
    and "get_session (hx_encode hx (ic_verifying_key ic sx)) my = Some Y" and "length (lt_nonce e) = 24"
    and "exchange cr (ic_verifying_key ic sx) (lt_nonce e) (lt_text e) (lt_fresh e) X Y = (Some (Inr t), X', Y')"
  shows "transfer cr ic hx e sx sy (Some mx) (Some my) =
      (Some (Inr t), Some (set_session (hx_encode hx (ic_verifying_key ic sy)) X' mx), Some (set_session (hx_encode hx (ic_verifying_key ic sx)) Y' my))
    \<and> rs_initialized X'"
proof -
  obtain msg where "ratchet_encrypt cr (lt_nonce e) (lt_text e) (ic_verifying_key ic sx) X = (Inr msg, X')" "rm_nonce msg = lt_nonce e"
    "ratchet_decrypt cr (lt_fresh e) (rm_our_dh_public msg) (rm_message_number msg) (rm_nonce msg) (rm_ciphertext msg) (ic_verifying_key ic sx) Y
      = (Some (Inr t), Y')" "rs_initialized X' = rs_initialized X"
    using exchange_Inr [OF assms(5)] by metis
  then show ?thesis
    using assms(1-4) by (simp add: transfer_def encrypt_with_ratchet_fallback_def encrypt_message_ratcheted_def
        decrypt_with_ratchet_fallback_def decrypt_message_ratcheted_def is_ratcheted_envelope_def)
qed

lemma decrypt_initialized:
  assumes "ratchet_decrypt cr fresh dh n nonce c aad Y = (Some (Inr t), Y')" and "rs_initialized Y \<or> rs_their_dh_public Y \<noteq> Some dh"
  shows "rs_initialized Y'"
proof -
  have k: "rs_initialized (snd (get_message_key cr d i rs)) = rs_initialized rs" for d i rs
    by (simp add: get_message_key_def Let_def case_prod_unfold split: option.splits)
  let ?Y = "if rs_their_dh_public Y \<noteq> Some dh then handle_dh_ratchet cr fresh dh Y else Y"
  have "rs_initialized ?Y" using assms(2) by (auto simp: handle_dh_ratchet_def Let_def case_prod_unfold)
  moreover have "Y' = snd (get_message_key cr dh n ?Y)"
    using assms(1) by (auto simp: ratchet_decrypt_def Let_def split: prod.splits sum.splits if_splits)
  ultimately show ?thesis using k by simp
qed

lemma exchange_initialized:
  "exchange cr aad nonce m fresh X Y = (Some (Inr t), X', Y') \<Longrightarrow> rs_initialized Y \<or> rs_their_dh_public Y = None \<Longrightarrow> rs_initialized Y'"
  by (erule exchange_Inr) (use decrypt_initialized in auto)

definition in_step :: "ratchet_crypto \<Rightarrow> bytes set \<Rightarrow> nat \<Rightarrow> ratchet_session \<Rightarrow> ratchet_session \<Rightarrow> bool" where
  "in_step cr U k X Y \<longleftrightarrow> rs_initialized X \<and> rs_initialized Y \<and>
     (leads cr U k X Y \<and> rs_sending_chain Y \<noteq> None \<or> leads cr U k Y X \<and> rs_sending_chain X \<noteq> None)"

lemma in_step_sym: "in_step cr U k X Y \<Longrightarrow> in_step cr U k Y X"
  by (auto simp: in_step_def)

lemma in_step_sends:
  assumes "sound_crypto cr" and "in_step cr U k X Y" and "k < 9998" and "length nonce = 24" and "cr_public cr fresh \<notin> U"
  shows "\<exists>X' Y'. exchange cr aad nonce m fresh X Y = (Some (Inr m), X', Y') \<and> in_step cr (insert (cr_public cr fresh) U) (Suc k) X' Y'"
proof -
  obtain X' Y' where e: "exchange cr aad nonce m fresh X Y = (Some (Inr m), X', Y')"
    and l: "leads cr (insert (cr_public cr fresh) U) (Suc k) Y' X' \<and> rs_sending_chain X' \<noteq> None"
    using leader_sends [OF assms(1) _ assms(3-5), of X Y aad m] follower_sends [OF assms(1) _ _ assms(3,4), of U Y X aad m fresh] assms(2)
    unfolding in_step_def by metis
  have "rs_initialized X'" using assms(2) by (rule_tac exchange_Inr [OF e]) (simp add: in_step_def)
  moreover have "rs_initialized Y'" using exchange_initialized [OF e] assms(2) by (simp add: in_step_def)
  ultimately show ?thesis using e l by (auto simp: in_step_def)
qed

lemma correspond_in_step:
  assumes sound: "sound_crypto cr"
  shows "in_step cr U k A B \<Longrightarrow> get_session (hx_encode hx (ic_verifying_key ic sb)) ma = Some A \<Longrightarrow>
    get_session (hx_encode hx (ic_verifying_key ic sa)) mb = Some B \<Longrightarrow> k + length es < 9999 \<Longrightarrow>
    \<forall>e \<in> set es. length (lt_nonce e) = 24 \<Longrightarrow> distinct (map (\<lambda>e. cr_public cr (lt_fresh e)) es) \<Longrightarrow>
    \<forall>e \<in> set es. cr_public cr (lt_fresh e) \<notin> U \<Longrightarrow>
    correspond cr ic hx es sa sb (Some ma) (Some mb) = map (\<lambda>e. Some (Inr (lt_text e))) es"
proof (induction es arbitrary: U k A B ma mb)
  case (Cons e es)
  let ?U = "insert (cr_public cr (lt_fresh e)) U"
  have k: "k < 9998" "length (lt_nonce e) = 24" "cr_public cr (lt_fresh e) \<notin> U" using Cons.prems(4,5,7) by auto
  have rest: "Suc k + length es < 9999" "\<forall>e \<in> set es. length (lt_nonce e) = 24"
    "distinct (map (\<lambda>e. cr_public cr (lt_fresh e)) es)" "\<forall>e \<in> set es. cr_public cr (lt_fresh e) \<notin> ?U"
    using Cons.prems(4-7) by (auto simp: image_iff)
  have i: "rs_initialized A" "rs_initialized B" using Cons.prems(1) by (simp_all add: in_step_def)
  show ?case
  proof (cases "lt_from_a e")
    case True
    obtain A' B' where x: "exchange cr (ic_verifying_key ic sa) (lt_nonce e) (lt_text e) (lt_fresh e) A B = (Some (Inr (lt_text e)), A', B')"
      "in_step cr ?U (Suc k) A' B'" using in_step_sends [OF sound Cons.prems(1) k] by blast
    from transfer_exchange [OF Cons.prems(2) i(1) Cons.prems(3) k(2) x(1)] Cons.IH [OF x(2) _ _ rest] True show ?thesis by simp
  next
    case False
    obtain B' A' where x: "exchange cr (ic_verifying_key ic sb) (lt_nonce e) (lt_text e) (lt_fresh e) B A = (Some (Inr (lt_text e)), B', A')"
      "in_step cr ?U (Suc k) B' A'" using in_step_sends [OF sound in_step_sym [OF Cons.prems(1)] k] by blast
    from transfer_exchange [OF Cons.prems(3) i(2) Cons.prems(2) k(2) x(1)] Cons.IH [OF in_step_sym [OF x(2)] _ _ rest] False
    show ?thesis by simp
  qed
qed simp

lemma correspond_initial:
  assumes sound: "sound_crypto cr" and ids: "sound_identities cr ic"
    and A: "A = init_as_sender cr a alice (identity_public cr bob)" and B: "B = init_as_receiver cr b bob (identity_public cr alice)"
    and ga: "get_session (hx_encode hx (ic_verifying_key ic bob)) ma = Some A" and gb: "get_session (hx_encode hx (ic_verifying_key ic alice)) mb = Some B"
  shows "length es \<le> 9998 \<Longrightarrow> \<forall>e \<in> set es. length (lt_nonce e) = 24 \<Longrightarrow> distinct (map (\<lambda>e. cr_public cr (lt_fresh e)) es) \<Longrightarrow>
    \<forall>e \<in> set es. cr_public cr (lt_fresh e) \<notin> {cr_public cr a, cr_public cr b, identity_public cr bob} \<Longrightarrow>
    correspond cr ic hx es alice bob (Some ma) (Some mb) = map (\<lambda>e. Some (Inr (lt_text e))) es"
proof (induction es)
  case (Cons e es)
  let ?U = "{cr_public cr a, cr_public cr b, identity_public cr bob}"
  have e: "length (lt_nonce e) = 24" "cr_public cr (lt_fresh e) \<notin> ?U" using Cons.prems by auto
  show ?case
  proof (cases "lt_from_a e")
    case True
    have z: "(0::nat) < 9998" by simp
    obtain A' B' where x: "exchange cr (ic_verifying_key ic alice) (lt_nonce e) (lt_text e) (lt_fresh e) A B = (Some (Inr (lt_text e)), A', B')"
      "leads cr (insert (cr_public cr (lt_fresh e)) ?U) (Suc 0) B' A'" "rs_sending_chain A' \<noteq> None"
      using leader_sends [OF sound initial_leads [OF sound, of a b bob alice] z e] unfolding A B by blast
    have i: "rs_initialized A" "rs_their_dh_public B = None"
      unfolding A B by (simp_all add: init_as_sender_def init_as_receiver_def Let_def case_prod_unfold)
    note t = transfer_exchange [OF ga i(1) gb e(1) x(1)]
    have l: "in_step cr (insert (cr_public cr (lt_fresh e)) ?U) (Suc 0) A' B'"
      using x(2,3) t exchange_initialized [OF x(1)] i(2) by (simp add: in_step_def)
    have "Suc 0 + length es < 9999" "\<forall>e \<in> set es. length (lt_nonce e) = 24" "distinct (map (\<lambda>e. cr_public cr (lt_fresh e)) es)"
      "\<forall>f \<in> set es. cr_public cr (lt_fresh f) \<notin> insert (cr_public cr (lt_fresh e)) ?U"
      using Cons.prems by (auto simp: image_iff)
    from correspond_in_step [OF sound l get_set_session get_set_session this] t True show ?thesis by simp
  next
    case False
    have "\<not> rs_initialized B" unfolding B by (simp add: init_as_receiver_def Let_def)
    from transfer_fallback [OF sound ids e(1) gb this, of bob "Some ma"] Cons False show ?thesis by simp
  qed
qed simp

text \<open>
  C7. Two parties understand each other: Alice opens a session for Bob and Bob creates the receiving session for Alice, each under
  the other's public key. Whoever writes, in whatever order of turns, up to 9998 messages are all read as
  written, when each is delivered before the next is written. Messages that Bob writes before he has heard from Alice go under ephemeral keys, everything else through the ratchet.
\<close>

theorem correspondence_delivered:
  assumes "sound_crypto cr" and "sound_identities cr ic" and "\<not> has_session (hx_encode hx (ic_verifying_key ic bob)) ma"
    and "length es \<le> 9998" and "\<forall>e \<in> set es. length (lt_nonce e) = 24" and "distinct (map (\<lambda>e. cr_public cr (lt_fresh e)) es)"
    and "\<forall>e \<in> set es. cr_public cr (lt_fresh e) \<notin> {cr_public cr a, cr_public cr b, identity_public cr bob}"
  shows "correspond cr ic hx es alice bob
      (Some (get_or_create_session cr a (hx_encode hx (ic_verifying_key ic bob)) alice (identity_public cr bob) ma))
      (Some (create_receiver_session cr b (hx_encode hx (ic_verifying_key ic alice)) bob (identity_public cr alice) mb))
    = map (\<lambda>e. Some (Inr (lt_text e))) es"
  by (rule correspond_initial [OF assms(1,2) refl refl _ _ assms(4-7)])
    (use assms(3) in \<open>simp_all add: get_or_create_session_def create_receiver_session_def has_session_def get_session_def\<close>)

definition plain_identities :: identity_crypto where
  "plain_identities =
     \<lparr>ic_verifying_key = (\<lambda>sk. pad32 (ed25519_to_x25519_secret plain_crypto sk)), ic_montgomery = Some, ic_valid_key = (\<lambda>k. Inr ()),
      ic_sign = (\<lambda>sk m. take 64 (sk @ m @ replicate 64 0)), ic_verify = (\<lambda>pk m s. Inr ()), ic_bincode = (\<lambda>e. Inr (le_ciphertext e))\<rparr>"

lemma plain_identities_sound: "sound_identities plain_crypto plain_identities"
proof -
  have "cr_public plain_crypto = pad32" by (simp add: plain_crypto_def)
  moreover have "length (pad32 x) = 32" for x by (simp add: pad32_def min_def)
  ultimately show ?thesis by (simp add: sound_identities_def plain_identities_def)
qed

theorem correspondence_delivered_witness:
  "correspond plain_crypto plain_identities byte_hex
     [\<lparr>lt_from_a = False, lt_ephemeral = [31], lt_nonce = replicate 24 1, lt_text = [1], lt_fresh = [11]\<rparr>,
      \<lparr>lt_from_a = True, lt_ephemeral = [32], lt_nonce = replicate 24 2, lt_text = [2], lt_fresh = [12]\<rparr>,
      \<lparr>lt_from_a = False, lt_ephemeral = [33], lt_nonce = replicate 24 3, lt_text = [3], lt_fresh = [13]\<rparr>] [21] [22]
      (Some (get_or_create_session plain_crypto [5] (hx_encode byte_hex (ic_verifying_key plain_identities [22])) [21]
         (identity_public plain_crypto [22]) (session_manager_new :: memory_storage session_manager)))
      (Some (create_receiver_session plain_crypto [6] (hx_encode byte_hex (ic_verifying_key plain_identities [21])) [22]
         (identity_public plain_crypto [21]) session_manager_new))
   = [Some (Inr [1]), Some (Inr [2]), Some (Inr [3])]"
  (is "correspond _ _ _ ?es _ _ _ _ = _")
proof -
  have d: "distinct (map (\<lambda>e. cr_public plain_crypto (lt_fresh e)) ?es)" by code_simp
  have u: "\<forall>e \<in> set ?es. cr_public plain_crypto (lt_fresh e) \<notin>
       {cr_public plain_crypto [5], cr_public plain_crypto [6], identity_public plain_crypto [22]}"
    by code_simp
  have h: "\<not> has_session k (session_manager_new :: memory_storage session_manager)" for k by (simp add: has_session_def session_manager_new_def)
  show ?thesis
    using correspondence_delivered [OF plain_crypto_sound plain_identities_sound h _ _ d u] by (simp del: correspond.simps)
qed

end
