(* ===== verification/Custody_Registry.thy ===== *)
theory Custody_Registry
  imports Store_Contacts "HOL-Library.Product_Lexorder"
begin

text \<open>
  \<open>RelayRegistry\<close> of \<open>src/core/src/store/relay_custody.rs\<close>: which device of an identity a relay serves. An identity is active on
  one device, in handover between two, or abandoned. bincode, UUIDs, hexadecimal and BLAKE3 are parameters. The world of
  an operation is the storage, the global sequence counter, the two request counters of the custody store and the clock,
  which gives a new value each time it is read. What registering and deregistering does to the stored states is proved in
  \<open>Custody_Effects\<close> and \<open>Custody_Duty\<close>.
\<close>

section \<open>The world of an operation\<close>

record 's world =
  w_store :: 's
  w_sequence :: u64
  w_ws13_requests :: u64
  w_legacy_requests :: u64
  w_clock :: "nat \<Rightarrow> u64"
  w_reads :: nat

definition now_ms :: "'s world \<Rightarrow> u64 \<times> 's world" where
  "now_ms w = (w_clock w (w_reads w), w\<lparr>w_reads := Suc (w_reads w)\<rparr>)"

definition next_sequence :: "'s world \<Rightarrow> u64 \<times> 's world" where
  "next_sequence w = (w_sequence w, w\<lparr>w_sequence := w_sequence w + 1\<rparr>)"

definition w_get :: "'s storage_backend \<Rightarrow> string \<Rightarrow> 's world \<Rightarrow> string + bytes option" where
  "w_get B key w = bk_get B (as_bytes key) (w_store w)"

definition w_put :: "'s storage_backend \<Rightarrow> string \<Rightarrow> bytes \<Rightarrow> 's world \<Rightarrow> (string + unit) \<times> 's world" where
  "w_put B key v w = (case bk_put B (as_bytes key) v (w_store w) of (r, s) \<Rightarrow> (r, w\<lparr>w_store := s\<rparr>))"

definition w_remove :: "'s storage_backend \<Rightarrow> string \<Rightarrow> 's world \<Rightarrow> (string + unit) \<times> 's world" where
  "w_remove B key w = (case bk_remove B (as_bytes key) (w_store w) of (r, s) \<Rightarrow> (r, w\<lparr>w_store := s\<rparr>))"

definition w_flush :: "'s storage_backend \<Rightarrow> 's world \<Rightarrow> (string + unit) \<times> 's world" where
  "w_flush B w = (case bk_flush B (w_store w) of (r, s) \<Rightarrow> (r, w\<lparr>w_store := s\<rparr>))"

text \<open>\<open>{:0n}\<close> of a number.\<close>

definition padded :: "nat \<Rightarrow> u64 \<Rightarrow> string" where
  "padded n x = (let d = decimal (unat x) in replicate (n - length d) (CHR ''0'') @ d)"

section \<open>Identities and devices\<close>

datatype registration_state =
    Active (active_device: string) (seniority_timestamp: u64)
  | Handover (from_device: string) (to_device: string) (initiated_at: u64)
  | Abandoned (abandoned_device: string) (abandoned_at: u64)

record registration_record =
  rr_identity_id :: string
  rr_state :: registration_state
  rr_updated_at_ms :: u64

record registration_transition =
  rt_identity_id :: string
  rt_from_state :: "registration_state option"
  rt_to_state :: registration_state
  rt_reason :: string
  rt_at_ms :: u64
  rt_sequence :: u64

record registration_state_info =
  ri_state :: string
  ri_device_id :: "string option"
  ri_seniority_timestamp :: "u64 option"

datatype custody_error = DeviceMismatch | AbandonedIdentity | NoRegistration

fun as_code :: "custody_error \<Rightarrow> string" where
  "as_code DeviceMismatch = ''identity_device_mismatch''"
| "as_code AbandonedIdentity = ''identity_abandoned''"
| "as_code NoRegistration = ''identity_registration_missing''"

datatype custody_enforcement = Enforced_Active string string | Redirected string string string

datatype registry_side_effect = No_Effect | Migrate string string string | Purge string "string option"

record registration_update_outcome =
  uo_state :: registration_state
  uo_side_effect :: registry_side_effect

definition REGISTRATION_STATE_PREFIX :: string where
  "REGISTRATION_STATE_PREFIX = ''relay_registration_state_''"

definition REGISTRATION_AUDIT_PREFIX :: string where
  "REGISTRATION_AUDIT_PREFIX = ''relay_registration_audit_''"

definition REGISTRATION_STALE_TAKEOVER_MS :: u64 where
  "REGISTRATION_STALE_TAKEOVER_MS = 15 * 24 * 60 * 60 * 1000"

definition HANDOVER_STALE_COLLAPSE_MS :: u64 where
  "HANDOVER_STALE_COLLAPSE_MS = 15 * 24 * 60 * 60 * 1000"

record 's relay_registry =
  rg_backend :: "'s storage_backend"
  rg_ser_record :: "registration_record \<Rightarrow> string + bytes"
  rg_de_record :: "bytes \<Rightarrow> string + registration_record"
  rg_ser_transition :: "registration_transition \<Rightarrow> string + bytes"
  rg_de_transition :: "bytes \<Rightarrow> string + registration_transition"
  rg_uuid_version :: "string \<Rightarrow> nat option" \<comment> \<open>\<open>None\<close> when the text does not parse\<close>
  rg_hex_decode :: "string \<Rightarrow> string + bytes"
  rg_hash_hex :: "bytes \<Rightarrow> string"

definition is_hex_64 :: "string \<Rightarrow> bool" where
  "is_hex_64 v \<longleftrightarrow> length v = 64 \<and> list_all is_hexdigit v"

text \<open>
  \<open>trim().to_lowercase()\<close>. Outside ASCII lower-casing gives no hexadecimal digit, and whatever is not made of hexadecimal digits is
  refused, so only the ASCII letters matter.
\<close>

definition lower_trim :: "string \<Rightarrow> string" where
  "lower_trim s = map ascii_lower (str_trim s)"

definition normalize_identity_id :: "string \<Rightarrow> string + string" where
  "normalize_identity_id identity_id =
     (let normalized = lower_trim identity_id
      in if \<not> is_hex_64 normalized then Inl ''registration_identity_id_invalid'' else Inr normalized)"

definition normalize_uuid_v4 :: "'s relay_registry \<Rightarrow> string \<Rightarrow> string \<Rightarrow> string + string" where
  "normalize_uuid_v4 R value error =
     (let normalized = str_trim value
      in (case rg_uuid_version R normalized of
            None \<Rightarrow> Inl error
          | Some version \<Rightarrow> if version \<noteq> 4 then Inl error else Inr normalized))"

definition derive_identity_id_from_public_key_hex :: "'s relay_registry \<Rightarrow> string \<Rightarrow> string option" where
  "derive_identity_id_from_public_key_hex R value =
     (if \<not> is_hex_64 value then None
      else (case rg_hex_decode R value of
              Inl _ \<Rightarrow> None
            | Inr bs \<Rightarrow> if length bs \<noteq> 32 then None else Some (rg_hash_hex R bs)))"

definition registration_key :: "string \<Rightarrow> string" where
  "registration_key identity_id = REGISTRATION_STATE_PREFIX @ identity_id"

definition record_exists :: "'s relay_registry \<Rightarrow> string \<Rightarrow> 's world \<Rightarrow> string + bool" where
  "record_exists R identity_id w =
     try_res (w_get (rg_backend R) (registration_key identity_id) w) (\<lambda>v. Inr (v \<noteq> None))"

definition normalize_lookup_identity :: "'s relay_registry \<Rightarrow> string \<Rightarrow> 's world \<Rightarrow> string + string option" where
  "normalize_lookup_identity R identity_hint w =
     (let trimmed = lower_trim identity_hint
      in if trimmed = [] \<or> \<not> is_hex_64 trimmed then Inr None
         else try_res (record_exists R trimmed w) (\<lambda>known.
           if known then Inr (Some trimmed)
           else (case derive_identity_id_from_public_key_hex R trimmed of
                   None \<Rightarrow> Inr (Some trimmed)
                 | Some derived \<Rightarrow>
                     try_res (record_exists R derived w) (\<lambda>derived_known. Inr (Some (if derived_known then derived else trimmed))))))"

section \<open>Stored states\<close>

definition registry_transition ::
  "'s relay_registry \<Rightarrow> string \<Rightarrow> registration_state option \<Rightarrow> registration_state \<Rightarrow> string \<Rightarrow> u64 \<Rightarrow> 's world \<Rightarrow> (string + unit) \<times> 's world" where
  "registry_transition R identity_id from_state to_state reason at_ms w =
     (let (sequence, w1) = next_sequence w;
          key = REGISTRATION_AUDIT_PREFIX @ padded 20 at_ms @ ''_'' @ padded 6 sequence @ ''_'' @ identity_id;
          transition = \<lparr>rt_identity_id = identity_id, rt_from_state = from_state, rt_to_state = to_state, rt_reason = reason,
                        rt_at_ms = at_ms, rt_sequence = sequence\<rparr>
      in (case rg_ser_transition R transition of
            Inl e \<Rightarrow> (Inl (''serialize registration transition failed: '' @ e), w1)
          | Inr bs \<Rightarrow> w_put (rg_backend R) key bs w1))"

definition persist_state ::
  "'s relay_registry \<Rightarrow> string \<Rightarrow> registration_state option \<Rightarrow> registration_state \<Rightarrow> string \<Rightarrow> u64 \<Rightarrow> 's world \<Rightarrow> (string + unit) \<times> 's world" where
  "persist_state R identity_id from_state state reason updated_at_ms w =
     (case rg_ser_record R \<lparr>rr_identity_id = identity_id, rr_state = state, rr_updated_at_ms = updated_at_ms\<rparr> of
        Inl e \<Rightarrow> (Inl (''serialize registration state failed: '' @ e), w)
      | Inr bs \<Rightarrow>
          and_then (w_put (rg_backend R) (registration_key identity_id) bs w) (\<lambda>_ w1.
          and_then (registry_transition R identity_id from_state state reason updated_at_ms w1) (\<lambda>_ w2.
            w_flush (rg_backend R) w2)))"

definition collapse_handover ::
  "'s relay_registry \<Rightarrow> string \<Rightarrow> registration_record \<Rightarrow> 's world \<Rightarrow> (string + registration_record option) \<times> 's world" where
  "collapse_handover R identity_id rec w =
     (let (abandoned_at, w1) = now_ms w;
          collapsed = Abandoned (from_device (rr_state rec)) abandoned_at;
          (updated_at, w2) = now_ms w1
      in and_then (persist_state R identity_id (Some (rr_state rec)) collapsed ''registration_handover_stale_timeout'' updated_at w2) (\<lambda>_ w3.
           let (read_at, w4) = now_ms w3
           in (Inr (Some \<lparr>rr_identity_id = identity_id, rr_state = collapsed, rr_updated_at_ms = read_at\<rparr>), w4)))"

definition get_record_by_identity_id ::
  "'s relay_registry \<Rightarrow> string \<Rightarrow> 's world \<Rightarrow> (string + registration_record option) \<times> 's world" where
  "get_record_by_identity_id R identity_id w =
     (case w_get (rg_backend R) (registration_key identity_id) w of
        Inl e \<Rightarrow> (Inl e, w)
      | Inr None \<Rightarrow> (Inr None, w)
      | Inr (Some bs) \<Rightarrow>
          (case rg_de_record R bs of
             Inl e \<Rightarrow> (Inl (''deserialize registration state failed: '' @ e), w)
           | Inr rec \<Rightarrow>
               (case rr_state rec of
                  Handover _ _ initiated \<Rightarrow>
                    let (now, w1) = now_ms w
                    in if sat_sub now initiated > HANDOVER_STALE_COLLAPSE_MS then collapse_handover R identity_id rec w1
                       else (Inr (Some rec), w1)
                | _ \<Rightarrow> (Inr (Some rec), w))))"

text \<open>The decisions of \<open>register\<close> and \<open>deregister\<close>: the new state, what happens to the queue, and the reason for the audit trail.\<close>

definition register_decision ::
  "u64 \<Rightarrow> string \<Rightarrow> string \<Rightarrow> u64 \<Rightarrow> registration_record option \<Rightarrow> string + (registration_state \<times> registry_side_effect \<times> string)" where
  "register_decision now identity_id device_id seniority current =
     (let active = Active device_id seniority
      in (case current of
            None \<Rightarrow> Inr (active, No_Effect, ''registration_activated'')
          | Some rec \<Rightarrow>
              (case rr_state rec of
                 Active active_device_id _ \<Rightarrow>
                   if active_device_id = device_id then Inr (active, No_Effect, ''registration_refreshed'')
                   else if sat_sub now (rr_updated_at_ms rec) > REGISTRATION_STALE_TAKEOVER_MS
                   then Inr (active, Purge identity_id (Some active_device_id), ''registration_stale_takeover'')
                   else Inl ''registration_active_conflict''
               | Handover _ to_device_id _ \<Rightarrow>
                   if to_device_id = device_id then Inr (active, No_Effect, ''registration_handover_completed'')
                   else Inl ''registration_handover_conflict''
               | Abandoned _ _ \<Rightarrow> Inr (active, No_Effect, ''registration_reactivated''))))"

definition register ::
  "'s relay_registry \<Rightarrow> string \<Rightarrow> string \<Rightarrow> u64 \<Rightarrow> 's world \<Rightarrow> (string + registration_update_outcome) \<times> 's world" where
  "register R identity_id device_id seniority w =
     (case try_res (normalize_identity_id identity_id) (\<lambda>i.
             try_res (normalize_uuid_v4 R device_id ''registration_device_id_invalid'') (\<lambda>d. Inr (i, d))) of
        Inl e \<Rightarrow> (Inl e, w)
      | Inr (i, d) \<Rightarrow>
          if seniority = 0 then (Inl ''registration_seniority_invalid'', w)
          else
            let (now, w1) = now_ms w
            in and_then (get_record_by_identity_id R i w1) (\<lambda>current w2.
                 case register_decision now i d seniority current of
                   Inl e \<Rightarrow> (Inl e, w2)
                 | Inr (state, side_effect, reason) \<Rightarrow>
                     and_then (persist_state R i (map_option rr_state current) state reason now w2) (\<lambda>_ w3.
                       (Inr \<lparr>uo_state = state, uo_side_effect = side_effect\<rparr>, w3))))"

definition deregister_decision ::
  "u64 \<Rightarrow> string \<Rightarrow> string \<Rightarrow> string option \<Rightarrow> registration_state \<Rightarrow> string + (registration_state \<times> registry_side_effect \<times> string)" where
  "deregister_decision now identity_id from_device_id target current =
     (case current of
        Active device_id _ \<Rightarrow>
          if device_id = from_device_id then
            (case target of
               Some target_device_id \<Rightarrow>
                 Inr (Handover from_device_id target_device_id now, Migrate identity_id from_device_id target_device_id,
                      ''registration_handover_started'')
             | None \<Rightarrow> Inr (Abandoned from_device_id now, Purge identity_id None, ''registration_abandoned''))
          else Inl ''registration_device_mismatch''
      | Handover current_from current_to initiated \<Rightarrow>
          if current_from = from_device_id \<and> target = Some current_to
          then Inr (Handover current_from current_to initiated, No_Effect, ''registration_handover_reaffirmed'')
          else Inl ''registration_handover_conflict''
      | Abandoned device_id _ \<Rightarrow>
          if device_id = from_device_id then Inr (Abandoned device_id now, No_Effect, ''registration_abandon_reaffirmed'')
          else Inl ''registration_device_mismatch'')"

definition normalize_target :: "'s relay_registry \<Rightarrow> string option \<Rightarrow> string + string option" where
  "normalize_target R target =
     (case target of
        None \<Rightarrow> Inr None
      | Some t \<Rightarrow> try_res (normalize_uuid_v4 R t ''deregistration_target_device_id_invalid'') (\<lambda>d. Inr (Some d)))"

definition deregister ::
  "'s relay_registry \<Rightarrow> string \<Rightarrow> string \<Rightarrow> string option \<Rightarrow> 's world \<Rightarrow> (string + registration_update_outcome) \<times> 's world" where
  "deregister R identity_id from_device_id target w =
     (case try_res (normalize_identity_id identity_id) (\<lambda>i.
             try_res (normalize_uuid_v4 R from_device_id ''deregistration_from_device_id_invalid'') (\<lambda>f.
             try_res (normalize_target R target) (\<lambda>t. Inr (i, f, t)))) of
        Inl e \<Rightarrow> (Inl e, w)
      | Inr (i, f, t) \<Rightarrow>
          if t = Some f then (Inl ''deregistration_target_matches_source'', w)
          else
            let (now, w1) = now_ms w
            in and_then (get_record_by_identity_id R i w1) (\<lambda>current w2.
                 case current of
                   None \<Rightarrow> (Inl ''registration_not_found'', w2)
                 | Some rec \<Rightarrow>
                     (case deregister_decision now i f t (rr_state rec) of
                        Inl e \<Rightarrow> (Inl e, w2)
                      | Inr (state, side_effect, reason) \<Rightarrow>
                          and_then (persist_state R i (Some (rr_state rec)) state reason now w2) (\<lambda>_ w3.
                            (Inr \<lparr>uo_state = state, uo_side_effect = side_effect\<rparr>, w3)))))"

section \<open>Queries\<close>

definition registry_get_state :: "'s relay_registry \<Rightarrow> string \<Rightarrow> 's world \<Rightarrow> (string + registration_state option) \<times> 's world" where
  "registry_get_state R identity_id w =
     (case normalize_lookup_identity R identity_id w of
        Inl e \<Rightarrow> (Inl e, w)
      | Inr None \<Rightarrow> (Inr None, w)
      | Inr (Some i) \<Rightarrow> and_then (get_record_by_identity_id R i w) (\<lambda>r w'. (Inr (map_option rr_state r), w')))"

definition get_state_info :: "'s relay_registry \<Rightarrow> string \<Rightarrow> 's world \<Rightarrow> registration_state_info \<times> 's world" where
  "get_state_info R identity_id w =
     (case registry_get_state R identity_id w of
        (r, w') \<Rightarrow>
          ((case r of
              Inr (Some (Active d s)) \<Rightarrow> \<lparr>ri_state = ''active'', ri_device_id = Some d, ri_seniority_timestamp = Some s\<rparr>
            | Inr (Some (Handover _ t _)) \<Rightarrow> \<lparr>ri_state = ''handover'', ri_device_id = Some t, ri_seniority_timestamp = None\<rparr>
            | Inr (Some (Abandoned d _)) \<Rightarrow> \<lparr>ri_state = ''abandoned'', ri_device_id = Some d, ri_seniority_timestamp = None\<rparr>
            | _ \<Rightarrow> \<lparr>ri_state = ''none'', ri_device_id = None, ri_seniority_timestamp = None\<rparr>), w'))"

definition enforce_custody ::
  "'s relay_registry \<Rightarrow> string \<Rightarrow> string \<Rightarrow> 's world \<Rightarrow> (custody_error + custody_enforcement) \<times> 's world" where
  "enforce_custody R identity_id device_id w =
     (case normalize_lookup_identity R identity_id w of
        Inl _ \<Rightarrow> (Inl NoRegistration, w)
      | Inr None \<Rightarrow> (Inl NoRegistration, w)
      | Inr (Some i) \<Rightarrow>
          (case normalize_uuid_v4 R device_id ''registration_device_id_invalid'' of
             Inl _ \<Rightarrow> (Inl NoRegistration, w)
           | Inr d \<Rightarrow>
               (case registry_get_state R i w of
                  (r, w') \<Rightarrow>
                    ((case r of
                        Inl _ \<Rightarrow> Inl NoRegistration
                      | Inr None \<Rightarrow> Inl NoRegistration
                      | Inr (Some (Active active _)) \<Rightarrow> if active = d then Inr (Enforced_Active i d) else Inl DeviceMismatch
                      | Inr (Some (Handover f t _)) \<Rightarrow> if d = f \<or> d = t then Inr (Redirected i f t) else Inl DeviceMismatch
                      | Inr (Some (Abandoned _ _)) \<Rightarrow> Inl AbandonedIdentity), w'))))"

definition transitions_for_identity :: "'s relay_registry \<Rightarrow> string \<Rightarrow> 's world \<Rightarrow> registration_transition list" where
  "transitions_for_identity R identity_id w =
     (case normalize_lookup_identity R identity_id w of
        Inr (Some i) \<Rightarrow>
          sort_key (\<lambda>t. (rt_at_ms t, rt_sequence t))
            (filter (\<lambda>t. rt_identity_id t = i)
               (map snd (decoded (rg_de_transition R) (scan_or_empty (rg_backend R) (as_bytes REGISTRATION_AUDIT_PREFIX) (w_store w)))))
      | _ \<Rightarrow> [])"

definition registry_len :: "'s relay_registry \<Rightarrow> 's world \<Rightarrow> nat" where
  "registry_len R w = count_or_zero (rg_backend R) (as_bytes REGISTRATION_STATE_PREFIX) (w_store w)"

definition registry_is_empty :: "'s relay_registry \<Rightarrow> 's world \<Rightarrow> bool" where
  "registry_is_empty R w \<longleftrightarrow> registry_len R w = 0"

end
