(* ===== verification/Custody_Store.thy ===== *)
theory Custody_Store
  imports Complex_Main Custody_Registry "HOL-Library.List_Lexorder" "HOL-Library.Char_ord"
begin

text \<open>
  \<open>RelayCustodyStore\<close> of \<open>src/core/src/store/relay_custody.rs\<close>: messages a relay keeps for recipients that are offline, with an audit
  trail, a registry of devices and quotas by storage pressure. Every operation is a step on the world of
  \<open>Custody_Registry\<close>; the probe of the file system gives a new value at every reading, like the clock. bincode and
  environment variables are parameters; log output and the audit pipeline, whose result the code drops, are left out.
  \<open>Custody_Audit\<close> and \<open>Custody_Duty\<close> show that no record disappears without an entry in the audit trail, in which order records
  are purged, and what a change of device does to the queue.
\<close>

section \<open>Storage pressure\<close>

datatype storage_pressure_band = UpTo20Pct | From20To50Pct | From50To70Pct | From70To80Pct | From80To90Pct | EmergencyOver90Pct

record device_storage_snapshot =
  ds_total_bytes :: u64
  ds_used_bytes :: u64

record storage_pressure_state =
  sp_band :: storage_pressure_band
  sp_hard_ceiling_bytes :: u64
  sp_target_quota_bytes :: u64
  sp_scm_bytes :: u64

record storage_pressure_report =
  pr_emergency_mode :: bool
  pr_hard_ceiling_bytes :: u64
  pr_target_quota_bytes :: u64
  pr_scm_bytes_before :: u64
  pr_scm_bytes_after :: u64
  pr_purged_records :: nat
  pr_purged_bytes :: u64

record storage_pressure_context =
  pc_total_bytes :: u64
  pc_non_scm_used_bytes :: u64

definition emergency_mode :: "storage_pressure_state \<Rightarrow> bool" where
  "emergency_mode st \<longleftrightarrow> sp_band st = EmergencyOver90Pct"

definition DEVICE_USAGE_CEILING_PERCENT :: nat where
  "DEVICE_USAGE_CEILING_PERCENT = 90"

definition from_snapshot :: "device_storage_snapshot \<Rightarrow> u64 \<Rightarrow> storage_pressure_context option" where
  "from_snapshot sn scm_bytes =
     (if ds_total_bytes sn = 0 then None
      else Some \<lparr>pc_total_bytes = ds_total_bytes sn,
                 pc_non_scm_used_bytes = sat_sub (min (ds_used_bytes sn) (ds_total_bytes sn)) scm_bytes\<rparr>)"

definition pressure_band :: "u64 \<Rightarrow> storage_pressure_band \<times> nat" where
  "pressure_band basis_points =
     (if basis_points \<le> 2000 then (UpTo20Pct, 70)
      else if basis_points \<le> 5000 then (From20To50Pct, 45)
      else if basis_points \<le> 7000 then (From50To70Pct, 25)
      else if basis_points \<le> 8000 then (From70To80Pct, 10)
      else if basis_points \<le> 9000 then (From80To90Pct, 3)
      else (EmergencyOver90Pct, 0))"

text \<open>The products are computed with 128 bits and do not overflow there; the quotients are cut to 64 bits.\<close>

definition state_for_scm_bytes :: "storage_pressure_context \<Rightarrow> u64 \<Rightarrow> storage_pressure_state" where
  "state_for_scm_bytes pc scm_bytes =
     (let used_bytes = sat_add (pc_non_scm_used_bytes pc) scm_bytes;
          basis_points = (word_of_nat (unat used_bytes * 10000 div unat (pc_total_bytes pc)) :: u64);
          free_bytes = sat_sub (pc_total_bytes pc) used_bytes;
          ninety_percent_total = (word_of_nat (unat (pc_total_bytes pc) * DEVICE_USAGE_CEILING_PERCENT div 100) :: u64);
          hard_ceiling = sat_sub ninety_percent_total (pc_non_scm_used_bytes pc);
          (band, band_percent) = pressure_band basis_points;
          dynamic_target = (if band = EmergencyOver90Pct then hard_ceiling
                            else word_of_nat (unat free_bytes * band_percent div 100))
      in \<lparr>sp_band = band, sp_hard_ceiling_bytes = hard_ceiling, sp_target_quota_bytes = min dynamic_target hard_ceiling,
          sp_scm_bytes = scm_bytes\<rparr>)"

definition FALLBACK_STORAGE_TOTAL_BYTES :: u64 where
  "FALLBACK_STORAGE_TOTAL_BYTES = 8 * 1024 * 1024 * 1024"

definition env_u64 :: "(string \<Rightarrow> string option) \<Rightarrow> string \<Rightarrow> u64 option" where
  "env_u64 env name = Option.bind (env name) parse_u64"

definition synthetic_storage_snapshot :: "(string \<Rightarrow> string option) \<Rightarrow> u64 \<Rightarrow> device_storage_snapshot option" where
  "synthetic_storage_snapshot env scm_bytes =
     (let total_bytes = (case env_u64 env ''SCM_STORAGE_TOTAL_BYTES'' of
                           Some v \<Rightarrow> if v > 0 then v else FALLBACK_STORAGE_TOTAL_BYTES
                         | None \<Rightarrow> FALLBACK_STORAGE_TOTAL_BYTES);
          used_bytes = (case env_u64 env ''SCM_STORAGE_USED_BYTES'' of Some v \<Rightarrow> max v scm_bytes | None \<Rightarrow> scm_bytes)
      in if total_bytes = 0 then None
         else Some \<lparr>ds_total_bytes = total_bytes, ds_used_bytes = min used_bytes total_bytes\<rparr>)"

section \<open>Messages in custody\<close>

datatype custody_state = Accepted | Dispatching | Delivered

fun custody_state_str :: "custody_state \<Rightarrow> string" where
  "custody_state_str Accepted = ''accepted''"
| "custody_state_str Dispatching = ''dispatching''"
| "custody_state_str Delivered = ''delivered''"

datatype custody_compat_mode = PhaseA | PhaseB

record custody_message =
  cm_custody_id :: string
  cm_relay_message_id :: string
  cm_source_peer_id :: string
  cm_destination_peer_id :: string
  cm_recipient_identity_id :: "string option"
  cm_intended_device_id :: "string option"
  cm_envelope_data :: bytes
  cm_state :: custody_state
  cm_accepted_at_ms :: u64
  cm_updated_at_ms :: u64
  cm_delivery_attempts :: u32

record custody_transition =
  ct_custody_id :: string
  ct_relay_message_id :: string
  ct_source_peer_id :: string
  ct_destination_peer_id :: string
  ct_from_state :: "custody_state option"
  ct_to_state :: custody_state
  ct_reason :: string
  ct_at_ms :: u64
  ct_sequence :: u64

record 's relay_custody =
  rc_backend :: "'s storage_backend"
  rc_registry :: "'s relay_registry"
  rc_local_identity :: "string option"
  rc_compat_mode :: custody_compat_mode
  rc_probe :: "nat \<Rightarrow> device_storage_snapshot option"
  rc_env :: "string \<Rightarrow> string option"
  rc_ser_message :: "custody_message \<Rightarrow> string + bytes"
  rc_de_message :: "bytes \<Rightarrow> string + custody_message"
  rc_ser_transition :: "custody_transition \<Rightarrow> string + bytes"
  rc_de_transition :: "bytes \<Rightarrow> string + custody_transition"

definition set_compat_mode :: "custody_compat_mode \<Rightarrow> 's relay_custody \<Rightarrow> 's relay_custody" where
  "set_compat_mode mode C = C\<lparr>rc_compat_mode := mode\<rparr>"

definition adoption_stats :: "'s world \<Rightarrow> u64 \<times> u64" where
  "adoption_stats w = (w_ws13_requests w, w_legacy_requests w)"

definition adoption_pct :: "'s world \<Rightarrow> real" where
  "adoption_pct w =
     (let (ws13, legacy) = adoption_stats w; total = ws13 + legacy
      in if total = 0 then 0 else real (unat ws13) / real (unat total) * 100)"

definition CUSTODY_MSG_PREFIX :: string where
  "CUSTODY_MSG_PREFIX = ''relay_custody_msg_''"

definition CUSTODY_AUDIT_PREFIX :: string where
  "CUSTODY_AUDIT_PREFIX = ''relay_custody_audit_''"

definition MAX_PENDING_PER_DESTINATION :: nat where
  "MAX_PENDING_PER_DESTINATION = 10000"

definition destination_prefix :: "string \<Rightarrow> string" where
  "destination_prefix destination_peer_id = CUSTODY_MSG_PREFIX @ destination_peer_id @ ''_''"

definition custody_key :: "string \<Rightarrow> string \<Rightarrow> string" where
  "custody_key destination_peer_id custody_id = destination_prefix destination_peer_id @ custody_id"

definition probe_snapshot :: "'s relay_custody \<Rightarrow> 's world \<Rightarrow> device_storage_snapshot option \<times> 's world" where
  "probe_snapshot C w = (rc_probe C (w_reads w), w\<lparr>w_reads := Suc (w_reads w)\<rparr>)"

definition w_scan :: "'s storage_backend \<Rightarrow> string \<Rightarrow> 's world \<Rightarrow> string + scan_result" where
  "w_scan B p w = bk_scan_prefix B (as_bytes p) (w_store w)"

section \<open>Single records\<close>

definition put_message :: "'s relay_custody \<Rightarrow> custody_message \<Rightarrow> 's world \<Rightarrow> (string + unit) \<times> 's world" where
  "put_message C m w =
     (case rc_ser_message C m of
        Inl e \<Rightarrow> (Inl (''serialize custody record failed: '' @ e), w)
      | Inr bs \<Rightarrow>
          and_then (w_put (rc_backend C) (custody_key (cm_destination_peer_id m) (cm_custody_id m)) bs w) (\<lambda>_ w1. w_flush (rc_backend C) w1))"

definition remove_message :: "'s relay_custody \<Rightarrow> string \<Rightarrow> string \<Rightarrow> 's world \<Rightarrow> (string + unit) \<times> 's world" where
  "remove_message C destination custody_id w =
     and_then (w_remove (rc_backend C) (custody_key destination custody_id) w) (\<lambda>_ w1. w_flush (rc_backend C) w1)"

definition record_transition ::
  "'s relay_custody \<Rightarrow> custody_message \<Rightarrow> custody_state option \<Rightarrow> custody_state \<Rightarrow> string \<Rightarrow> 's world \<Rightarrow> (string + unit) \<times> 's world" where
  "record_transition C m from_state to_state reason w =
     (let (at_ms, w1) = now_ms w;
          (sequence, w2) = next_sequence w1;
          key = CUSTODY_AUDIT_PREFIX @ padded 20 at_ms @ ''_'' @ padded 6 sequence @ ''_'' @ cm_custody_id m @ ''_'' @ custody_state_str to_state;
          transition = \<lparr>ct_custody_id = cm_custody_id m, ct_relay_message_id = cm_relay_message_id m, ct_source_peer_id = cm_source_peer_id m,
                        ct_destination_peer_id = cm_destination_peer_id m, ct_from_state = from_state, ct_to_state = to_state,
                        ct_reason = reason, ct_at_ms = at_ms, ct_sequence = sequence\<rparr>
      in (case rc_ser_transition C transition of
            Inl e \<Rightarrow> (Inl (''serialize custody transition failed: '' @ e), w2)
          | Inr bs \<Rightarrow> and_then (w_put (rc_backend C) key bs w2) (\<lambda>_ w3. w_flush (rc_backend C) w3)))"

definition get_message :: "'s relay_custody \<Rightarrow> string \<Rightarrow> string \<Rightarrow> 's world \<Rightarrow> string + custody_message option" where
  "get_message C destination custody_id w =
     try_res (w_get (rc_backend C) (custody_key destination custody_id) w) (\<lambda>v.
       case v of
         None \<Rightarrow> Inr None
       | Some bs \<Rightarrow> (case rc_de_message C bs of
                       Inl e \<Rightarrow> Inl (''deserialize custody record failed: '' @ e)
                     | Inr m \<Rightarrow> Inr (Some m)))"

definition require_record :: "'s relay_custody \<Rightarrow> string \<Rightarrow> string \<Rightarrow> 's world \<Rightarrow> string + custody_message" where
  "require_record C destination custody_id w =
     try_res (get_message C destination custody_id w) (\<lambda>v.
       case v of None \<Rightarrow> Inl (''custody record not found: '' @ custody_id) | Some m \<Rightarrow> Inr m)"

definition scanned_messages :: "'s relay_custody \<Rightarrow> string \<Rightarrow> 's world \<Rightarrow> string + custody_message list" where
  "scanned_messages C p w = try_res (w_scan (rc_backend C) p w) (\<lambda>es. Inr (map snd (decoded (rc_de_message C) es)))"

definition find_existing :: "'s relay_custody \<Rightarrow> string \<Rightarrow> string \<Rightarrow> 's world \<Rightarrow> string + custody_message option" where
  "find_existing C destination relay_message_id w =
     try_res (scanned_messages C (destination_prefix destination) w) (\<lambda>ms. Inr (find (\<lambda>m. cm_relay_message_id m = relay_message_id) ms))"

definition has_message_for_destination :: "'s relay_custody \<Rightarrow> string \<Rightarrow> string \<Rightarrow> 's world \<Rightarrow> bool" where
  "has_message_for_destination C destination relay_message_id w \<longleftrightarrow>
     (case find_existing C destination relay_message_id w of Inr (Some _) \<Rightarrow> True | _ \<Rightarrow> False)"

definition pending_for_destination :: "'s relay_custody \<Rightarrow> string \<Rightarrow> nat \<Rightarrow> 's world \<Rightarrow> custody_message list" where
  "pending_for_destination C destination limit w =
     take limit (sort_key (\<lambda>m. (cm_accepted_at_ms m, cm_custody_id m))
       (filter (\<lambda>m. cm_state m = Accepted)
         (case scanned_messages C (destination_prefix destination) w of Inl _ \<Rightarrow> [] | Inr ms \<Rightarrow> ms)))"

definition transitions_for_custody :: "'s relay_custody \<Rightarrow> string \<Rightarrow> 's world \<Rightarrow> custody_transition list" where
  "transitions_for_custody C custody_id w =
     sort_key (\<lambda>t. (ct_at_ms t, ct_sequence t))
       (filter (\<lambda>t. ct_custody_id t = custody_id)
         (map snd (decoded (rc_de_transition C) (scan_or_empty (rc_backend C) (as_bytes CUSTODY_AUDIT_PREFIX) (w_store w)))))"

definition audit_count :: "'s relay_custody \<Rightarrow> 's world \<Rightarrow> nat" where
  "audit_count C w = count_or_zero (rc_backend C) (as_bytes CUSTODY_AUDIT_PREFIX) (w_store w)"

section \<open>The life of a record\<close>

definition MAX_CUSTODY_ATTEMPTS :: u32 where
  "MAX_CUSTODY_ATTEMPTS = 12"

definition mark_dispatching :: "'s relay_custody \<Rightarrow> string \<Rightarrow> string \<Rightarrow> string \<Rightarrow> 's world \<Rightarrow> (string + unit) \<times> 's world" where
  "mark_dispatching C destination custody_id reason w =
     and_then (require_record C destination custody_id w, w) (\<lambda>m w.
       if cm_state m = Dispatching then (Inr (), w)
       else if cm_state m = Delivered then (Inr (), w)
       else if cm_delivery_attempts m \<ge> MAX_CUSTODY_ATTEMPTS
       then (Inl (''Max delivery attempts (12) exceeded for custody '' @ custody_id), w)
       else
         let (now, w1) = now_ms w;
             m' = m\<lparr>cm_state := Dispatching, cm_updated_at_ms := now, cm_delivery_attempts := sat_add (cm_delivery_attempts m) 1\<rparr>
         in and_then (put_message C m' w1) (\<lambda>_ w2. record_transition C m' (Some (cm_state m)) Dispatching reason w2))"

definition mark_dispatch_failed :: "'s relay_custody \<Rightarrow> string \<Rightarrow> string \<Rightarrow> string \<Rightarrow> 's world \<Rightarrow> (string + unit) \<times> 's world" where
  "mark_dispatch_failed C destination custody_id reason w =
     and_then (require_record C destination custody_id w, w) (\<lambda>m w.
       if cm_state m = Accepted then (Inr (), w)
       else if cm_state m = Delivered then (Inr (), w)
       else
         let (now, w1) = now_ms w; m' = m\<lparr>cm_state := Accepted, cm_updated_at_ms := now\<rparr>
         in and_then (put_message C m' w1) (\<lambda>_ w2. record_transition C m' (Some (cm_state m)) Accepted reason w2))"

definition mark_delivered :: "'s relay_custody \<Rightarrow> string \<Rightarrow> string \<Rightarrow> string \<Rightarrow> 's world \<Rightarrow> (string + unit) \<times> 's world" where
  "mark_delivered C destination custody_id reason w =
     and_then (require_record C destination custody_id w, w) (\<lambda>m w.
       if cm_state m = Delivered then (Inr (), w)
       else
         let (now, w1) = now_ms w; m' = m\<lparr>cm_state := Delivered, cm_updated_at_ms := now\<rparr>
         in and_then (record_transition C m' (Some (cm_state m)) Delivered reason w1) (\<lambda>_ w2. remove_message C destination custody_id w2))"

fun converge_loop :: "'s relay_custody \<Rightarrow> string \<Rightarrow> string \<Rightarrow> custody_message list \<Rightarrow> nat \<Rightarrow> 's world \<Rightarrow> (string + nat) \<times> 's world" where
  "converge_loop C destination reason [] n w = (Inr n, w)"
| "converge_loop C destination reason (m # ms) n w =
     (if cm_state m = Delivered then converge_loop C destination reason ms n w
      else
        let (now, w1) = now_ms w; m' = m\<lparr>cm_state := Delivered, cm_updated_at_ms := now\<rparr>
        in and_then (record_transition C m' (Some (cm_state m)) Delivered reason w1) (\<lambda>_ w2.
           and_then (remove_message C destination (cm_custody_id m) w2) (\<lambda>_ w3. converge_loop C destination reason ms (Suc n) w3)))"

definition converge_delivered_for_message ::
  "'s relay_custody \<Rightarrow> string \<Rightarrow> string \<Rightarrow> string \<Rightarrow> 's world \<Rightarrow> (string + nat) \<times> 's world" where
  "converge_delivered_for_message C destination relay_message_id reason w =
     and_then (scanned_messages C (destination_prefix destination) w, w) (\<lambda>ms w.
       converge_loop C destination reason (filter (\<lambda>m. cm_relay_message_id m = relay_message_id) ms) 0 w)"

section \<open>Purging\<close>

definition is_identity_related :: "'s relay_custody \<Rightarrow> custody_message \<Rightarrow> bool" where
  "is_identity_related C m \<longleftrightarrow>
     (case rc_local_identity C of
        None \<Rightarrow> False
      | Some i \<Rightarrow> cm_source_peer_id m = i \<or> cm_destination_peer_id m = i)"

definition delivery_priority :: "custody_message \<Rightarrow> nat" where
  "delivery_priority m = (if cm_state m = Delivered then 0 else 1)"

definition load_stored_records :: "'s relay_custody \<Rightarrow> 's world \<Rightarrow> string + (custody_message \<times> u64) list" where
  "load_stored_records C w =
     try_res (w_scan (rc_backend C) CUSTODY_MSG_PREFIX w) (\<lambda>es.
       Inr (List.map_filter (\<lambda>(_, v). case rc_de_message C v of Inl _ \<Rightarrow> None | Inr m \<Rightarrow> Some (m, word_of_nat (length v))) es))"

definition purge_order :: "'s relay_custody \<Rightarrow> (custody_message \<times> u64) list \<Rightarrow> (custody_message \<times> u64) list" where
  "purge_order C = sort_key (\<lambda>(m, _). (is_identity_related C m, delivery_priority m, cm_accepted_at_ms m, cm_custody_id m))"

fun purge_loop ::
  "'s relay_custody \<Rightarrow> string \<Rightarrow> (custody_message \<times> u64) list \<Rightarrow> u64 \<Rightarrow> nat \<Rightarrow> u64 \<Rightarrow> 's world \<Rightarrow> (string + nat \<times> u64) \<times> 's world" where
  "purge_loop C reason [] required n bytes w = (Inr (n, bytes), w)"
| "purge_loop C reason ((m, sz) # cs) required n bytes w =
     (if required = 0 then (Inr (n, bytes), w)
      else
        and_then (record_transition C m (Some (cm_state m)) (cm_state m) (reason @ ''_purged'') w) (\<lambda>_ w1.
        and_then (remove_message C (cm_destination_peer_id m) (cm_custody_id m) w1) (\<lambda>_ w2.
          purge_loop C reason cs (sat_sub required sz) (Suc n) (sat_add bytes sz) w2)))"

definition purge_oldest_by_policy :: "'s relay_custody \<Rightarrow> u64 \<Rightarrow> string \<Rightarrow> 's world \<Rightarrow> (string + nat \<times> u64) \<times> 's world" where
  "purge_oldest_by_policy C required reason w =
     (if required = 0 then (Inr (0, 0), w)
      else and_then (load_stored_records C w, w) (\<lambda>cs w. purge_loop C reason (purge_order C cs) required 0 0 w))"

definition current_scm_storage_bytes :: "'s relay_custody \<Rightarrow> 's world \<Rightarrow> string + u64" where
  "current_scm_storage_bytes C w =
     try_res (w_scan (rc_backend C) CUSTODY_MSG_PREFIX w) (\<lambda>es. Inr (\<Sum>(_, v)\<leftarrow>es. word_of_nat (length v)))"

definition storage_pressure_state_of :: "'s relay_custody \<Rightarrow> 's world \<Rightarrow> storage_pressure_state option \<times> 's world" where
  "storage_pressure_state_of C w =
     (case current_scm_storage_bytes C w of
        Inl _ \<Rightarrow> (None, w)
      | Inr scm_bytes \<Rightarrow>
          (case probe_snapshot C w of
             (sn, w1) \<Rightarrow>
               (Option.bind (case sn of Some s \<Rightarrow> Some s | None \<Rightarrow> synthetic_storage_snapshot (rc_env C) scm_bytes) (\<lambda>s.
                  map_option (\<lambda>pc. state_for_scm_bytes pc scm_bytes) (from_snapshot s scm_bytes)), w1)))"

definition ok_or :: "'a option \<Rightarrow> string \<Rightarrow> string + 'a" where
  "ok_or x e = (case x of None \<Rightarrow> Inl e | Some y \<Rightarrow> Inr y)"

definition pressure_purge ::
  "'s relay_custody \<Rightarrow> u64 \<Rightarrow> string \<Rightarrow> storage_pressure_report \<Rightarrow> u64 \<Rightarrow> 's world \<Rightarrow>
   (string + storage_pressure_report \<times> u64) \<times> 's world" where
  "pressure_purge C required reason report scm_bytes w =
     (if required > 0 then
        and_then (purge_oldest_by_policy C required reason w) (\<lambda>(records, bytes) w1.
          (Inr (report\<lparr>pr_purged_records := pr_purged_records report + records, pr_purged_bytes := sat_add (pr_purged_bytes report) bytes\<rparr>,
                sat_sub scm_bytes bytes), w1))
      else (Inr (report, scm_bytes), w))"

definition enforce_storage_pressure_internal ::
  "'s relay_custody \<Rightarrow> custody_message option \<Rightarrow> 's world \<Rightarrow> (string + storage_pressure_report) \<times> 's world" where
  "enforce_storage_pressure_internal C incoming w =
     and_then (current_scm_storage_bytes C w, w) (\<lambda>scm_before w.
     case probe_snapshot C w of (probed, w) \<Rightarrow>
     and_then (ok_or (case probed of Some s \<Rightarrow> Some s | None \<Rightarrow> synthetic_storage_snapshot (rc_env C) scm_before) ''invalid_storage_snapshot'', w)
       (\<lambda>snapshot w.
     and_then (ok_or (from_snapshot snapshot scm_before) ''invalid_storage_snapshot'', w) (\<lambda>pc w.
       let state = state_for_scm_bytes pc scm_before;
           report = \<lparr>pr_emergency_mode = emergency_mode state, pr_hard_ceiling_bytes = sp_hard_ceiling_bytes state,
                     pr_target_quota_bytes = sp_target_quota_bytes state, pr_scm_bytes_before = scm_before, pr_scm_bytes_after = scm_before,
                     pr_purged_records = 0, pr_purged_bytes = 0\<rparr>
       in if emergency_mode state \<and> (case incoming of None \<Rightarrow> False | Some m \<Rightarrow> \<not> is_identity_related C m) then
            and_then (pressure_purge C (sat_sub scm_before (sp_hard_ceiling_bytes state)) ''storage_pressure_emergency'' report scm_before w)
              (\<lambda>(report, scm_bytes) w. (Inr (report\<lparr>pr_scm_bytes_after := scm_bytes\<rparr>), w))
          else
            and_then (pressure_purge C (sat_sub scm_before (sp_target_quota_bytes state)) ''storage_pressure_target_quota'' report scm_before w)
              (\<lambda>(report, scm_bytes) w.
            let state = state_for_scm_bytes pc scm_bytes
            in and_then (pressure_purge C (sat_sub scm_bytes (sp_hard_ceiling_bytes state)) ''storage_pressure_hard_ceiling'' report scm_bytes w)
              (\<lambda>(report, scm_bytes) w.
            let state = state_for_scm_bytes pc scm_bytes
            in (Inr (report\<lparr>pr_scm_bytes_after := scm_bytes, pr_target_quota_bytes := sp_target_quota_bytes state,
                            pr_hard_ceiling_bytes := sp_hard_ceiling_bytes state, pr_emergency_mode := emergency_mode state\<rparr>), w))))))"

definition enforce_storage_pressure :: "'s relay_custody \<Rightarrow> 's world \<Rightarrow> (string + storage_pressure_report) \<times> 's world" where
  "enforce_storage_pressure C w = enforce_storage_pressure_internal C None w"

definition serialized_record_bytes :: "'s relay_custody \<Rightarrow> custody_message \<Rightarrow> string + u64" where
  "serialized_record_bytes C m =
     (case rc_ser_message C m of
        Inl e \<Rightarrow> Inl (''serialize custody record failed: '' @ e)
      | Inr bs \<Rightarrow> Inr (word_of_nat (length bs)))"

text \<open>Make room for \<open>write_bytes\<close> below a limit of the current state; the new size is returned.\<close>

definition make_room ::
  "'s relay_custody \<Rightarrow> (storage_pressure_state \<Rightarrow> u64) \<Rightarrow> string \<Rightarrow> storage_pressure_context \<Rightarrow> u64 \<Rightarrow> u64 \<Rightarrow> 's world \<Rightarrow>
   (string + u64) \<times> 's world" where
  "make_room C limit reason pc write_bytes scm_bytes w =
     (let projected = sat_add scm_bytes write_bytes; bound = limit (state_for_scm_bytes pc scm_bytes)
      in if projected > bound then
           and_then (purge_oldest_by_policy C (sat_sub projected bound) reason w) (\<lambda>(_, bytes) w1. (Inr (sat_sub scm_bytes bytes), w1))
         else (Inr scm_bytes, w))"

definition enforce_storage_pressure_for_write :: "'s relay_custody \<Rightarrow> custody_message \<Rightarrow> 's world \<Rightarrow> (string + unit) \<times> 's world" where
  "enforce_storage_pressure_for_write C incoming w =
     and_then (enforce_storage_pressure_internal C (Some incoming) w) (\<lambda>report w.
     case probe_snapshot C w of (probed, w) \<Rightarrow>
       (case probed of
          None \<Rightarrow> (Inr (), w)
        | Some snapshot \<Rightarrow>
            and_then (serialized_record_bytes C incoming, w) (\<lambda>write_bytes w.
            and_then (ok_or (from_snapshot snapshot (pr_scm_bytes_after report)) ''invalid_storage_snapshot'', w) (\<lambda>pc w.
              if emergency_mode (state_for_scm_bytes pc (pr_scm_bytes_after report)) \<and> \<not> is_identity_related C incoming
              then (Inl ''emergency_mode_non_critical_rejected'', w)
              else
                and_then (make_room C sp_target_quota_bytes ''storage_pressure_target_quota'' pc write_bytes (pr_scm_bytes_after report) w)
                  (\<lambda>scm_bytes w.
                and_then (make_room C sp_hard_ceiling_bytes ''storage_pressure_hard_ceiling'' pc write_bytes scm_bytes w) (\<lambda>scm_bytes w.
                  let projected = sat_add scm_bytes write_bytes; state = state_for_scm_bytes pc scm_bytes
                  in if projected > sp_target_quota_bytes state \<or> projected > sp_hard_ceiling_bytes state
                     then (Inl (''storage_pressure_capacity_exceeded: projected='' @ decimal (unat projected) @ '' target='' @
                                decimal (unat (sp_target_quota_bytes state)) @ '' hard_ceiling='' @ decimal (unat (sp_hard_ceiling_bytes state))), w)
                     else (Inr (), w)))))))"

section \<open>Accepting a message\<close>

text \<open>The check of the device, with the reason for the audit trail when the client names no device.\<close>

definition check_device ::
  "'s relay_custody \<Rightarrow> string option \<Rightarrow> string option \<Rightarrow> 's world \<Rightarrow> (string + string) \<times> 's world" where
  "check_device C identity device w =
     (case identity of
        None \<Rightarrow> (Inr ''custody_accepted'', w)
      | Some i \<Rightarrow>
          (case device of
             Some d \<Rightarrow>
               (case enforce_custody (rc_registry C) i d w of
                  (Inl e, w1) \<Rightarrow> (Inl (as_code e), w1)
                | (Inr _, w1) \<Rightarrow> (Inr ''custody_accepted'', w1\<lparr>w_ws13_requests := w_ws13_requests w1 + 1\<rparr>))
           | None \<Rightarrow>
               (Inr (case rc_compat_mode C of PhaseA \<Rightarrow> ''custody_accepted_compat_phase_a'' | PhaseB \<Rightarrow> ''custody_accepted_compat_phase_b''),
                w\<lparr>w_legacy_requests := w_legacy_requests w + 1\<rparr>)))"

definition normalize_device :: "string option \<Rightarrow> string option" where
  "normalize_device device =
     Option.bind device (\<lambda>d. let t = str_trim d in if t = [] then None else Some t)"

definition accept_custody ::
  "'s relay_custody \<Rightarrow> string \<Rightarrow> string \<Rightarrow> string \<Rightarrow> bytes \<Rightarrow> string option \<Rightarrow> string option \<Rightarrow> 's world \<Rightarrow>
   (string + custody_message) \<times> 's world" where
  "accept_custody C source destination relay_message_id envelope_data recipient device w =
     and_then (find_existing C destination relay_message_id w, w) (\<lambda>existing w.
     case existing of
       Some m \<Rightarrow> (Inr m, w)
     | None \<Rightarrow>
         let identity = Option.bind recipient (\<lambda>i. case normalize_lookup_identity (rc_registry C) i w of Inl _ \<Rightarrow> None | Inr x \<Rightarrow> x);
             device' = normalize_device device
         in and_then (check_device C identity device' w) (\<lambda>reason w.
            if length (pending_for_destination C destination (unat (- 1 :: u64)) w) \<ge> MAX_PENDING_PER_DESTINATION
            then (Inl (''custody queue full for destination '' @ destination), w)
            else
              let (now, w) = now_ms w;
                  (sequence, w) = next_sequence w;
                  m = \<lparr>cm_custody_id = relay_message_id @ ''-'' @ decimal (unat now) @ ''-'' @ decimal (unat sequence),
                       cm_relay_message_id = relay_message_id, cm_source_peer_id = source, cm_destination_peer_id = destination,
                       cm_recipient_identity_id = identity, cm_intended_device_id = device', cm_envelope_data = envelope_data,
                       cm_state = Accepted, cm_accepted_at_ms = now, cm_updated_at_ms = now, cm_delivery_attempts = 0\<rparr>
              in and_then (enforce_storage_pressure_for_write C m w) (\<lambda>_ w.
                 and_then (put_message C m w) (\<lambda>_ w.
                 and_then (record_transition C m None Accepted reason w) (\<lambda>_ w. (Inr m, w))))))"

section \<open>Devices\<close>

fun migrate_loop :: "'s relay_custody \<Rightarrow> string \<Rightarrow> string \<Rightarrow> custody_message list \<Rightarrow> nat \<Rightarrow> 's world \<Rightarrow> (string + nat) \<times> 's world" where
  "migrate_loop C to_device_id reason [] n w = (Inr n, w)"
| "migrate_loop C to_device_id reason (m # ms) n w =
     (let (now, w1) = now_ms w; m' = m\<lparr>cm_intended_device_id := Some to_device_id, cm_updated_at_ms := now\<rparr>
      in and_then (put_message C m' w1) (\<lambda>_ w2.
         and_then (record_transition C m' (Some (cm_state m)) (cm_state m) reason w2) (\<lambda>_ w3. migrate_loop C to_device_id reason ms (Suc n) w3)))"

definition migrate_pending_identity_device ::
  "'s relay_custody \<Rightarrow> string \<Rightarrow> string \<Rightarrow> string \<Rightarrow> string \<Rightarrow> 's world \<Rightarrow> (string + nat) \<times> 's world" where
  "migrate_pending_identity_device C identity_id from_device_id to_device_id reason w =
     and_then (normalize_lookup_identity (rc_registry C) identity_id w, w) (\<lambda>identity w.
     case identity of
       None \<Rightarrow> (Inr 0, w)
     | Some i \<Rightarrow>
         and_then (scanned_messages C CUSTODY_MSG_PREFIX w, w) (\<lambda>ms w.
           migrate_loop C to_device_id reason
             (filter (\<lambda>m. cm_state m \<noteq> Delivered \<and> cm_recipient_identity_id m = Some i \<and> cm_intended_device_id m = Some from_device_id) ms) 0 w))"

fun purge_identity_loop :: "'s relay_custody \<Rightarrow> string \<Rightarrow> custody_message list \<Rightarrow> nat \<Rightarrow> 's world \<Rightarrow> (string + nat) \<times> 's world" where
  "purge_identity_loop C reason [] n w = (Inr n, w)"
| "purge_identity_loop C reason (m # ms) n w =
     and_then (record_transition C m (Some (cm_state m)) (cm_state m) reason w) (\<lambda>_ w1.
     and_then (remove_message C (cm_destination_peer_id m) (cm_custody_id m) w1) (\<lambda>_ w2. purge_identity_loop C reason ms (Suc n) w2))"

definition purge_pending_identity_messages ::
  "'s relay_custody \<Rightarrow> string \<Rightarrow> string option \<Rightarrow> string \<Rightarrow> 's world \<Rightarrow> (string + nat) \<times> 's world" where
  "purge_pending_identity_messages C identity_id device reason w =
     and_then (normalize_lookup_identity (rc_registry C) identity_id w, w) (\<lambda>identity w.
     case identity of
       None \<Rightarrow> (Inr 0, w)
     | Some i \<Rightarrow>
         and_then (scanned_messages C CUSTODY_MSG_PREFIX w, w) (\<lambda>ms w.
           purge_identity_loop C reason
             (filter (\<lambda>m. cm_state m \<noteq> Delivered \<and> cm_recipient_identity_id m = Some i \<and>
                (case device of None \<Rightarrow> True | Some d \<Rightarrow> cm_intended_device_id m = Some d)) ms) 0 w))"

definition apply_registry_side_effect :: "'s relay_custody \<Rightarrow> registry_side_effect \<Rightarrow> 's world \<Rightarrow> (string + unit) \<times> 's world" where
  "apply_registry_side_effect C effect w =
     (case effect of
        No_Effect \<Rightarrow> (Inr (), w)
      | Migrate i f t \<Rightarrow> and_then (migrate_pending_identity_device C i f t ''identity_handover_queue_migrated'' w) (\<lambda>_ w. (Inr (), w))
      | Purge i d \<Rightarrow> and_then (purge_pending_identity_messages C i d ''identity_queue_purged'' w) (\<lambda>_ w. (Inr (), w)))"

definition register_identity ::
  "'s relay_custody \<Rightarrow> string \<Rightarrow> string \<Rightarrow> u64 \<Rightarrow> 's world \<Rightarrow> (string + registration_state) \<times> 's world" where
  "register_identity C identity_id device_id seniority w =
     and_then (register (rc_registry C) identity_id device_id seniority w) (\<lambda>outcome w.
     and_then (apply_registry_side_effect C (uo_side_effect outcome) w) (\<lambda>_ w. (Inr (uo_state outcome), w)))"

definition deregister_identity ::
  "'s relay_custody \<Rightarrow> string \<Rightarrow> string \<Rightarrow> string option \<Rightarrow> 's world \<Rightarrow> (string + registration_state) \<times> 's world" where
  "deregister_identity C identity_id from_device_id target w =
     and_then (deregister (rc_registry C) identity_id from_device_id target w) (\<lambda>outcome w.
     and_then (apply_registry_side_effect C (uo_side_effect outcome) w) (\<lambda>_ w. (Inr (uo_state outcome), w)))"

end
