(* ===== verification/Custody_Effects.thy ===== *)
theory Custody_Effects
  imports Custody_Store
begin

text \<open>
  The tables a custody store keeps in its backend (records, audit trail, registrations) and what the primitive operations of
  \<open>Custody_Registry\<close> and \<open>Custody_Store\<close> do to them, over any reliable backend: writing and removing records, recording a
  transition, registering and deregistering a device, scanning.
\<close>

section \<open>Effects on the tables\<close>

lemma apart_custody [simp]:
  "apart CUSTODY_MSG_PREFIX CUSTODY_AUDIT_PREFIX" "apart CUSTODY_AUDIT_PREFIX CUSTODY_MSG_PREFIX"
  "apart REGISTRATION_STATE_PREFIX CUSTODY_MSG_PREFIX" "apart REGISTRATION_AUDIT_PREFIX CUSTODY_MSG_PREFIX"
  "apart REGISTRATION_STATE_PREFIX CUSTODY_AUDIT_PREFIX" "apart REGISTRATION_AUDIT_PREFIX CUSTODY_AUDIT_PREFIX"
  "apart CUSTODY_MSG_PREFIX REGISTRATION_STATE_PREFIX" "apart CUSTODY_AUDIT_PREFIX REGISTRATION_STATE_PREFIX"
  "apart REGISTRATION_AUDIT_PREFIX REGISTRATION_STATE_PREFIX" "apart REGISTRATION_STATE_PREFIX REGISTRATION_AUDIT_PREFIX"
  "apart CUSTODY_MSG_PREFIX REGISTRATION_AUDIT_PREFIX" "apart CUSTODY_AUDIT_PREFIX REGISTRATION_AUDIT_PREFIX"
  by (simp_all add: apart_def CUSTODY_MSG_PREFIX_def CUSTODY_AUDIT_PREFIX_def REGISTRATION_STATE_PREFIX_def REGISTRATION_AUDIT_PREFIX_def)

text \<open>The custody store works on the backend \<open>B\<close>, shared with the registry, and bincode inverts itself.\<close>

definition codec :: "('a \<Rightarrow> string + bytes) \<Rightarrow> (bytes \<Rightarrow> string + 'a) \<Rightarrow> bool" where
  "codec ser de \<longleftrightarrow> (\<forall>x. \<exists>bs. ser x = Inr bs \<and> de bs = Inr x)"

definition hosted_registry :: "'s storage_backend \<Rightarrow> 's relay_registry \<Rightarrow> bool" where
  "hosted_registry B R \<longleftrightarrow> rg_backend R = B \<and> codec (rg_ser_record R) (rg_de_record R) \<and> codec (rg_ser_transition R) (rg_de_transition R)"

definition hosted :: "'s storage_backend \<Rightarrow> 's relay_custody \<Rightarrow> bool" where
  "hosted B C \<longleftrightarrow> rc_backend C = B \<and> codec (rc_ser_message C) (rc_de_message C) \<and> codec (rc_ser_transition C) (rc_de_transition C) \<and>
     hosted_registry B (rc_registry C)"

abbreviation bytes_of :: "('a \<Rightarrow> string + bytes) \<Rightarrow> 'a \<Rightarrow> bytes" where
  "bytes_of ser x \<equiv> projr (ser x)"

lemma codec_ser: "codec ser de \<Longrightarrow> ser x = Inr (bytes_of ser x)"
  by (metis codec_def sum.sel(2))

lemma codec_de: "codec ser de \<Longrightarrow> de (bytes_of ser x) = Inr x"
  by (metis codec_def sum.sel(2))

lemma hostedD:
  "hosted B C \<Longrightarrow> rc_backend C = B" "hosted B C \<Longrightarrow> codec (rc_ser_message C) (rc_de_message C)"
  "hosted B C \<Longrightarrow> codec (rc_ser_transition C) (rc_de_transition C)" "hosted B C \<Longrightarrow> hosted_registry B (rc_registry C)"
  by (simp_all add: hosted_def)

text \<open>Records are stored under their destination, a peer id without underscore, and their custody id.\<close>

definition slot :: "string \<Rightarrow> string \<Rightarrow> string" where
  "slot destination custody_id = destination @ ''_'' @ custody_id"

abbreviation slot_of :: "custody_message \<Rightarrow> string" where
  "slot_of m \<equiv> slot (cm_destination_peer_id m) (cm_custody_id m)"

definition plain_id :: "string \<Rightarrow> bool" where
  "plain_id d \<longleftrightarrow> CHR ''_'' \<notin> set d"

definition keyed :: "(string \<rightharpoonup> custody_message) \<Rightarrow> bool" where
  "keyed M \<longleftrightarrow> (\<forall>i m. M i = Some m \<longrightarrow> i = slot_of m \<and> plain_id (cm_destination_peer_id m))"

lemma custody_key_slot: "as_bytes (custody_key d i) = table_key CUSTODY_MSG_PREFIX (slot d i)"
  by (simp add: custody_key_def destination_prefix_def slot_def table_key_def)

definition audit_slot :: "u64 \<Rightarrow> u64 \<Rightarrow> string \<Rightarrow> custody_state \<Rightarrow> string" where
  "audit_slot at_ms sequence custody_id to_state = padded 20 at_ms @ ''_'' @ padded 6 sequence @ ''_'' @ custody_id @ ''_'' @ custody_state_str to_state"

definition transition_of :: "custody_message \<Rightarrow> custody_state option \<Rightarrow> custody_state \<Rightarrow> string \<Rightarrow> u64 \<Rightarrow> u64 \<Rightarrow> custody_transition" where
  "transition_of m from_state to_state reason at_ms sequence =
     \<lparr>ct_custody_id = cm_custody_id m, ct_relay_message_id = cm_relay_message_id m, ct_source_peer_id = cm_source_peer_id m,
      ct_destination_peer_id = cm_destination_peer_id m, ct_from_state = from_state, ct_to_state = to_state,
      ct_reason = reason, ct_at_ms = at_ms, ct_sequence = sequence\<rparr>"

definition audit_keyed :: "(string \<rightharpoonup> custody_transition) \<Rightarrow> bool" where
  "audit_keyed A \<longleftrightarrow> (\<forall>k t. A k = Some t \<longrightarrow> k = audit_slot (ct_at_ms t) (ct_sequence t) (ct_custody_id t) (ct_to_state t))"

text \<open>The messages \<open>M\<close> in custody, the audit trail \<open>A\<close> and the registrations \<open>G\<close>.\<close>

definition custody_holds ::
  "('s \<Rightarrow> bool) \<Rightarrow> ('s \<Rightarrow> bytes \<rightharpoonup> bytes) \<Rightarrow> 's relay_custody \<Rightarrow> 's world \<Rightarrow> (string \<rightharpoonup> custody_message) \<Rightarrow> (string \<rightharpoonup> custody_transition) \<Rightarrow>
   (string \<rightharpoonup> registration_record) \<Rightarrow> bool" where
  "custody_holds sound entries C w M A G \<longleftrightarrow> sound (w_store w) \<and> keyed M \<and> audit_keyed A \<and>
     table CUSTODY_MSG_PREFIX (bytes_of (rc_ser_message C)) (entries (w_store w)) M \<and>
     table CUSTODY_AUDIT_PREFIX (bytes_of (rc_ser_transition C)) (entries (w_store w)) A \<and>
     table REGISTRATION_STATE_PREFIX (bytes_of (rg_ser_record (rc_registry C))) (entries (w_store w)) G"

text \<open>What an operation does to the clock: it reads it.\<close>

definition later :: "'s world \<Rightarrow> 's world \<Rightarrow> bool" where
  "later w w' \<longleftrightarrow> w_clock w' = w_clock w \<and> w_reads w \<le> w_reads w'"

lemma later_refl [simp]: "later w w"
  by (simp add: later_def)

lemma later_trans: "later w1 w2 \<Longrightarrow> later w2 w3 \<Longrightarrow> later w1 w3"
  by (simp add: later_def)

lemma later_store [simp]: "later w (w\<lparr>w_store := s\<rparr>)" "later w (snd (now_ms w))" "later w (snd (next_sequence w))"
  by (simp_all add: later_def now_ms_def next_sequence_def)

context reliable_backend
begin

lemma w_putE:
  assumes "sound (w_store w)"
  obtains s where "w_put B key v w = (Inr (), w\<lparr>w_store := s\<rparr>)" "sound s" "entries s = (entries (w_store w))(as_bytes key \<mapsto> v)"
proof -
  obtain s where "bk_put B (as_bytes key) v (w_store w) = (Inr (), s)" "sound s" "entries s = (entries (w_store w))(as_bytes key \<mapsto> v)"
    by (rule putE [OF assms])
  then show thesis using that [of s] by (simp add: w_put_def)
qed

lemma w_removeE:
  assumes "sound (w_store w)"
  obtains s where "w_remove B key w = (Inr (), w\<lparr>w_store := s\<rparr>)" "sound s" "entries s = (entries (w_store w))(as_bytes key := None)"
proof -
  obtain s where "bk_remove B (as_bytes key) (w_store w) = (Inr (), s)" "sound s" "entries s = (entries (w_store w))(as_bytes key := None)"
    by (rule removeE [OF assms])
  then show thesis using that [of s] by (simp add: w_remove_def)
qed

lemma w_flushE:
  assumes "sound (w_store w)"
  obtains s where "w_flush B w = (Inr (), w\<lparr>w_store := s\<rparr>)" "sound s" "entries s = entries (w_store w)"
proof -
  obtain s where "bk_flush B (w_store w) = (Inr (), s)" "sound s" "entries s = entries (w_store w)"
    using flush_ok [OF assms] by blast
  then show thesis using that [of s] by (simp add: w_flush_def)
qed

lemma w_get_ok: "sound (w_store w) \<Longrightarrow> w_get B key w = Inr (entries (w_store w) (as_bytes key))"
  by (simp add: w_get_def get_ok)

abbreviation holds :: "'s relay_custody \<Rightarrow> 's world \<Rightarrow> (string \<rightharpoonup> custody_message) \<Rightarrow> (string \<rightharpoonup> custody_transition) \<Rightarrow>
   (string \<rightharpoonup> registration_record) \<Rightarrow> bool" where
  "holds \<equiv> custody_holds sound entries"

lemmas holds_def = custody_holds_def

lemma put_message_ok:
  assumes "hosted B C" and "holds C w M A G" and "plain_id (cm_destination_peer_id m)"
  shows "\<exists>s. put_message C m w = (Inr (), w\<lparr>w_store := s\<rparr>) \<and> holds C (w\<lparr>w_store := s\<rparr>) (M(slot_of m \<mapsto> m)) A G"
proof -
  have w: "sound (w_store w)" using assms(2) by (simp add: holds_def)
  obtain bs where bs: "rc_ser_message C m = Inr bs" using codec_ser [OF hostedD(2) [OF assms(1)]] by blast
  obtain s where s: "w_put B (custody_key (cm_destination_peer_id m) (cm_custody_id m)) (bytes_of (rc_ser_message C) m) w = (Inr (), w\<lparr>w_store := s\<rparr>)"
    "sound s" "entries s = (entries (w_store w))(table_key CUSTODY_MSG_PREFIX (slot_of m) \<mapsto> bytes_of (rc_ser_message C) m)"
    using w_putE [OF w, of "custody_key (cm_destination_peer_id m) (cm_custody_id m)" "bytes_of (rc_ser_message C) m"]
    unfolding custody_key_slot by blast
  obtain s' where s': "w_flush B (w\<lparr>w_store := s\<rparr>) = (Inr (), w\<lparr>w_store := s'\<rparr>)" "sound s'" "entries s' = entries s"
    using w_flushE [of "w\<lparr>w_store := s\<rparr>"] s(2) by simp blast
  have "put_message C m w = (Inr (), w\<lparr>w_store := s'\<rparr>)"
    using s(1) s'(1) hostedD(1) [OF assms(1)] bs by (simp add: put_message_def)
  moreover have "holds C (w\<lparr>w_store := s'\<rparr>) (M(slot_of m \<mapsto> m)) A G"
    using assms(2,3) s' s(3) by (auto simp: holds_def keyed_def intro: table_update table_other)
  ultimately show ?thesis by blast
qed

lemma remove_message_ok:
  assumes "hosted B C" and "holds C w M A G"
  shows "\<exists>s. remove_message C d i w = (Inr (), w\<lparr>w_store := s\<rparr>) \<and> holds C (w\<lparr>w_store := s\<rparr>) (M(slot d i := None)) A G"
proof -
  have w: "sound (w_store w)" using assms(2) by (simp add: holds_def)
  obtain s where s: "w_remove B (custody_key d i) w = (Inr (), w\<lparr>w_store := s\<rparr>)"
    "sound s" "entries s = (entries (w_store w))(table_key CUSTODY_MSG_PREFIX (slot d i) := None)"
    using w_removeE [OF w, of "custody_key d i"] unfolding custody_key_slot by blast
  obtain s' where s': "w_flush B (w\<lparr>w_store := s\<rparr>) = (Inr (), w\<lparr>w_store := s'\<rparr>)" "sound s'" "entries s' = entries s"
    using w_flushE [of "w\<lparr>w_store := s\<rparr>"] s(2) by simp blast
  have "remove_message C d i w = (Inr (), w\<lparr>w_store := s'\<rparr>)"
    using s(1) s'(1) hostedD(1) [OF assms(1)] by (simp add: remove_message_def)
  moreover have "holds C (w\<lparr>w_store := s'\<rparr>) (M(slot d i := None)) A G"
    using assms(2) s' s(3) by (auto simp: holds_def keyed_def intro: table_delete table_other)
  ultimately show ?thesis by blast
qed

lemma record_transition_ok:
  assumes "hosted B C" and "holds C w M A G"
  shows "\<exists>w' ms. record_transition C m f t r w = (Inr (), w') \<and> later w w' \<and>
    holds C w' M (A(audit_slot ms (w_sequence w) (cm_custody_id m) t \<mapsto> transition_of m f t r ms (w_sequence w))) G"
proof -
  let ?ms = "w_clock w (w_reads w)"
  let ?w = "w\<lparr>w_reads := Suc (w_reads w), w_sequence := w_sequence w + 1\<rparr>"
  let ?k = "audit_slot ?ms (w_sequence w) (cm_custody_id m) t" and ?t = "transition_of m f t r ?ms (w_sequence w)"
  have w: "sound (w_store ?w)" using assms(2) by (simp add: holds_def)
  obtain bs where bs: "rc_ser_transition C ?t = Inr bs" using codec_ser [OF hostedD(3) [OF assms(1)]] by blast
  have key: "as_bytes (CUSTODY_AUDIT_PREFIX @ ?k) = table_key CUSTODY_AUDIT_PREFIX ?k" by (simp add: table_key_def)
  obtain s where s: "w_put B (CUSTODY_AUDIT_PREFIX @ ?k) (bytes_of (rc_ser_transition C) ?t) ?w = (Inr (), ?w\<lparr>w_store := s\<rparr>)" "sound s"
    "entries s = (entries (w_store w))(table_key CUSTODY_AUDIT_PREFIX ?k \<mapsto> bytes_of (rc_ser_transition C) ?t)"
    using w_putE [OF w, of "CUSTODY_AUDIT_PREFIX @ ?k" "bytes_of (rc_ser_transition C) ?t"] unfolding key by simp blast
  obtain s' where s': "w_flush B (?w\<lparr>w_store := s\<rparr>) = (Inr (), ?w\<lparr>w_store := s'\<rparr>)" "sound s'" "entries s' = entries s"
    using w_flushE [of "?w\<lparr>w_store := s\<rparr>"] s(2) by simp blast
  have "record_transition C m f t r w = (Inr (), ?w\<lparr>w_store := s'\<rparr>)"
    using s(1) s'(1) hostedD(1) [OF assms(1)] bs
    by (simp add: record_transition_def now_ms_def next_sequence_def transition_of_def audit_slot_def)
  moreover have "holds C (?w\<lparr>w_store := s'\<rparr>) M (A(?k \<mapsto> ?t)) G"
    using assms(2) s' s(3) by (auto simp: holds_def audit_keyed_def transition_of_def intro: table_update table_other)
  ultimately show ?thesis by (intro exI [of _ "?w\<lparr>w_store := s'\<rparr>"] exI [of _ ?ms]) (simp add: later_def)
qed


lemma holds_now: "holds C (snd (now_ms w)) M A G = holds C w M A G" "holds C (snd (next_sequence w)) M A G = holds C w M A G"
  "holds C (w\<lparr>w_ws13_requests := a\<rparr>) M A G = holds C w M A G" "holds C (w\<lparr>w_legacy_requests := a\<rparr>) M A G = holds C w M A G"
  "holds C (w\<lparr>w_reads := n\<rparr>) M A G = holds C w M A G"
  by (simp_all add: holds_def now_ms_def next_sequence_def)

lemma persist_state_ok:
  assumes "hosted B C" and "holds C w M A G"
  shows "\<exists>w'. persist_state (rc_registry C) i f st r u w = (Inr (), w') \<and> later w w' \<and>
    holds C w' M A (G(i \<mapsto> \<lparr>rr_identity_id = i, rr_state = st, rr_updated_at_ms = u\<rparr>))"
proof -
  let ?R = "rc_registry C" and ?rec = "\<lparr>rr_identity_id = i, rr_state = st, rr_updated_at_ms = u\<rparr>"
  have R: "rg_backend ?R = B" "codec (rg_ser_record ?R) (rg_de_record ?R)" "codec (rg_ser_transition ?R) (rg_de_transition ?R)"
    using hostedD(4) [OF assms(1)] by (simp_all add: hosted_registry_def)
  obtain bs where bs: "rg_ser_record ?R ?rec = Inr bs" using codec_ser [OF R(2)] by blast
  have w: "sound (w_store w)" using assms(2) by (simp add: holds_def)
  have key: "as_bytes (registration_key i) = table_key REGISTRATION_STATE_PREFIX i" by (simp add: registration_key_def table_key_def)
  obtain s where s: "w_put B (registration_key i) bs w = (Inr (), w\<lparr>w_store := s\<rparr>)" "sound s"
    "entries s = (entries (w_store w))(table_key REGISTRATION_STATE_PREFIX i \<mapsto> bytes_of (rg_ser_record ?R) ?rec)"
    using w_putE [OF w, of "registration_key i" bs] unfolding key bs by auto
  let ?w = "w\<lparr>w_store := s, w_sequence := w_sequence w + 1\<rparr>"
  let ?t = "\<lparr>rt_identity_id = i, rt_from_state = f, rt_to_state = st, rt_reason = r, rt_at_ms = u, rt_sequence = w_sequence w\<rparr>"
  let ?k = "padded 20 u @ ''_'' @ padded 6 (w_sequence w) @ ''_'' @ i"
  obtain bt where bt: "rg_ser_transition ?R ?t = Inr bt" using codec_ser [OF R(3)] by blast
  have key': "as_bytes (REGISTRATION_AUDIT_PREFIX @ ?k) = table_key REGISTRATION_AUDIT_PREFIX ?k" by (simp add: table_key_def)
  obtain s1 where s1: "w_put B (REGISTRATION_AUDIT_PREFIX @ ?k) bt ?w = (Inr (), ?w\<lparr>w_store := s1\<rparr>)" "sound s1"
    "entries s1 = (entries s)(table_key REGISTRATION_AUDIT_PREFIX ?k \<mapsto> bt)"
    using w_putE [of ?w "REGISTRATION_AUDIT_PREFIX @ ?k" bt] s(2) unfolding key' by auto
  obtain s2 where s2: "w_flush B (?w\<lparr>w_store := s1\<rparr>) = (Inr (), ?w\<lparr>w_store := s2\<rparr>)" "sound s2" "entries s2 = entries s1"
    using w_flushE [of "?w\<lparr>w_store := s1\<rparr>"] s1(2) by auto
  have "persist_state ?R i f st r u w = (Inr (), ?w\<lparr>w_store := s2\<rparr>)"
    using s(1) s1(1) s2(1) R(1) bs bt by (simp add: persist_state_def registry_transition_def next_sequence_def)
  moreover have "holds C (?w\<lparr>w_store := s2\<rparr>) M A (G(i \<mapsto> ?rec))"
    using assms(2) s2 s1(3) s(3) unfolding holds_def by (auto intro!: table_update table_other)
  ultimately show ?thesis by (intro exI [of _ "?w\<lparr>w_store := s2\<rparr>"]) (simp add: later_def)
qed


lemma get_record_ok:
  assumes "hosted B C" and "holds C w M A G"
  shows "\<exists>w' r G'. get_record_by_identity_id (rc_registry C) i w = (Inr r, w') \<and> later w w' \<and> holds C w' M A G' \<and>
    (\<forall>j. j \<noteq> i \<longrightarrow> G' j = G j) \<and>
    (case G i of
       None \<Rightarrow> r = None \<and> w' = w \<and> G' = G
     | Some rec \<Rightarrow>
         if (\<exists>f t a. rr_state rec = Handover f t a \<and> sat_sub (w_clock w (w_reads w)) a > HANDOVER_STALE_COLLAPSE_MS)
         then \<exists>a u v. r = Some \<lparr>rr_identity_id = i, rr_state = Abandoned (from_device (rr_state rec)) a, rr_updated_at_ms = u\<rparr>
              \<and> G' i = Some \<lparr>rr_identity_id = i, rr_state = Abandoned (from_device (rr_state rec)) a, rr_updated_at_ms = v\<rparr>
         else r = Some rec \<and> w_store w' = w_store w \<and> G' = G)"
proof -
  let ?R = "rc_registry C"
  have R: "rg_backend ?R = B" "codec (rg_ser_record ?R) (rg_de_record ?R)"
    using hostedD(4) [OF assms(1)] by (simp_all add: hosted_registry_def)
  have key: "as_bytes (registration_key i) = table_key REGISTRATION_STATE_PREFIX i" by (simp add: registration_key_def table_key_def)
  have get: "w_get B (registration_key i) w = Inr (map_option (bytes_of (rg_ser_record ?R)) (G i))"
    using assms(2) w_get_ok [of w "registration_key i"] unfolding holds_def key by (simp add: tableD)
  show ?thesis
  proof (cases "G i")
    case None
    then show ?thesis using get R(1) assms(2)
      by (intro exI [of _ w] exI [of _ None] exI [of _ G]) (simp add: get_record_by_identity_id_def)
  next
    case (Some rec)
    have de: "rg_de_record ?R (bytes_of (rg_ser_record ?R) rec) = Inr rec" by (rule codec_de [OF R(2)])
    let ?w = "snd (now_ms w)" and ?now = "w_clock w (w_reads w)"
    consider (stale) f t a where "rr_state rec = Handover f t a" "sat_sub ?now a > HANDOVER_STALE_COLLAPSE_MS"
      | (fresh) f t a where "rr_state rec = Handover f t a" "\<not> sat_sub ?now a > HANDOVER_STALE_COLLAPSE_MS"
      | (other) "\<forall>f t a. rr_state rec \<noteq> Handover f t a" by metis
    then show ?thesis
    proof cases
      case stale
      let ?a = "w_clock w (Suc (w_reads w))" and ?u = "w_clock w (Suc (Suc (w_reads w)))"
      let ?w2 = "snd (now_ms (snd (now_ms ?w)))" and ?st = "Abandoned f ?a"
      have "holds C ?w2 M A G" using assms(2) by (simp add: holds_now)
      from persist_state_ok [OF assms(1) this, of i "Some (rr_state rec)" ?st "''registration_handover_stale_timeout''" ?u]
      obtain w3 where w3: "persist_state ?R i (Some (rr_state rec)) ?st ''registration_handover_stale_timeout'' ?u ?w2 = (Inr (), w3)" "later ?w2 w3"
        "holds C w3 M A (G(i \<mapsto> \<lparr>rr_identity_id = i, rr_state = ?st, rr_updated_at_ms = ?u\<rparr>))" by blast
      let ?v = "w_clock w3 (w_reads w3)"
      have "get_record_by_identity_id ?R i w = (Inr (Some \<lparr>rr_identity_id = i, rr_state = ?st, rr_updated_at_ms = ?v\<rparr>), snd (now_ms w3))"
        using get R(1) Some de stale w3(1)
        by (simp add: get_record_by_identity_id_def collapse_handover_def now_ms_def Let_def)
      moreover have "later w (snd (now_ms w3))" using w3(2) by (auto simp: later_def now_ms_def)
      ultimately show ?thesis using stale Some w3(3) by (fastforce simp: holds_now)
    next
      case fresh
      have "get_record_by_identity_id ?R i w = (Inr (Some rec), ?w)"
        using get R(1) Some de fresh by (simp add: get_record_by_identity_id_def now_ms_def)
      then show ?thesis using fresh Some assms(2)
        by (intro exI [of _ ?w] exI [of _ "Some rec"] exI [of _ G]) (simp add: holds_now, simp add: now_ms_def)
    next
      case other
      have "get_record_by_identity_id ?R i w = (Inr (Some rec), w)"
        using get R(1) Some de other by (cases "rr_state rec") (simp_all add: get_record_by_identity_id_def)
      then show ?thesis using other Some assms(2)
        by (intro exI [of _ w] exI [of _ "Some rec"] exI [of _ G]) simp
    qed
  qed
qed

end

section \<open>Registering and deregistering\<close>

context reliable_backend
begin

lemma get_activeE:
  assumes "hosted B C" and "holds C w M A G"
  obtains w' r G' where "get_record_by_identity_id (rc_registry C) i w = (Inr r, w')" "later w w'" "holds C w' M A G'"
    "\<forall>j. j \<noteq> i \<longrightarrow> G' j = G j" "\<And>rec a s. G i = Some rec \<Longrightarrow> rr_state rec = Active a s \<Longrightarrow> r = Some rec \<and> G' = G" "G i = None \<Longrightarrow> r = None"
proof -
  from get_record_ok [OF assms, of i] obtain w' r G' where g: "get_record_by_identity_id (rc_registry C) i w = (Inr r, w')" "later w w'"
    "holds C w' M A G'" "\<forall>j. j \<noteq> i \<longrightarrow> G' j = G j"
    "case G i of None \<Rightarrow> r = None \<and> w' = w \<and> G' = G
     | Some rec \<Rightarrow>
         if (\<exists>f t a. rr_state rec = Handover f t a \<and> sat_sub (w_clock w (w_reads w)) a > HANDOVER_STALE_COLLAPSE_MS)
         then \<exists>a u v. r = Some \<lparr>rr_identity_id = i, rr_state = Abandoned (from_device (rr_state rec)) a, rr_updated_at_ms = u\<rparr>
              \<and> G' i = Some \<lparr>rr_identity_id = i, rr_state = Abandoned (from_device (rr_state rec)) a, rr_updated_at_ms = v\<rparr>
         else r = Some rec \<and> w_store w' = w_store w \<and> G' = G" by blast
  show thesis by (rule that [OF g(1-4)]) (use g(5) in auto)
qed

lemma registration_ok:
  assumes "hosted B C" and "holds C w M A G"
  shows "\<exists>res w' G'. register (rc_registry C) identity device sen w = (res, w') \<and> later w w' \<and> holds C w' M A G' \<and>
    (\<forall>j. normalize_identity_id identity \<noteq> Inr j \<longrightarrow> G' j = G j) \<and>
    (\<forall>i rec a s. normalize_identity_id identity = Inr i \<longrightarrow> G i = Some rec \<longrightarrow> rr_state rec = Active a s \<longrightarrow>
       normalize_uuid_v4 (rc_registry C) device ''registration_device_id_invalid'' \<noteq> Inr a \<longrightarrow>
       sat_sub (w_clock w (w_reads w)) (rr_updated_at_ms rec) \<le> REGISTRATION_STALE_TAKEOVER_MS \<longrightarrow> G' = G \<and> (\<exists>e. res = Inl e))"
proof -
  let ?R = "rc_registry C" and ?e = "''registration_device_id_invalid''"
  let ?now = "w_clock w (w_reads w)"
  consider (bad) e where "register ?R identity device sen w = (Inl e, w)"
    | (good) i d where "normalize_identity_id identity = Inr i" "normalize_uuid_v4 ?R device ?e = Inr d" "sen \<noteq> 0"
    by (cases "normalize_identity_id identity"; cases "normalize_uuid_v4 ?R device ?e"; cases "sen = 0") (auto simp: register_def)
  then show ?thesis
  proof cases
    case bad
    then show ?thesis using assms(2) by (intro exI [of _ "Inl e"] exI [of _ w] exI [of _ G]) simp
  next
    case good
    have "holds C (snd (now_ms w)) M A G" using assms(2) by (simp add: holds_now)
    from get_activeE [OF assms(1) this, of i] obtain w2 r G2 where g: "get_record_by_identity_id ?R i (snd (now_ms w)) = (Inr r, w2)"
      "later (snd (now_ms w)) w2" "holds C w2 M A G2" "\<forall>j. j \<noteq> i \<longrightarrow> G2 j = G j"
      "\<And>rec a s. G i = Some rec \<Longrightarrow> rr_state rec = Active a s \<Longrightarrow> r = Some rec \<and> G2 = G"
      by metis
    have l: "later w w2" using later_trans [OF later_store(2) g(2)] .
    have reg: "register ?R identity device sen w =
        (case register_decision ?now i d sen r of
           Inl e \<Rightarrow> (Inl e, w2)
         | Inr (state, effect, reason) \<Rightarrow>
             and_then (persist_state ?R i (map_option rr_state r) state reason ?now w2) (\<lambda>_ w3.
               (Inr \<lparr>uo_state = state, uo_side_effect = effect\<rparr>, w3)))"
      using good g(1) by (simp add: register_def now_ms_def)
    have keep: "\<exists>e. register_decision ?now i d sen r = Inl e"
      if "G i = Some rec" "rr_state rec = Active a s" "d \<noteq> a" "sat_sub ?now (rr_updated_at_ms rec) \<le> REGISTRATION_STALE_TAKEOVER_MS" for rec a s
      using that g(5) by (simp add: register_decision_def)
    show ?thesis
    proof (cases "register_decision ?now i d sen r")
      case (Inl e)
      then have "register ?R identity device sen w = (Inl e, w2)" using reg by simp
      then show ?thesis using good g l by (intro exI [of _ "Inl e"] exI [of _ w2] exI [of _ G2]) auto
    next
      case (Inr d')
      obtain state effect reason where d': "d' = (state, effect, reason)" by (cases d') auto
      from persist_state_ok [OF assms(1) g(3), of i "map_option rr_state r" state reason ?now] obtain w3 where
        w3: "persist_state ?R i (map_option rr_state r) state reason ?now w2 = (Inr (), w3)" "later w2 w3"
        "holds C w3 M A (G2(i \<mapsto> \<lparr>rr_identity_id = i, rr_state = state, rr_updated_at_ms = ?now\<rparr>))" by blast
      have "register ?R identity device sen w = (Inr \<lparr>uo_state = state, uo_side_effect = effect\<rparr>, w3)"
        using reg Inr d' w3(1) by simp
      moreover have "d = a" if "G i = Some rec" "rr_state rec = Active a s" "sat_sub ?now (rr_updated_at_ms rec) \<le> REGISTRATION_STALE_TAKEOVER_MS" for rec a s
        using keep [OF that(1,2) _ that(3)] Inr by fastforce
      ultimately show ?thesis
        by (intro exI [of _ "Inr \<lparr>uo_state = state, uo_side_effect = effect\<rparr>"] exI [of _ w3]
            exI [of _ "G2(i \<mapsto> \<lparr>rr_identity_id = i, rr_state = state, rr_updated_at_ms = ?now\<rparr>)"])
          (use good g(4) l w3 later_trans in auto)
    qed
  qed
qed

lemma deregister_ok:
  assumes "hosted B C" and "holds C w M A G"
  shows "\<exists>res w' G'. deregister (rc_registry C) identity device target w = (res, w') \<and> later w w' \<and> holds C w' M A G' \<and>
    (\<forall>j. normalize_identity_id identity \<noteq> Inr j \<longrightarrow> G' j = G j) \<and>
    (\<forall>i rec a s. normalize_identity_id identity = Inr i \<longrightarrow> G i = Some rec \<longrightarrow> rr_state rec = Active a s \<longrightarrow>
       (normalize_uuid_v4 (rc_registry C) device ''deregistration_from_device_id_invalid'' \<noteq> Inr a \<longrightarrow> G' = G \<and> (\<exists>e. res = Inl e)) \<and>
       (\<forall>t. normalize_uuid_v4 (rc_registry C) device ''deregistration_from_device_id_invalid'' = Inr a \<longrightarrow>
          normalize_target (rc_registry C) target = Inr t \<longrightarrow> t \<noteq> Some a \<longrightarrow>
          (\<exists>u. let st = (case t of None \<Rightarrow> Abandoned a u | Some b \<Rightarrow> Handover a b u)
               in res = Inr \<lparr>uo_state = st, uo_side_effect = (case t of None \<Rightarrow> Purge i None | Some b \<Rightarrow> Migrate i a b)\<rparr> \<and>
                  G' = G(i \<mapsto> \<lparr>rr_identity_id = i, rr_state = st, rr_updated_at_ms = u\<rparr>))))"
proof -
  let ?R = "rc_registry C" and ?e = "''deregistration_from_device_id_invalid''"
  let ?now = "w_clock w (w_reads w)"
  consider (bad) e where "deregister ?R identity device target w = (Inl e, w)"
      "\<not> (\<exists>i d t. normalize_identity_id identity = Inr i \<and> normalize_uuid_v4 ?R device ?e = Inr d \<and> normalize_target ?R target = Inr t \<and> t \<noteq> Some d)"
    | (good) i d t where "normalize_identity_id identity = Inr i" "normalize_uuid_v4 ?R device ?e = Inr d"
      "normalize_target ?R target = Inr t" "t \<noteq> Some d"
    by (cases "normalize_identity_id identity"; cases "normalize_uuid_v4 ?R device ?e"; cases "normalize_target ?R target")
      (auto simp: deregister_def)
  then show ?thesis
  proof cases
    case bad
    then show ?thesis using assms(2) by (intro exI [of _ "Inl e"] exI [of _ w] exI [of _ G]) auto
  next
    case good
    have "holds C (snd (now_ms w)) M A G" using assms(2) by (simp add: holds_now)
    from get_activeE [OF assms(1) this, of i] obtain w2 r G2 where g: "get_record_by_identity_id ?R i (snd (now_ms w)) = (Inr r, w2)"
      "later (snd (now_ms w)) w2" "holds C w2 M A G2" "\<forall>j. j \<noteq> i \<longrightarrow> G2 j = G j"
      "\<And>rec a s. G i = Some rec \<Longrightarrow> rr_state rec = Active a s \<Longrightarrow> r = Some rec \<and> G2 = G" "G i = None \<Longrightarrow> r = None"
      by metis
    have l: "later w w2" using later_trans [OF later_store(2) g(2)] .
    have reg: "deregister ?R identity device target w =
        (case r of
           None \<Rightarrow> (Inl ''registration_not_found'', w2)
         | Some rec \<Rightarrow>
            (case deregister_decision ?now i d t (rr_state rec) of
               Inl e \<Rightarrow> (Inl e, w2)
             | Inr (state, effect, reason) \<Rightarrow>
                 and_then (persist_state ?R i (Some (rr_state rec)) state reason ?now w2) (\<lambda>_ w3.
                   (Inr \<lparr>uo_state = state, uo_side_effect = effect\<rparr>, w3))))"
      using good g(1) by (simp add: deregister_def now_ms_def)
    show ?thesis
    proof (cases "\<exists>rec state effect reason. r = Some rec \<and> deregister_decision ?now i d t (rr_state rec) = Inr (state, effect, reason)")
      case False
      then obtain e where e: "deregister ?R identity device target w = (Inl e, w2)"
        using reg by (cases r; cases "deregister_decision ?now i d t (rr_state (the r))") (auto split: prod.splits)
      have "d \<noteq> a" if "G i = Some rec" "rr_state rec = Active a s" for rec a s
        using g(5) [OF that] that(2) False by (auto simp: deregister_decision_def split: option.splits)
      then show ?thesis using good g e l by (intro exI [of _ "Inl e"] exI [of _ w2] exI [of _ G2]) auto
    next
      case True
      then obtain rec state effect reason where d: "r = Some rec" "deregister_decision ?now i d t (rr_state rec) = Inr (state, effect, reason)"
        by blast
      from persist_state_ok [OF assms(1) g(3), of i "Some (rr_state rec)" state reason ?now] obtain w3 where
        w3: "persist_state ?R i (Some (rr_state rec)) state reason ?now w2 = (Inr (), w3)" "later w2 w3"
        "holds C w3 M A (G2(i \<mapsto> \<lparr>rr_identity_id = i, rr_state = state, rr_updated_at_ms = ?now\<rparr>))" by blast
      have res: "deregister ?R identity device target w = (Inr \<lparr>uo_state = state, uo_side_effect = effect\<rparr>, w3)"
        using reg d w3(1) by simp
      have act: "d = a \<and> G2 = G \<and> state = (case t of None \<Rightarrow> Abandoned a ?now | Some b \<Rightarrow> Handover a b ?now) \<and>
          effect = (case t of None \<Rightarrow> Purge i None | Some b \<Rightarrow> Migrate i a b)"
        if "G i = Some rec'" "rr_state rec' = Active a s" for rec' a s
        using g(5) [OF that] that(2) d by (auto simp: deregister_decision_def split: if_splits option.splits)
      show ?thesis
        by (rule exI [of _ "Inr \<lparr>uo_state = state, uo_side_effect = effect\<rparr>"], rule exI [of _ w3],
            rule exI [of _ "G2(i \<mapsto> \<lparr>rr_identity_id = i, rr_state = state, rr_updated_at_ms = ?now\<rparr>)"])
          (use good g(4) l w3 res act later_trans in \<open>auto simp: Let_def\<close>)
    qed
  qed
qed

end

section \<open>Scans\<close>

lemma decoded_values:
  "(\<And>k v. (k, v) \<in> set es \<Longrightarrow> \<exists>m. de v = Inr m) \<Longrightarrow> map snd (decoded de es) = map (\<lambda>(k, v). projr (de v)) es"
proof (induction es)
  case (Cons e es)
  obtain k v where e: "e = (k, v)" by fastforce
  obtain m where "de v = Inr m" using Cons.prems [of k v] e by auto
  then show ?case using Cons.IH Cons.prems e by (auto simp: decoded_def map_filter_simps)
qed (simp add: decoded_def map_filter_simps)

lemma slot_eq: "plain_id d \<Longrightarrow> plain_id d' \<Longrightarrow> slot d i = slot d' i' \<longleftrightarrow> d = d' \<and> i = i'"
proof -
  assume "plain_id d" "plain_id d'"
  then have "takeWhile (\<lambda>c. c \<noteq> CHR ''_'') (slot d i) = d" "takeWhile (\<lambda>c. c \<noteq> CHR ''_'') (slot d' i') = d'"
    unfolding slot_def plain_id_def by (subst takeWhile_append2; auto)+
  then show ?thesis by (auto simp: slot_def)
qed

lemma slot_prefix: "plain_id d \<Longrightarrow> plain_id d' \<Longrightarrow> take (length (d @ ''_'')) (slot d' i) = d @ ''_'' \<longleftrightarrow> d' = d"
proof
  assume p: "plain_id d" "plain_id d'" and t: "take (length (d @ ''_'')) (slot d' i) = d @ ''_''"
  then have "slot d' i = d @ ''_'' @ drop (length (d @ ''_'')) (slot d' i)" by (metis append_assoc append_take_drop_id)
  then have "slot d' i = slot d (drop (length (d @ ''_'')) (slot d' i))" by (simp add: slot_def)
  then show "d' = d" using slot_eq p by metis
qed (simp add: slot_def)

context reliable_backend
begin

lemma holds_sound: "holds C w M A G \<Longrightarrow> sound (w_store w)"
  by (simp add: holds_def)

lemma scan_below:
  assumes "hosted B C" and "holds C w M A G"
  shows "\<exists>es. w_scan B (CUSTODY_MSG_PREFIX @ q) w = Inr es \<and> distinct (map fst es) \<and>
    set es = {(table_key CUSTODY_MSG_PREFIX (slot_of m), bytes_of (rc_ser_message C) m) | m. m \<in> ran M \<and> take (length q) (slot_of m) = q}"
proof -
  let ?p = "CUSTODY_MSG_PREFIX"
  obtain es where es: "bk_scan_prefix B (as_bytes (?p @ q)) (w_store w) = Inr es" "distinct (map fst es)"
    "set es = {(k, v). entries (w_store w) k = Some v \<and> starts_with (as_bytes (?p @ q)) k}"
    by (rule scanE [OF holds_sound [OF assms(2)]])
  have pre: "starts_with (as_bytes (?p @ q)) k \<longleftrightarrow> (\<exists>i. k = table_key ?p i \<and> take (length q) i = q)" for k
  proof -
    obtain s where k: "k = as_bytes s" using surj_as_bytes by blast
    have "starts_with (as_bytes (?p @ q)) k \<longleftrightarrow> (\<exists>u. s = (?p @ q) @ u)" unfolding k by (rule starts_with_as_bytes)
    also have "\<dots> \<longleftrightarrow> (\<exists>i. s = ?p @ i \<and> take (length q) i = q)"
    proof
      assume "\<exists>i. s = ?p @ i \<and> take (length q) i = q"
      then obtain i where "s = ?p @ i" "take (length q) i = q" by blast
      then have "s = (?p @ q) @ drop (length q) i" by (metis append_assoc append_take_drop_id)
      then show "\<exists>u. s = (?p @ q) @ u" by blast
    qed auto
    finally show ?thesis unfolding k table_key_def as_bytes_eq .
  qed
  have "set es = {(table_key ?p (slot_of m), bytes_of (rc_ser_message C) m) | m. m \<in> ran M \<and> take (length q) (slot_of m) = q}"
    (is "_ = ?S")
  proof (intro equalityI subsetI)
    fix e assume "e \<in> set es"
    then obtain k v where e: "e = (k, v)" "entries (w_store w) k = Some v" "starts_with (as_bytes (?p @ q)) k" unfolding es(3) by blast
    then obtain i where i: "k = table_key ?p i" "take (length q) i = q" using pre by blast
    have "map_option (bytes_of (rc_ser_message C)) (M i) = Some v"
      using e(2) assms(2) i(1) by (simp add: holds_def table_def)
    then obtain m where "M i = Some m" "v = bytes_of (rc_ser_message C) m" by blast
    moreover have "i = slot_of m" using calculation(1) assms(2) by (simp add: holds_def keyed_def)
    ultimately show "e \<in> ?S" using e(1) i by (auto intro: ranI)
  next
    fix e assume "e \<in> ?S"
    then obtain m where m: "e = (table_key ?p (slot_of m), bytes_of (rc_ser_message C) m)" "m \<in> ran M" "take (length q) (slot_of m) = q" by blast
    then have "M (slot_of m) = Some m" using assms(2) by (auto simp: holds_def keyed_def ran_def)
    then have "entries (w_store w) (table_key ?p (slot_of m)) = Some (bytes_of (rc_ser_message C) m)"
      using assms(2) by (simp add: holds_def table_def)
    then show "e \<in> set es" unfolding es(3) using m pre by blast
  qed
  then show ?thesis using es(1,2) by (simp add: w_scan_def)
qed

lemma scanned_below:
  assumes "hosted B C" and "holds C w M A G"
  shows "\<exists>ms. scanned_messages C (CUSTODY_MSG_PREFIX @ q) w = Inr ms \<and> distinct ms \<and> set ms = {m \<in> ran M. take (length q) (slot_of m) = q}"
proof -
  obtain es where es: "w_scan B (CUSTODY_MSG_PREFIX @ q) w = Inr es" "distinct (map fst es)"
    "set es = {(table_key CUSTODY_MSG_PREFIX (slot_of m), bytes_of (rc_ser_message C) m) | m. m \<in> ran M \<and> take (length q) (slot_of m) = q}"
    using scan_below [OF assms] by blast
  note de = codec_de [OF hostedD(2) [OF assms(1)]]
  let ?f = "\<lambda>(k, v). projr (rc_de_message C v)"
  have "map snd (decoded (rc_de_message C) es) = map ?f es"
  proof (rule decoded_values)
    fix k v assume "(k, v) \<in> set es"
    then obtain m where "v = bytes_of (rc_ser_message C) m" unfolding es(3) by blast
    then show "\<exists>m. rc_de_message C v = Inr m" using de by blast
  qed
  then have "scanned_messages C (CUSTODY_MSG_PREFIX @ q) w = Inr (map ?f es)"
    using es(1) hostedD(1) [OF assms(1)] by (simp add: scanned_messages_def)
  moreover have k: "fst e = table_key CUSTODY_MSG_PREFIX (slot_of (?f e))" if "e \<in> set es" for e
    using that es(3) de by auto
  have "inj_on ?f (set es)"
  proof (rule inj_onI)
    fix e e' assume e: "e \<in> set es" "e' \<in> set es" "?f e = ?f e'"
    then have "fst e = fst e'" using k by simp
    then show "e = e'" using es(2) e(1,2) by (auto simp: distinct_map dest: inj_onD)
  qed
  then have "distinct (map ?f es)" using es(2) by (simp add: distinct_map)
  moreover have "set es = (\<lambda>m. (table_key CUSTODY_MSG_PREFIX (slot_of m), bytes_of (rc_ser_message C) m)) ` {m \<in> ran M. take (length q) (slot_of m) = q}"
    unfolding es(3) by blast
  then have "set (map ?f es) = {m \<in> ran M. take (length q) (slot_of m) = q}" by (simp add: image_image de)
  ultimately show ?thesis by blast
qed

lemma scanned_all:
  assumes "hosted B C" and "holds C w M A G"
  shows "\<exists>ms. scanned_messages C CUSTODY_MSG_PREFIX w = Inr ms \<and> distinct ms \<and> set ms = ran M"
  using scanned_below [OF assms, of "[]"] by simp

lemma scanned_destination:
  assumes "hosted B C" and "holds C w M A G" and "plain_id d"
  shows "\<exists>ms. scanned_messages C (destination_prefix d) w = Inr ms \<and> distinct ms \<and> set ms = {m \<in> ran M. cm_destination_peer_id m = d}"
proof -
  have "take (length (d @ ''_'')) (slot_of m) = d @ ''_'' \<longleftrightarrow> cm_destination_peer_id m = d" if "m \<in> ran M" for m
  proof -
    have "\<exists>i. M i = Some m" using that by (auto simp: ran_def)
    then have "plain_id (cm_destination_peer_id m)" using assms(2) by (auto simp: holds_def keyed_def)
    then show ?thesis by (rule slot_prefix [OF assms(3)])
  qed
  then show ?thesis using scanned_below [OF assms(1,2), of "d @ ''_''"] by (auto simp: destination_prefix_def)
qed

end

end
