(* ===== verification/Custody_Audit.thy ===== *)
theory Custody_Audit
  imports Custody_Effects
begin

text \<open>
  An operation of the custody store is fine when it leaves well-formed tables in which every record it found in custody is still
  there or closed by an entry of the audit trail. The lemmas show this of dispatching, delivery, convergence, purging and the
  enforcement of storage pressure, on every branch including errors.
\<close>

section \<open>The audit trail\<close>

text \<open>An entry that closes the custody of a message: it was delivered or purged.\<close>

definition closing :: "custody_transition \<Rightarrow> bool" where
  "closing t \<longleftrightarrow> ct_to_state t = Delivered \<or>
     ct_reason t \<in> {''storage_pressure_emergency_purged'', ''storage_pressure_target_quota_purged'', ''storage_pressure_hard_ceiling_purged'',
       ''identity_queue_purged''}"

definition in_custody :: "(string \<rightharpoonup> custody_message) \<Rightarrow> string \<Rightarrow> bool" where
  "in_custody M i \<longleftrightarrow> (\<exists>m \<in> ran M. cm_custody_id m = i)"

definition was_closed :: "(string \<rightharpoonup> custody_transition) \<Rightarrow> string \<Rightarrow> bool" where
  "was_closed A i \<longleftrightarrow> (\<exists>t \<in> ran A. ct_custody_id t = i \<and> closing t)"

definition accounted :: "(string \<rightharpoonup> custody_message) \<Rightarrow> (string \<rightharpoonup> custody_transition) \<Rightarrow> (string \<rightharpoonup> custody_message) \<Rightarrow> (string \<rightharpoonup> custody_transition) \<Rightarrow> bool" where
  "accounted M A M' A' \<longleftrightarrow> (\<forall>i. in_custody M i \<or> was_closed A i \<longrightarrow> in_custody M' i \<or> was_closed A' i)"

lemma accounted_refl [simp]: "accounted M A M A"
  by (simp add: accounted_def)

lemma accounted_trans: "accounted M A M1 A1 \<Longrightarrow> accounted M1 A1 M2 A2 \<Longrightarrow> accounted M A M2 A2"
  unfolding accounted_def by blast

lemma padded_plain: "CHR ''_'' \<notin> set (padded n x)"
proof -
  have "CHR ''_'' \<notin> set (decimal k)" for k
    using decimal_digits [of k] by (auto simp: list_all_iff is_digit_def)
  then show ?thesis by (auto simp: padded_def Let_def)
qed

lemma append_underscore:
  assumes "a @ CHR ''_'' # x = b @ CHR ''_'' # y" and "CHR ''_'' \<notin> set a" and "CHR ''_'' \<notin> set b"
  shows "a = b \<and> x = y"
proof -
  have "takeWhile (\<lambda>c. c \<noteq> CHR ''_'') (a @ CHR ''_'' # x) = a" "takeWhile (\<lambda>c. c \<noteq> CHR ''_'') (b @ CHR ''_'' # y) = b"
    using assms(2,3) by (subst takeWhile_append2; auto)+
  then show ?thesis using assms(1) by auto
qed

lemma audit_slot_eq:
  assumes "audit_slot a s i st = audit_slot a' s' i' st'"
  shows "i = i' \<and> st = st'"
proof -
  have "i @ CHR ''_'' # custody_state_str st = i' @ CHR ''_'' # custody_state_str st'"
    using assms append_underscore padded_plain unfolding audit_slot_def by (metis append_Cons append_Nil)
  then have "rev (custody_state_str st) @ CHR ''_'' # rev i = rev (custody_state_str st') @ CHR ''_'' # rev i'"
    by (metis append_Cons append_Nil append_assoc rev.simps(2) rev_append)
  moreover have "CHR ''_'' \<notin> set (rev (custody_state_str x))" for x by (cases x) auto
  ultimately have "rev (custody_state_str st) = rev (custody_state_str st')" "rev i = rev i'" using append_underscore by blast+
  then show ?thesis by (cases st; cases st') auto
qed

lemma closed_overwrite:
  assumes "audit_keyed A" and "was_closed A i" and "\<not> was_closed (A(audit_slot a s j st \<mapsto> t)) i"
  shows "i = j"
proof -
  obtain k t0 where t0: "A k = Some t0" "ct_custody_id t0 = i" "closing t0" using assms(2) by (auto simp: was_closed_def ran_def)
  have "k = audit_slot a s j st"
  proof (rule ccontr)
    assume "k \<noteq> audit_slot a s j st"
    then have "t0 \<in> ran (A(audit_slot a s j st \<mapsto> t))" using t0(1) by (auto simp: ran_def)
    then show False using assms(3) t0 by (auto simp: was_closed_def)
  qed
  then show ?thesis using assms(1) t0(1,2) audit_slot_eq by (metis audit_keyed_def)
qed

lemma accounted_closing:
  assumes "audit_keyed A" and "closing t" and "ct_custody_id t = j"
  shows "accounted M A M (A(audit_slot a s j st \<mapsto> t))" "was_closed (A(audit_slot a s j st \<mapsto> t)) j"
proof -
  have c: "was_closed (A(audit_slot a s j st \<mapsto> t)) j" unfolding was_closed_def by (rule bexI [of _ t]) (use assms in \<open>auto simp: ran_def\<close>)
  then show "accounted M A M (A(audit_slot a s j st \<mapsto> t))"
    unfolding accounted_def using closed_overwrite [OF assms(1)] by blast
  show "was_closed (A(audit_slot a s j st \<mapsto> t)) j" by (rule c)
qed

lemma accounted_open:
  assumes "audit_keyed A" and "in_custody M j"
  shows "accounted M A M (A(audit_slot a s j st \<mapsto> t))"
  unfolding accounted_def using closed_overwrite [OF assms(1)] assms(2) by blast

lemma in_custody_put: "in_custody (M(slot_of m \<mapsto> m)) (cm_custody_id m)"
  unfolding in_custody_def by (rule bexI [of _ m]) (auto simp: ran_def)

lemma accounted_put:
  assumes "keyed M" and "plain_id (cm_destination_peer_id m)"
  shows "accounted M A (M(slot_of m \<mapsto> m)) A"
proof -
  have "in_custody (M(slot_of m \<mapsto> m)) i" if i: "in_custody M i" for i
  proof -
    obtain k m0 where m0: "M k = Some m0" "cm_custody_id m0 = i" using i by (auto simp: in_custody_def ran_def)
    show ?thesis
    proof (cases "k = slot_of m")
      case True
      then have "cm_custody_id m0 = cm_custody_id m" using assms m0(1) slot_eq by (metis keyed_def)
      then show ?thesis using in_custody_put m0(2) by metis
    next
      case False
      then have "m0 \<in> ran (M(slot_of m \<mapsto> m))" using m0(1) by (auto simp: ran_def)
      then show ?thesis using m0(2) by (auto simp: in_custody_def)
    qed
  qed
  then show ?thesis by (auto simp: accounted_def)
qed

lemma accounted_remove:
  assumes "\<And>m. M k = Some m \<Longrightarrow> was_closed A (cm_custody_id m)"
  shows "accounted M A (M(k := None)) A"
proof -
  have "in_custody (M(k := None)) i \<or> was_closed A i" if i: "in_custody M i" for i
  proof -
    obtain j m where m: "M j = Some m" "cm_custody_id m = i" using i by (auto simp: in_custody_def ran_def)
    show ?thesis
    proof (cases "j = k")
      case False
      then have "m \<in> ran (M(k := None))" using m(1) by (auto simp: ran_def)
      then show ?thesis using m(2) by (auto simp: in_custody_def)
    qed (use assms m in auto)
  qed
  then show ?thesis by (auto simp: accounted_def)
qed

context reliable_backend
begin

lemma holdsD: "holds C w M A G \<Longrightarrow> keyed M" "holds C w M A G \<Longrightarrow> audit_keyed A"
  by (simp_all add: holds_def)

text \<open>Close the custody of a record, then remove it.\<close>

lemma close_and_remove:
  assumes "hosted B C" and "holds C w M A G" and "\<And>ms sq. closing (transition_of m f t r ms sq)"
    and "\<And>m0. M (slot d i) = Some m0 \<Longrightarrow> cm_custody_id m0 = cm_custody_id m"
  obtains w1 w2 A' where "record_transition C m f t r w = (Inr (), w1)" "remove_message C d i w1 = (Inr (), w2)" "later w w2"
    "holds C w2 (M(slot d i := None)) A' G" "accounted M A (M(slot d i := None)) A'"
proof -
  obtain w1 ms where w1: "record_transition C m f t r w = (Inr (), w1)" "later w w1"
    "holds C w1 M (A(audit_slot ms (w_sequence w) (cm_custody_id m) t \<mapsto> transition_of m f t r ms (w_sequence w))) G"
    (is "holds C w1 M ?A G")
    using record_transition_ok [OF assms(1,2)] by blast
  obtain s where s: "remove_message C d i w1 = (Inr (), w1\<lparr>w_store := s\<rparr>)" "holds C (w1\<lparr>w_store := s\<rparr>) (M(slot d i := None)) ?A G"
    using remove_message_ok [OF assms(1) w1(3)] by blast
  have id: "ct_custody_id (transition_of m f t r ms (w_sequence w)) = cm_custody_id m" by (simp add: transition_of_def)
  note c = accounted_closing [OF holdsD(2) [OF assms(2)] assms(3) id]
  have "accounted M ?A (M(slot d i := None)) ?A"
  proof (rule accounted_remove)
    fix m0 assume "M (slot d i) = Some m0"
    then have "cm_custody_id m0 = cm_custody_id m" by (rule assms(4))
    then show "was_closed ?A (cm_custody_id m0)" using c(2) by simp
  qed
  with c(1) have "accounted M A (M(slot d i := None)) ?A" by (rule accounted_trans)
  then show thesis by (rule that [OF w1(1) s(1) later_trans [OF w1(2) later_store(1)] s(2)])
qed

lemma update_and_record:
  assumes "hosted B C" and "holds C w M A G" and "plain_id (cm_destination_peer_id m)"
  obtains w1 w2 A' where "put_message C m w = (Inr (), w1)" "record_transition C m f t r w1 = (Inr (), w2)" "later w w2"
    "holds C w2 (M(slot_of m \<mapsto> m)) A' G" "accounted M A (M(slot_of m \<mapsto> m)) A'"
proof -
  obtain s where s: "put_message C m w = (Inr (), w\<lparr>w_store := s\<rparr>)" "holds C (w\<lparr>w_store := s\<rparr>) (M(slot_of m \<mapsto> m)) A G"
    using put_message_ok [OF assms] by blast
  obtain w2 ms where w2: "record_transition C m f t r (w\<lparr>w_store := s\<rparr>) = (Inr (), w2)" "later (w\<lparr>w_store := s\<rparr>) w2"
    "holds C w2 (M(slot_of m \<mapsto> m)) (A(audit_slot ms (w_sequence (w\<lparr>w_store := s\<rparr>)) (cm_custody_id m) t \<mapsto>
       transition_of m f t r ms (w_sequence (w\<lparr>w_store := s\<rparr>)))) G"
    using record_transition_ok [OF assms(1) s(2)] by blast
  have "accounted M A (M(slot_of m \<mapsto> m)) A" by (rule accounted_put [OF holdsD(1) [OF assms(2)] assms(3)])
  from accounted_trans [OF this accounted_open [OF holdsD(2) [OF assms(2)] in_custody_put]]
  show thesis by (rule that [OF s(1) w2(1) later_trans [OF later_store(1) w2(2)] w2(3)])
qed

end

section \<open>Every operation keeps account\<close>

text \<open>From the tables \<open>M\<close>, \<open>A\<close> and \<open>G\<close> an operation reaches tables in which every custody is still open or closed in the trail.\<close>

definition custody_fine ::
  "('s \<Rightarrow> bool) \<Rightarrow> ('s \<Rightarrow> bytes \<rightharpoonup> bytes) \<Rightarrow> 's relay_custody \<Rightarrow> 's world \<Rightarrow> (string \<rightharpoonup> custody_message) \<Rightarrow> (string \<rightharpoonup> custody_transition) \<Rightarrow>
   'r \<times> 's world \<Rightarrow> bool" where
  "custody_fine sound entries C w M A p \<longleftrightarrow> later w (snd p) \<and>
     (\<exists>M' A' G'. custody_holds sound entries C (snd p) M' A' G' \<and> accounted M A M' A')"

context reliable_backend
begin

abbreviation fine :: "'s relay_custody \<Rightarrow> 's world \<Rightarrow> (string \<rightharpoonup> custody_message) \<Rightarrow> (string \<rightharpoonup> custody_transition) \<Rightarrow> 'r \<times> 's world \<Rightarrow> bool" where
  "fine \<equiv> custody_fine sound entries"

lemmas fine_def = custody_fine_def

lemma fine_stay: "holds C w M A G \<Longrightarrow> fine C w M A (r, w)"
  unfolding fine_def by (auto intro: exI [of _ M] exI [of _ A] exI [of _ G] accounted_refl)

lemma fine_trans: "later w w1 \<Longrightarrow> accounted M A M1 A1 \<Longrightarrow> fine C w1 M1 A1 p \<Longrightarrow> fine C w M A p"
  unfolding fine_def using later_trans accounted_trans by blast

lemma fine_bind:
  assumes "fine C w M A p" and "\<And>x w1 M1 A1 G1. p = (Inr x, w1) \<Longrightarrow> holds C w1 M1 A1 G1 \<Longrightarrow> fine C w1 M1 A1 (f x w1)"
  shows "fine C w M A (and_then p f)"
proof -
  obtain r w1 where p: "p = (r, w1)" by fastforce
  obtain M1 A1 G1 where h: "later w w1" "holds C w1 M1 A1 G1" "accounted M A M1 A1" using assms(1) p by (auto simp: fine_def)
  show ?thesis
  proof (cases r)
    case (Inl e)
    then show ?thesis using assms(1) p by (simp add: fine_def)
  next
    case (Inr x)
    then have "fine C w1 M1 A1 (f x w1)" using assms(2) p h(2) by simp
    then have "fine C w M A (f x w1)" by (rule fine_trans [OF h(1,3)])
    then show ?thesis using p Inr by simp
  qed
qed

lemma fine_pure: "holds C w M A G \<Longrightarrow> (\<And>x. r = Inr x \<Longrightarrow> fine C w M A (f x w)) \<Longrightarrow> fine C w M A (and_then (r, w) f)"
  by (cases r) (auto intro: fine_stay)

lemma fine_read: "fine C (w\<lparr>w_reads := n\<rparr>) M A p \<Longrightarrow> w_reads w \<le> n \<Longrightarrow> fine C w M A p"
  unfolding fine_def later_def by auto

lemma fine_now: "fine C (snd (now_ms w)) M A p \<Longrightarrow> fine C w M A p"
  by (rule fine_read [where n = "Suc (w_reads w)"]) (simp_all add: now_ms_def)

lemma fine_sequence: "fine C (snd (next_sequence w)) M A p \<Longrightarrow> fine C w M A p"
  unfolding fine_def later_def by (simp add: next_sequence_def)

lemma require_record_ok:
  assumes "hosted B C" and "holds C w M A G" and "require_record C d i w = Inr m"
  shows "M (slot d i) = Some m"
proof -
  have "w_get B (custody_key d i) w = Inr (map_option (bytes_of (rc_ser_message C)) (M (slot d i)))"
    using w_get_ok [OF holds_sound [OF assms(2)]] assms(2) by (simp add: holds_def table_def custody_key_slot)
  then show ?thesis
    using assms(3) codec_de [OF hostedD(2) [OF assms(1)]] hostedD(1) [OF assms(1)]
    by (cases "M (slot d i)") (auto simp: require_record_def get_message_def)
qed

lemma fine_close:
  assumes "hosted B C" and "holds C w M A G" and "\<And>ms sq. closing (transition_of m f t r ms sq)"
    and "\<And>m0. M (slot d i) = Some m0 \<Longrightarrow> cm_custody_id m0 = cm_custody_id m"
    and "\<And>w1 A1. holds C w1 (M(slot d i := None)) A1 G \<Longrightarrow> fine C w1 (M(slot d i := None)) A1 (g w1)"
  shows "fine C w M A (and_then (record_transition C m f t r w) (\<lambda>_ w1. and_then (remove_message C d i w1) (\<lambda>_ w2. g w2)))"
proof -
  obtain w1 w2 A' where s: "record_transition C m f t r w = (Inr (), w1)" "remove_message C d i w1 = (Inr (), w2)" "later w w2"
    "holds C w2 (M(slot d i := None)) A' G" "accounted M A (M(slot d i := None)) A'"
    by (rule close_and_remove [OF assms(1-4)])
  then show ?thesis using fine_trans [OF s(3,5) assms(5) [OF s(4)]] by simp
qed

lemma fine_update:
  assumes "hosted B C" and "holds C w M A G" and "plain_id (cm_destination_peer_id m)"
    and "\<And>w1 A1. holds C w1 (M(slot_of m \<mapsto> m)) A1 G \<Longrightarrow> fine C w1 (M(slot_of m \<mapsto> m)) A1 (g w1)"
  shows "fine C w M A (and_then (put_message C m w) (\<lambda>_ w1. and_then (record_transition C m f t r w1) (\<lambda>_ w2. g w2)))"
proof -
  obtain w1 w2 A' where s: "put_message C m w = (Inr (), w1)" "record_transition C m f t r w1 = (Inr (), w2)" "later w w2"
    "holds C w2 (M(slot_of m \<mapsto> m)) A' G" "accounted M A (M(slot_of m \<mapsto> m)) A'"
    by (rule update_and_record [OF assms(1-3)])
  then show ?thesis using fine_trans [OF s(3,5) assms(4) [OF s(4)]] by simp
qed

lemma and_then_return: "and_then p (\<lambda>_ w. (Inr (), w)) = p" for p :: "(string + unit) \<times> 's world"
  by (cases p; cases "fst p") auto

lemmas fine_close_last = fine_close [where g = "\<lambda>w. (Inr (), w)", unfolded and_then_return]
lemmas fine_update_last = fine_update [where g = "\<lambda>w. (Inr (), w)", unfolded and_then_return]

lemma mark_dispatching_fine: "hosted B C \<Longrightarrow> holds C w M A G \<Longrightarrow> fine C w M A (mark_dispatching C d i r w)"
  unfolding mark_dispatching_def
proof (rule fine_pure, assumption)
  fix m assume h: "hosted B C" "holds C w M A G" and "require_record C d i w = Inr m"
  then have m: "M (slot d i) = Some m" using require_record_ok by blast
  let ?m = "m\<lparr>cm_state := Dispatching, cm_updated_at_ms := w_clock w (w_reads w), cm_delivery_attempts := sat_add (cm_delivery_attempts m) 1\<rparr>"
  have p: "plain_id (cm_destination_peer_id ?m)" using holdsD(1) [OF h(2)] m by (auto simp: keyed_def)
  have n: "holds C (snd (now_ms w)) M A G" using h(2) by (simp add: holds_now)
  have "fine C w M A (and_then (put_message C ?m (snd (now_ms w))) (\<lambda>_ w2. record_transition C ?m (Some (cm_state m)) Dispatching r w2))"
    by (rule fine_now, rule fine_update_last [OF h(1) n p]) (rule fine_stay)
  then show "fine C w M A
      (if cm_state m = Dispatching then (Inr (), w) else if cm_state m = Delivered then (Inr (), w)
       else if cm_delivery_attempts m \<ge> MAX_CUSTODY_ATTEMPTS then (Inl (''Max delivery attempts (12) exceeded for custody '' @ i), w)
       else let (now, w1) = now_ms w;
             m' = m\<lparr>cm_state := Dispatching, cm_updated_at_ms := now, cm_delivery_attempts := sat_add (cm_delivery_attempts m) 1\<rparr>
         in and_then (put_message C m' w1) (\<lambda>_ w2. record_transition C m' (Some (cm_state m)) Dispatching r w2))"
    by (simp add: now_ms_def Let_def fine_stay [OF h(2)])
qed

lemma mark_dispatch_failed_fine: "hosted B C \<Longrightarrow> holds C w M A G \<Longrightarrow> fine C w M A (mark_dispatch_failed C d i r w)"
  unfolding mark_dispatch_failed_def
proof (rule fine_pure, assumption)
  fix m assume h: "hosted B C" "holds C w M A G" and "require_record C d i w = Inr m"
  then have m: "M (slot d i) = Some m" using require_record_ok by blast
  let ?m = "m\<lparr>cm_state := Accepted, cm_updated_at_ms := w_clock w (w_reads w)\<rparr>"
  have p: "plain_id (cm_destination_peer_id ?m)" using holdsD(1) [OF h(2)] m by (auto simp: keyed_def)
  have n: "holds C (snd (now_ms w)) M A G" using h(2) by (simp add: holds_now)
  have "fine C w M A (and_then (put_message C ?m (snd (now_ms w))) (\<lambda>_ w2. record_transition C ?m (Some (cm_state m)) Accepted r w2))"
    by (rule fine_now, rule fine_update_last [OF h(1) n p]) (rule fine_stay)
  then show "fine C w M A
      (if cm_state m = Accepted then (Inr (), w) else if cm_state m = Delivered then (Inr (), w)
       else let (now, w1) = now_ms w; m' = m\<lparr>cm_state := Accepted, cm_updated_at_ms := now\<rparr>
         in and_then (put_message C m' w1) (\<lambda>_ w2. record_transition C m' (Some (cm_state m)) Accepted r w2))"
    by (simp add: now_ms_def Let_def fine_stay [OF h(2)])
qed

lemma mark_delivered_fine: "hosted B C \<Longrightarrow> holds C w M A G \<Longrightarrow> fine C w M A (mark_delivered C d i r w)"
  unfolding mark_delivered_def
proof (rule fine_pure, assumption)
  fix m assume h: "hosted B C" "holds C w M A G" and "require_record C d i w = Inr m"
  then have m: "M (slot d i) = Some m" using require_record_ok by blast
  let ?m = "m\<lparr>cm_state := Delivered, cm_updated_at_ms := w_clock w (w_reads w)\<rparr>"
  have n: "holds C (snd (now_ms w)) M A G" using h(2) by (simp add: holds_now)
  have "fine C w M A (and_then (record_transition C ?m (Some (cm_state m)) Delivered r (snd (now_ms w))) (\<lambda>_ w2. remove_message C d i w2))"
    by (rule fine_now, rule fine_close_last [OF h(1) n]) (use m in \<open>auto simp: closing_def transition_of_def intro: fine_stay\<close>)
  then show "fine C w M A
      (if cm_state m = Delivered then (Inr (), w)
       else let (now, w1) = now_ms w; m' = m\<lparr>cm_state := Delivered, cm_updated_at_ms := now\<rparr>
         in and_then (record_transition C m' (Some (cm_state m)) Delivered r w1) (\<lambda>_ w2. remove_message C d i w2))"
    by (simp add: now_ms_def Let_def fine_stay [OF h(2)])
qed

end

section \<open>Loops over records\<close>

lemma keyed_ran: "keyed M \<Longrightarrow> m \<in> ran M \<Longrightarrow> M (slot_of m) = Some m"
  by (auto simp: keyed_def ran_def)

lemma keyed_plain: "keyed M \<Longrightarrow> m \<in> ran M \<Longrightarrow> plain_id (cm_destination_peer_id m)"
  by (auto simp: keyed_def ran_def)

lemma keyed_others:
  assumes "keyed M" and "m \<in> ran M" and "set ms \<subseteq> ran M" and "m \<notin> set ms"
  shows "slot_of m \<notin> slot_of ` set ms" "set ms \<subseteq> ran (M(slot_of m := x))"
proof -
  have ne: "slot_of m' \<noteq> slot_of m" if "m' \<in> set ms" for m'
  proof
    assume "slot_of m' = slot_of m"
    then have "m' = m" using keyed_ran [OF assms(1)] assms(2,3) that by (metis option.inject subsetD)
    then show False using that assms(4) by simp
  qed
  show "slot_of m \<notin> slot_of ` set ms"
  proof
    assume "slot_of m \<in> slot_of ` set ms"
    then obtain m' where "m' \<in> set ms" "slot_of m = slot_of m'" by blast
    then show False using ne [of m'] by simp
  qed
  show "set ms \<subseteq> ran (M(slot_of m := x))"
  proof
    fix m' assume "m' \<in> set ms"
    then have "(M(slot_of m := x)) (slot_of m') = Some m'" using ne [of m'] keyed_ran [OF assms(1), of m'] assms(3) by auto
    then show "m' \<in> ran (M(slot_of m := x))" by (rule ranI)
  qed
qed

context reliable_backend
begin

lemma converge_loop_fine:
  "hosted B C \<Longrightarrow> plain_id d \<Longrightarrow> \<forall>m \<in> set ms. cm_destination_peer_id m = d \<Longrightarrow> holds C w M A G \<Longrightarrow> fine C w M A (converge_loop C d r ms n w)"
proof (induction ms arbitrary: n w M A)
  case (Cons m ms)
  let ?m = "m\<lparr>cm_state := Delivered, cm_updated_at_ms := w_clock w (w_reads w)\<rparr>"
  have h: "holds C (snd (now_ms w)) M A G" using Cons.prems(4) by (simp add: holds_now)
  have "fine C w M A (and_then (record_transition C ?m (Some (cm_state m)) Delivered r (snd (now_ms w)))
      (\<lambda>_ w1. and_then (remove_message C d (cm_custody_id m) w1) (\<lambda>_ w2. converge_loop C d r ms (Suc n) w2)))"
  proof (rule fine_now, rule fine_close [OF Cons.prems(1) h])
    fix m0 assume "M (slot d (cm_custody_id m)) = Some m0"
    then show "cm_custody_id m0 = cm_custody_id ?m" using holdsD(1) [OF h] slot_eq Cons.prems(2) unfolding keyed_def by fastforce
  qed (use Cons in \<open>auto simp: closing_def transition_of_def\<close>)
  then show ?case using Cons by (simp add: now_ms_def Let_def)
qed (simp add: fine_stay)

lemma converge_fine:
  assumes "hosted B C" and "holds C w M A G" and "plain_id d"
  shows "fine C w M A (converge_delivered_for_message C d i r w)"
proof -
  obtain ms where ms: "scanned_messages C (destination_prefix d) w = Inr ms" "set ms = {m \<in> ran M. cm_destination_peer_id m = d}"
    using scanned_destination [OF assms] by blast
  show ?thesis
    unfolding converge_delivered_for_message_def ms(1) and_then_simps
    by (rule converge_loop_fine [OF assms(1,3) _ assms(2)]) (use ms(2) in auto)
qed

lemma purge_identity_loop_ok:
  "hosted B C \<Longrightarrow> holds C w M A G \<Longrightarrow> distinct ms \<Longrightarrow> set ms \<subseteq> ran M \<Longrightarrow>
   \<exists>w' A'. purge_identity_loop C ''identity_queue_purged'' ms n w = (Inr (n + length ms), w') \<and> later w w' \<and>
     holds C w' (M |` (- slot_of ` set ms)) A' G \<and> accounted M A (M |` (- slot_of ` set ms)) A'"
proof (induction ms arbitrary: n w M A)
  case Nil
  then show ?case by (auto simp: restrict_map_def intro: exI [of _ A])
next
  case (Cons m ms)
  note k = holdsD(1) [OF Cons.prems(2)]
  have m: "m \<in> ran M" "set ms \<subseteq> ran M" "m \<notin> set ms" and d: "distinct ms" using Cons.prems(3,4) by auto
  have cl: "closing (transition_of m (Some (cm_state m)) (cm_state m) ''identity_queue_purged'' x sq)" for x sq
    by (simp add: closing_def transition_of_def)
  have same: "cm_custody_id m0 = cm_custody_id m" if "M (slot_of m) = Some m0" for m0 using that keyed_ran [OF k m(1)] by simp
  obtain w1 w2 A2 where s: "record_transition C m (Some (cm_state m)) (cm_state m) ''identity_queue_purged'' w = (Inr (), w1)"
    "remove_message C (cm_destination_peer_id m) (cm_custody_id m) w1 = (Inr (), w2)" "later w w2"
    "holds C w2 (M(slot_of m := None)) A2 G" "accounted M A (M(slot_of m := None)) A2"
    by (rule close_and_remove [OF Cons.prems(1,2) cl same])
  have "set ms \<subseteq> ran (M(slot_of m := None))" by (rule keyed_others [OF k m])
  from Cons.IH [OF Cons.prems(1) s(4) d this, of "Suc n"] obtain w' A' where
    w': "purge_identity_loop C ''identity_queue_purged'' ms (Suc n) w2 = (Inr (Suc n + length ms), w')" "later w2 w'"
    "holds C w' (M(slot_of m := None) |` (- slot_of ` set ms)) A' G"
    "accounted (M(slot_of m := None)) A2 (M(slot_of m := None) |` (- slot_of ` set ms)) A'" by blast
  have eq: "M(slot_of m := None) |` (- slot_of ` set ms) = M |` (- slot_of ` set (m # ms))" by (auto simp: restrict_map_def fun_eq_iff)
  show ?case
    using s(1,2) w'(1) later_trans [OF s(3) w'(2)] w'(3) accounted_trans [OF s(5) w'(4)] unfolding eq by (auto intro!: exI [of _ A'])
qed

lemma migrate_loop_ok:
  "hosted B C \<Longrightarrow> holds C w M A G \<Longrightarrow> distinct ms \<Longrightarrow> set ms \<subseteq> ran M \<Longrightarrow>
   \<exists>w' M' A'. migrate_loop C t r ms n w = (Inr (n + length ms), w') \<and> later w w' \<and> holds C w' M' A' G \<and> accounted M A M' A' \<and>
     (\<forall>k. k \<notin> slot_of ` set ms \<longrightarrow> M' k = M k) \<and>
     (\<forall>m \<in> set ms. \<exists>u. M' (slot_of m) = Some (m\<lparr>cm_intended_device_id := Some t, cm_updated_at_ms := u\<rparr>))"
proof (induction ms arbitrary: n w M A)
  case Nil
  then show ?case by (auto intro!: exI [of _ M] exI [of _ A])
next
  case (Cons m ms)
  note k = holdsD(1) [OF Cons.prems(2)]
  have m: "m \<in> ran M" "set ms \<subseteq> ran M" "m \<notin> set ms" and d: "distinct ms" using Cons.prems(3,4) by auto
  let ?m = "m\<lparr>cm_intended_device_id := Some t, cm_updated_at_ms := w_clock w (w_reads w)\<rparr>"
  have h: "holds C (snd (now_ms w)) M A G" using Cons.prems(2) by (simp add: holds_now)
  have p': "plain_id (cm_destination_peer_id ?m)" using keyed_plain [OF k m(1)] by simp
  obtain w1 w2 A2 where s: "put_message C ?m (snd (now_ms w)) = (Inr (), w1)" "record_transition C ?m (Some (cm_state m)) (cm_state m) r w1 = (Inr (), w2)"
    "later (snd (now_ms w)) w2" "holds C w2 (M(slot_of ?m \<mapsto> ?m)) A2 G" "accounted M A (M(slot_of ?m \<mapsto> ?m)) A2"
    by (rule update_and_record [OF Cons.prems(1) h p'])
  have ran: "set ms \<subseteq> ran (M(slot_of ?m \<mapsto> ?m))" using keyed_others(2) [OF k m] by simp
  from Cons.IH [OF Cons.prems(1) s(4) d ran, of "Suc n"] obtain w' M' A' where
    w': "migrate_loop C t r ms (Suc n) w2 = (Inr (Suc n + length ms), w')" "later w2 w'" "holds C w' M' A' G"
    "accounted (M(slot_of ?m \<mapsto> ?m)) A2 M' A'" "\<forall>k. k \<notin> slot_of ` set ms \<longrightarrow> M' k = (M(slot_of ?m \<mapsto> ?m)) k"
    "\<forall>m \<in> set ms. \<exists>u. M' (slot_of m) = Some (m\<lparr>cm_intended_device_id := Some t, cm_updated_at_ms := u\<rparr>)" by blast
  have "slot_of m \<notin> slot_of ` set ms" by (rule keyed_others [OF k m])
  then have "M' (slot_of m) = Some ?m" using w'(5) by simp
  then have "\<forall>m \<in> set (m # ms). \<exists>u. M' (slot_of m) = Some (m\<lparr>cm_intended_device_id := Some t, cm_updated_at_ms := u\<rparr>)"
    using w'(6) by auto
  moreover have "migrate_loop C t r (m # ms) n w = (Inr (n + length (m # ms)), w')"
    using s(1,2) w'(1) by (simp add: now_ms_def Let_def)
  moreover have "later w w'" using later_trans [OF later_store(2) later_trans [OF s(3) w'(2)]] .
  moreover have "\<forall>k. k \<notin> slot_of ` set (m # ms) \<longrightarrow> M' k = M k" using w'(5) by simp
  ultimately show ?case using w'(3) accounted_trans [OF s(5) w'(4)] by blast
qed

end

section \<open>Purging by policy\<close>

abbreviation msg_len :: "'s relay_custody \<Rightarrow> custody_message \<Rightarrow> nat" where
  "msg_len C m \<equiv> length (bytes_of (rc_ser_message C) m)"

abbreviation sized :: "'s relay_custody \<Rightarrow> custody_message \<Rightarrow> custody_message \<times> u64" where
  "sized C m \<equiv> (m, word_of_nat (msg_len C m))"

definition purge_rank :: "'s relay_custody \<Rightarrow> custody_message \<Rightarrow> bool \<times> nat \<times> u64 \<times> string" where
  "purge_rank C m = (is_identity_related C m, delivery_priority m, cm_accepted_at_ms m, cm_custody_id m)"

lemma sorted_purge_order: "sorted (map (\<lambda>c. purge_rank C (fst c)) (purge_order C cs))"
  using sorted_sort_key [of "\<lambda>c. purge_rank C (fst c)" cs] by (simp add: purge_order_def purge_rank_def case_prod_unfold)

text \<open>How many records of a list are purged to free the required bytes.\<close>

fun purge_count :: "(custody_message \<times> u64) list \<Rightarrow> u64 \<Rightarrow> nat" where
  "purge_count [] required = 0"
| "purge_count ((m, sz) # cs) required = (if required = 0 then 0 else Suc (purge_count cs (sat_sub required sz)))"

definition freed :: "(custody_message \<times> u64) list \<Rightarrow> u64 \<Rightarrow> u64" where
  "freed cs b = foldl sat_add b (map snd cs)"

definition purge_reasons :: "string set" where
  "purge_reasons = {''storage_pressure_emergency'', ''storage_pressure_target_quota'', ''storage_pressure_hard_ceiling''}"

lemma closing_purge: "r \<in> purge_reasons \<Longrightarrow> closing (transition_of m f t (r @ ''_purged'') x sq)"
  by (auto simp: purge_reasons_def closing_def transition_of_def)

definition without :: "(string \<rightharpoonup> custody_message) \<Rightarrow> (custody_message \<times> u64) list \<Rightarrow> string \<rightharpoonup> custody_message" where
  "without M cs = M |` (- slot_of ` fst ` set cs)"

lemma without_Nil [simp]: "without M [] = M"
  by (simp add: without_def restrict_map_def)

lemma without_Cons: "without M ((m, sz) # cs) = without (M(slot_of m := None)) cs"
  by (auto simp: without_def restrict_map_def fun_eq_iff)

lemma map_filter_all: "(\<And>x. x \<in> set xs \<Longrightarrow> f x = Some (g x)) \<Longrightarrow> List.map_filter f xs = map g xs"
  by (induction xs) (auto simp: map_filter_simps)

context reliable_backend
begin

lemma load_ok:
  assumes "hosted B C" and "holds C w M A G"
  shows "\<exists>cs. load_stored_records C w = Inr cs \<and> distinct (map fst cs) \<and> set cs = sized C ` ran M"
proof -
  obtain es where es: "w_scan B CUSTODY_MSG_PREFIX w = Inr es" "distinct (map fst es)"
    "set es = {(table_key CUSTODY_MSG_PREFIX (slot_of m), bytes_of (rc_ser_message C) m) | m. m \<in> ran M}"
    using scan_below [OF assms, of "[]"] by auto
  note de = codec_de [OF hostedD(2) [OF assms(1)]]
  let ?g = "\<lambda>(k, v). (projr (rc_de_message C v), word_of_nat (length v) :: u64)"
  let ?f = "\<lambda>(k, v). case rc_de_message C v of Inl _ \<Rightarrow> None | Inr m \<Rightarrow> Some (m, word_of_nat (length v) :: u64)"
  have "List.map_filter ?f es = map ?g es" by (rule map_filter_all) (use es(3) de in auto)
  then have l: "load_stored_records C w = Inr (map ?g es)"
    using es(1) hostedD(1) [OF assms(1)] by (simp add: load_stored_records_def case_prod_unfold)
  have im: "set es = (\<lambda>m. (table_key CUSTODY_MSG_PREFIX (slot_of m), bytes_of (rc_ser_message C) m)) ` ran M" unfolding es(3) by blast
  then have s: "set (map ?g es) = sized C ` ran M" by (simp add: image_image de)
  have k: "fst e = table_key CUSTODY_MSG_PREFIX (slot_of (fst (?g e)))" if "e \<in> set es" for e using that im de by auto
  have "inj_on (fst \<circ> ?g) (set es)"
  proof (rule inj_onI)
    fix e e' assume e: "e \<in> set es" "e' \<in> set es" "(fst \<circ> ?g) e = (fst \<circ> ?g) e'"
    then have "fst e = fst e'" using k by simp
    then show "e = e'" using es(2) e(1,2) by (auto simp: distinct_map dest: inj_onD)
  qed
  then have "distinct (map (fst \<circ> ?g) es)" using es(2) by (simp add: distinct_map)
  then show ?thesis using l s by (simp only: map_map [symmetric]) blast
qed

lemma finite_custody:
  assumes "hosted B C" and "holds C w M A G"
  shows "finite (ran M)"
proof -
  obtain cs where cs: "set cs = sized C ` ran M" using load_ok [OF assms] by blast
  have "finite (sized C ` ran M)" unfolding cs [symmetric] by simp
  then show ?thesis by (rule finite_imageD) (simp add: inj_on_def)
qed

lemma purge_loop_ok:
  "hosted B C \<Longrightarrow> holds C w M A G \<Longrightarrow> r \<in> purge_reasons \<Longrightarrow> distinct (map fst cs) \<Longrightarrow> fst ` set cs \<subseteq> ran M \<Longrightarrow>
   \<exists>w' A'. purge_loop C r cs req n b w = (Inr (n + purge_count cs req, freed (take (purge_count cs req) cs) b), w') \<and> later w w' \<and>
     holds C w' (without M (take (purge_count cs req) cs)) A' G \<and> accounted M A (without M (take (purge_count cs req) cs)) A'"
proof (induction cs arbitrary: req n b w M A)
  case Nil
  then show ?case by (auto simp: freed_def)
next
  case (Cons c cs)
  obtain m sz where c: "c = (m, sz)" by fastforce
  show ?case
  proof (cases "req = 0")
    case True
    then show ?thesis using Cons.prems(2) c by (auto simp: freed_def)
  next
    case False
    note k = holdsD(1) [OF Cons.prems(2)]
    have m: "m \<in> ran M" "set (map fst cs) \<subseteq> ran M" "m \<notin> set (map fst cs)" and d: "distinct (map fst cs)" using Cons.prems(4,5) c by auto
    have same: "cm_custody_id m0 = cm_custody_id m" if "M (slot_of m) = Some m0" for m0 using that keyed_ran [OF k m(1)] by simp
    obtain w1 w2 A2 where s: "record_transition C m (Some (cm_state m)) (cm_state m) (r @ ''_purged'') w = (Inr (), w1)"
      "remove_message C (cm_destination_peer_id m) (cm_custody_id m) w1 = (Inr (), w2)" "later w w2"
      "holds C w2 (M(slot_of m := None)) A2 G" "accounted M A (M(slot_of m := None)) A2"
      by (rule close_and_remove [OF Cons.prems(1,2) closing_purge [OF Cons.prems(3)] same])
    have ran: "fst ` set cs \<subseteq> ran (M(slot_of m := None))" using keyed_others(2) [OF k m] by simp
    let ?k = "purge_count cs (sat_sub req sz)"
    obtain w' A' where w': "purge_loop C r cs (sat_sub req sz) (Suc n) (sat_add b sz) w2 = (Inr (Suc n + ?k, freed (take ?k cs) (sat_add b sz)), w')"
      "later w2 w'" "holds C w' (without (M(slot_of m := None)) (take ?k cs)) A' G"
      "accounted (M(slot_of m := None)) A2 (without (M(slot_of m := None)) (take ?k cs)) A'"
      using Cons.IH [OF Cons.prems(1) s(4) Cons.prems(3) d ran, of "sat_sub req sz" "Suc n" "sat_add b sz"] by blast
    have e: "without (M(slot_of m := None)) (take ?k cs) = without M (take (purge_count (c # cs) req) (c # cs))"
      using False c by (simp add: without_Cons)
    have "purge_loop C r (c # cs) req n b w =
        (Inr (n + purge_count (c # cs) req, freed (take (purge_count (c # cs) req) (c # cs)) b), w')"
      using s(1,2) w'(1) False c by (simp add: freed_def)
    then show ?thesis using later_trans [OF s(3) w'(2)] w'(3) accounted_trans [OF s(5) w'(4)] unfolding e by blast
  qed
qed

lemma purge_oldest_ok:
  assumes "hosted B C" and "holds C w M A G" and "r \<in> purge_reasons"
  obtains cs w' A' where "distinct (map fst cs)" "set cs = sized C ` ran M" "sorted (map (\<lambda>c. purge_rank C (fst c)) cs)"
    "purge_oldest_by_policy C req r w = (Inr (purge_count cs req, freed (take (purge_count cs req) cs) 0), w')" "later w w'"
    "holds C w' (without M (take (purge_count cs req) cs)) A' G" "accounted M A (without M (take (purge_count cs req) cs)) A'"
proof -
  obtain cs where cs: "load_stored_records C w = Inr cs" "distinct (map fst cs)" "set cs = sized C ` ran M"
    using load_ok [OF assms(1,2)] by blast
  let ?cs = "purge_order C cs"
  have ord: "set ?cs = set cs" "distinct (map fst ?cs)" "sorted (map (\<lambda>c. purge_rank C (fst c)) ?cs)"
  proof -
    show "set ?cs = set cs" by (simp add: purge_order_def)
    show "sorted (map (\<lambda>c. purge_rank C (fst c)) ?cs)" by (rule sorted_purge_order)
    have "mset (map fst ?cs) = mset (map fst cs)" by (simp add: purge_order_def)
    then show "distinct (map fst ?cs)" using cs(2) by (metis mset_eq_imp_distinct_iff)
  qed
  have ran: "fst ` set ?cs \<subseteq> ran M" using ord(1) cs(3) by auto
  show thesis
  proof (cases "req = 0")
    case True
    have z: "purge_count ?cs 0 = 0" by (cases ?cs) auto
    show thesis by (rule that [of ?cs w A]) (use ord cs(3) True z assms(2) in \<open>simp_all add: purge_oldest_by_policy_def freed_def\<close>)
  next
    case False
    obtain w' A' where "purge_loop C r ?cs req 0 0 w = (Inr (0 + purge_count ?cs req, freed (take (purge_count ?cs req) ?cs) 0), w')" "later w w'"
      "holds C w' (without M (take (purge_count ?cs req) ?cs)) A' G" "accounted M A (without M (take (purge_count ?cs req) ?cs)) A'"
      using purge_loop_ok [OF assms ord(2) ran] by blast
    then show thesis using that [of ?cs w' A'] ord cs(1,3) False by (simp add: purge_oldest_by_policy_def)
  qed
qed

lemma purge_oldest_fine: "hosted B C \<Longrightarrow> holds C w M A G \<Longrightarrow> r \<in> purge_reasons \<Longrightarrow> fine C w M A (purge_oldest_by_policy C req r w)"
  by (rule purge_oldest_ok [of C w M A G r req]) (auto simp: fine_def)

end

section \<open>Quotas, acceptance and devices keep account\<close>

context reliable_backend
begin

lemma fine_probe: "(\<And>x. fine C (w\<lparr>w_reads := Suc (w_reads w)\<rparr>) M A (f x (w\<lparr>w_reads := Suc (w_reads w)\<rparr>))) \<Longrightarrow>
    fine C w M A (case probe_snapshot C w of (x, w1) \<Rightarrow> f x w1)"
  by (simp add: probe_snapshot_def) (rule fine_read, assumption, simp)

lemma pressure_purge_fine:
  assumes "hosted B C" and "holds C w M A G" and "r \<in> purge_reasons"
  shows "fine C w M A (pressure_purge C req r report n w)"
  unfolding pressure_purge_def
  by (auto intro!: fine_stay [OF assms(2)] fine_bind [OF purge_oldest_fine [OF assms]] intro: fine_stay)

lemma pressure_internal_fine:
  assumes "hosted B C" and "holds C w M A G"
  shows "fine C w M A (enforce_storage_pressure_internal C incoming w)"
  unfolding enforce_storage_pressure_internal_def
proof (rule fine_pure [OF assms(2)], rule fine_probe)
  fix scm probed
  let ?w = "w\<lparr>w_reads := Suc (w_reads w)\<rparr>"
  have h: "holds C ?w M A G" using assms(2) by (simp add: holds_now)
  show "fine C ?w M A (and_then (ok_or (case probed of Some s \<Rightarrow> Some s | None \<Rightarrow> synthetic_storage_snapshot (rc_env C) scm)
      ''invalid_storage_snapshot'', ?w) (\<lambda>snapshot w.
     and_then (ok_or (from_snapshot snapshot scm) ''invalid_storage_snapshot'', w) (\<lambda>pc w.
       let state = state_for_scm_bytes pc scm;
           report = \<lparr>pr_emergency_mode = emergency_mode state, pr_hard_ceiling_bytes = sp_hard_ceiling_bytes state,
                     pr_target_quota_bytes = sp_target_quota_bytes state, pr_scm_bytes_before = scm, pr_scm_bytes_after = scm,
                     pr_purged_records = 0, pr_purged_bytes = 0\<rparr>
       in if emergency_mode state \<and> (case incoming of None \<Rightarrow> False | Some m \<Rightarrow> \<not> is_identity_related C m) then
            and_then (pressure_purge C (sat_sub scm (sp_hard_ceiling_bytes state)) ''storage_pressure_emergency'' report scm w)
              (\<lambda>(report, scm_bytes) w. (Inr (report\<lparr>pr_scm_bytes_after := scm_bytes\<rparr>), w))
          else
            and_then (pressure_purge C (sat_sub scm (sp_target_quota_bytes state)) ''storage_pressure_target_quota'' report scm w)
              (\<lambda>(report, scm_bytes) w.
            let state = state_for_scm_bytes pc scm_bytes
            in and_then (pressure_purge C (sat_sub scm_bytes (sp_hard_ceiling_bytes state)) ''storage_pressure_hard_ceiling'' report scm_bytes w)
              (\<lambda>(report, scm_bytes) w.
            let state = state_for_scm_bytes pc scm_bytes
            in (Inr (report\<lparr>pr_scm_bytes_after := scm_bytes, pr_target_quota_bytes := sp_target_quota_bytes state,
                            pr_hard_ceiling_bytes := sp_hard_ceiling_bytes state, pr_emergency_mode := emergency_mode state\<rparr>), w))))))"
    unfolding Let_def
    by (intro fine_pure [OF h]) (auto simp: purge_reasons_def intro!: fine_bind [OF pressure_purge_fine [OF assms(1)]] intro: h fine_stay)
qed

lemma make_room_fine:
  assumes "hosted B C" and "holds C w M A G" and "r \<in> purge_reasons"
  shows "fine C w M A (make_room C limit r pc n scm w)"
  unfolding make_room_def Let_def
  by (auto intro!: fine_stay [OF assms(2)] fine_bind [OF purge_oldest_fine [OF assms]] intro: fine_stay)

lemma pressure_write_fine:
  assumes "hosted B C" and "holds C w M A G"
  shows "fine C w M A (enforce_storage_pressure_for_write C m w)"
  unfolding enforce_storage_pressure_for_write_def
proof (rule fine_bind [OF pressure_internal_fine [OF assms]], rule fine_probe)
  fix report w1 M1 A1 G1 probed
  assume "holds C w1 M1 A1 G1"
  let ?w = "w1\<lparr>w_reads := Suc (w_reads w1)\<rparr>"
  have h: "holds C ?w M1 A1 G1" using \<open>holds C w1 M1 A1 G1\<close> by (simp add: holds_now)
  have r: "''storage_pressure_target_quota'' \<in> purge_reasons" "''storage_pressure_hard_ceiling'' \<in> purge_reasons" by (simp_all add: purge_reasons_def)
  show "fine C ?w M1 A1 (case probed of
          None \<Rightarrow> (Inr (), ?w)
        | Some snapshot \<Rightarrow>
            and_then (serialized_record_bytes C m, ?w) (\<lambda>write_bytes w.
            and_then (ok_or (from_snapshot snapshot (pr_scm_bytes_after report)) ''invalid_storage_snapshot'', w) (\<lambda>pc w.
              if emergency_mode (state_for_scm_bytes pc (pr_scm_bytes_after report)) \<and> \<not> is_identity_related C m
              then (Inl ''emergency_mode_non_critical_rejected'', w)
              else
                and_then (make_room C sp_target_quota_bytes ''storage_pressure_target_quota'' pc write_bytes (pr_scm_bytes_after report) w)
                  (\<lambda>scm_bytes w.
                and_then (make_room C sp_hard_ceiling_bytes ''storage_pressure_hard_ceiling'' pc write_bytes scm_bytes w) (\<lambda>scm_bytes w.
                  let projected = sat_add scm_bytes write_bytes; state = state_for_scm_bytes pc scm_bytes
                  in if projected > sp_target_quota_bytes state \<or> projected > sp_hard_ceiling_bytes state
                     then (Inl (''storage_pressure_capacity_exceeded: projected='' @ decimal (unat projected) @ '' target='' @
                                decimal (unat (sp_target_quota_bytes state)) @ '' hard_ceiling='' @ decimal (unat (sp_hard_ceiling_bytes state))), w)
                     else (Inr (), w))))))"
    unfolding Let_def
    by (cases probed; simp only: option.case)
      (intro fine_stay [OF h] fine_pure [OF h] | rule fine_stay [OF h] fine_bind [OF make_room_fine [OF assms(1) h r(1)]]
        fine_bind [OF make_room_fine [OF assms(1) _ r(2)]] | auto intro: fine_stay split: if_split)+
qed

end

end
