(* ===== verification/Custody_Duty.thy ===== *)
theory Custody_Duty
  imports Custody_Audit
begin

text \<open>
  The remaining operations (acceptance, registration and deregistration with their effect on the queue), runs of operations, and the
  properties of a relay: nothing in custody is lost silently, the purge follows the policy, the queue of an identity follows its
  devices, and a fresh device keeps its identity.
\<close>

definition owed :: "(string \<rightharpoonup> custody_message) \<Rightarrow> string \<Rightarrow> string option \<Rightarrow> custody_message set" where
  "owed M i device = {m \<in> ran M. cm_state m \<noteq> Delivered \<and> cm_recipient_identity_id m = Some i \<and>
     (case device of None \<Rightarrow> True | Some d \<Rightarrow> cm_intended_device_id m = Some d)}"

context reliable_backend
begin

lemma fineI: "later w w' \<Longrightarrow> holds C w' M' A' G' \<Longrightarrow> accounted M A M' A' \<Longrightarrow> fine C w M A (r, w')"
  unfolding fine_def by auto

lemma get_state_keeps:
  assumes "hosted B C" and "holds C w M A G"
  shows "\<exists>r w' G'. registry_get_state (rc_registry C) i w = (r, w') \<and> later w w' \<and> holds C w' M A G'"
proof (cases "normalize_lookup_identity (rc_registry C) i w")
  case (Inl e)
  then show ?thesis using assms(2) by (auto simp: registry_get_state_def)
next
  case (Inr x)
  show ?thesis
  proof (cases x)
    case None
    then show ?thesis using Inr assms(2) by (auto simp: registry_get_state_def)
  next
    case (Some j)
    obtain w' r G' where "get_record_by_identity_id (rc_registry C) j w = (Inr r, w')" "later w w'" "holds C w' M A G'"
      by (rule get_activeE [OF assms])
    then show ?thesis using Inr Some by (auto simp: registry_get_state_def)
  qed
qed

lemma enforce_keeps:
  assumes "hosted B C" and "holds C w M A G"
  shows "\<exists>r w' G'. enforce_custody (rc_registry C) i d w = (r, w') \<and> later w w' \<and> holds C w' M A G'"
proof -
  let ?R = "rc_registry C"
  consider (no) "enforce_custody ?R i d w = (Inl NoRegistration, w)"
    | (yes) j d' where "normalize_lookup_identity ?R i w = Inr (Some j)" "normalize_uuid_v4 ?R d ''registration_device_id_invalid'' = Inr d'"
    by (cases "normalize_lookup_identity ?R i w"; cases "projr (normalize_lookup_identity ?R i w)";
        cases "normalize_uuid_v4 ?R d ''registration_device_id_invalid''") (auto simp: enforce_custody_def)
  then show ?thesis
  proof cases
    case no
    then show ?thesis using assms(2) by auto
  next
    case yes
    obtain r w' G' where g: "registry_get_state ?R j w = (r, w')" "later w w'" "holds C w' M A G'"
      using get_state_keeps [OF assms] by blast
    then show ?thesis using yes by (simp add: enforce_custody_def) blast
  qed
qed

lemma check_device_fine:
  assumes "hosted B C" and "holds C w M A G"
  shows "fine C w M A (check_device C identity device w)"
proof (cases identity)
  case None
  then show ?thesis using assms(2) by (simp add: check_device_def fine_stay)
next
  case (Some i)
  show ?thesis
  proof (cases device)
    case None
    have "holds C (w\<lparr>w_legacy_requests := w_legacy_requests w + 1\<rparr>) M A G" using assms(2) by (simp add: holds_now)
    then show ?thesis using None Some by (simp add: check_device_def) (rule fineI [OF _ _ accounted_refl], simp_all add: later_def)
  next
    case (Some d)
    obtain r w' G' where g: "enforce_custody (rc_registry C) i d w = (r, w')" "later w w'" "holds C w' M A G'"
      using enforce_keeps [OF assms] by blast
    have "holds C (w'\<lparr>w_ws13_requests := w_ws13_requests w' + 1\<rparr>) M A G'" using g(3) by (simp add: holds_now)
    then have "fine C w M A (q, w'\<lparr>w_ws13_requests := w_ws13_requests w' + 1\<rparr>)" for q :: "string + string"
      by (rule fineI [rotated]) (use g(2) in \<open>simp_all add: later_def\<close>)
    then show ?thesis using \<open>identity = Some i\<close> Some g(1) by (cases r) (simp_all add: check_device_def fineI [OF g(2,3) accounted_refl])
  qed
qed

lemma if_cases_fine: "fine C w M A p \<Longrightarrow> fine C w M A q \<Longrightarrow> fine C w M A (if b then p else q)"
  by simp

lemma accept_new_fine:
  assumes "hosted B C" and "holds C w M A G" and "plain_id (cm_destination_peer_id m)"
  shows "fine C w M A (and_then (enforce_storage_pressure_for_write C m w) (\<lambda>_ w.
           and_then (put_message C m w) (\<lambda>_ w. and_then (record_transition C m None Accepted reason w) (\<lambda>_ w. (Inr m, w)))))"
proof (rule fine_bind [OF pressure_write_fine [OF assms(1,2)]])
  fix u w1 M1 A1 G1 assume h: "holds C w1 M1 A1 G1"
  show "fine C w1 M1 A1 (and_then (put_message C m w1) (\<lambda>_ w. and_then (record_transition C m None Accepted reason w) (\<lambda>_ w. (Inr m, w))))"
    by (rule fine_update [OF assms(1) h assms(3)]) (rule fine_stay)
qed

lemma accept_fine:
  assumes "hosted B C" and "holds C w M A G" and "plain_id d"
  shows "fine C w M A (accept_custody C s d i data recipient device w)"
  unfolding accept_custody_def
proof (rule fine_pure [OF assms(2)])
  fix existing
  let ?identity = "Option.bind recipient (\<lambda>i. case normalize_lookup_identity (rc_registry C) i w of Inl _ \<Rightarrow> None | Inr x \<Rightarrow> x)"
  let ?m = "\<lambda>now sequence. \<lparr>cm_custody_id = i @ ''-'' @ decimal (unat now) @ ''-'' @ decimal (unat sequence),
              cm_relay_message_id = i, cm_source_peer_id = s, cm_destination_peer_id = d,
              cm_recipient_identity_id = ?identity, cm_intended_device_id = normalize_device device, cm_envelope_data = data,
              cm_state = Accepted, cm_accepted_at_ms = now, cm_updated_at_ms = now, cm_delivery_attempts = 0\<rparr>"
  let ?go = "\<lambda>reason now sequence w. and_then (enforce_storage_pressure_for_write C (?m now sequence) w) (\<lambda>_ w.
           and_then (put_message C (?m now sequence) w) (\<lambda>_ w.
           and_then (record_transition C (?m now sequence) None Accepted reason w) (\<lambda>_ w. (Inr (?m now sequence), w))))"
  have go: "fine C w1 M1 A1 (?go reason (fst (now_ms w1)) (fst (next_sequence (snd (now_ms w1)))) (snd (next_sequence (snd (now_ms w1)))))"
    if "holds C w1 M1 A1 G1" for reason w1 M1 A1 G1
    by (rule fine_now [OF fine_sequence [OF accept_new_fine [OF assms(1), where G = G1]]]) (use that assms(3) in \<open>simp_all add: holds_now\<close>)
  have "fine C w M A (and_then (check_device C ?identity (normalize_device device) w) (\<lambda>reason w.
            if length (pending_for_destination C d (unat (- 1 :: u64)) w) \<ge> MAX_PENDING_PER_DESTINATION
            then (Inl (''custody queue full for destination '' @ d), w)
            else ?go reason (fst (now_ms w)) (fst (next_sequence (snd (now_ms w)))) (snd (next_sequence (snd (now_ms w))))))"
    by (rule fine_bind [OF check_device_fine [OF assms(1,2)]]) (rule if_cases_fine, erule fine_stay, erule go)
  then show "fine C w M A (case existing of
       Some m \<Rightarrow> (Inr m, w)
     | None \<Rightarrow>
         let identity = ?identity; device' = normalize_device device
         in and_then (check_device C identity device' w) (\<lambda>reason w.
            if length (pending_for_destination C d (unat (- 1 :: u64)) w) \<ge> MAX_PENDING_PER_DESTINATION
            then (Inl (''custody queue full for destination '' @ d), w)
            else
              let (now, w) = now_ms w;
                  (sequence, w) = next_sequence w;
                  m = \<lparr>cm_custody_id = i @ ''-'' @ decimal (unat now) @ ''-'' @ decimal (unat sequence),
                       cm_relay_message_id = i, cm_source_peer_id = s, cm_destination_peer_id = d,
                       cm_recipient_identity_id = identity, cm_intended_device_id = device', cm_envelope_data = data,
                       cm_state = Accepted, cm_accepted_at_ms = now, cm_updated_at_ms = now, cm_delivery_attempts = 0\<rparr>
              in and_then (enforce_storage_pressure_for_write C m w) (\<lambda>_ w.
                 and_then (put_message C m w) (\<lambda>_ w.
                 and_then (record_transition C m None Accepted reason w) (\<lambda>_ w. (Inr m, w))))))"
    unfolding Let_def case_prod_unfold by (cases existing) (simp_all only: option.case fine_stay [OF assms(2)])
qed

lemma migrate_exact:
  assumes "hosted B C" and "holds C w M A G" and "normalize_lookup_identity (rc_registry C) i w = Inr (Some j)"
  shows "\<exists>n w' M' A'. migrate_pending_identity_device C i f t r w = (Inr n, w') \<and> later w w' \<and> holds C w' M' A' G \<and> accounted M A M' A' \<and>
     (\<forall>k. k \<notin> slot_of ` owed M j (Some f) \<longrightarrow> M' k = M k) \<and>
     (\<forall>m \<in> owed M j (Some f). \<exists>u. M' (slot_of m) = Some (m\<lparr>cm_intended_device_id := Some t, cm_updated_at_ms := u\<rparr>))"
proof -
  obtain ms where ms: "scanned_messages C CUSTODY_MSG_PREFIX w = Inr ms" "distinct ms" "set ms = ran M"
    using scanned_all [OF assms(1,2)] by blast
  let ?ms = "filter (\<lambda>m. cm_state m \<noteq> Delivered \<and> cm_recipient_identity_id m = Some j \<and> cm_intended_device_id m = Some f) ms"
  have s: "set ?ms = owed M j (Some f)" "set ?ms \<subseteq> ran M" using ms(3) by (auto simp: owed_def)
  show ?thesis
    using migrate_loop_ok [OF assms(1,2) distinct_filter [OF ms(2)] s(2), of t r 0] ms(1) assms(3)
    by (simp add: migrate_pending_identity_device_def s(1) del: set_filter) blast
qed

lemma purge_exact:
  assumes "hosted B C" and "holds C w M A G" and "normalize_lookup_identity (rc_registry C) i w = Inr (Some j)"
  shows "\<exists>n w' A'. purge_pending_identity_messages C i d ''identity_queue_purged'' w = (Inr n, w') \<and> later w w' \<and>
     holds C w' (M |` (- slot_of ` owed M j d)) A' G \<and> accounted M A (M |` (- slot_of ` owed M j d)) A'"
proof -
  obtain ms where ms: "scanned_messages C CUSTODY_MSG_PREFIX w = Inr ms" "distinct ms" "set ms = ran M"
    using scanned_all [OF assms(1,2)] by blast
  let ?ms = "filter (\<lambda>m. cm_state m \<noteq> Delivered \<and> cm_recipient_identity_id m = Some j \<and>
               (case d of None \<Rightarrow> True | Some d \<Rightarrow> cm_intended_device_id m = Some d)) ms"
  have s: "set ?ms = owed M j d" "set ?ms \<subseteq> ran M" using ms(3) by (auto simp: owed_def)
  show ?thesis
    using purge_identity_loop_ok [OF assms(1,2) distinct_filter [OF ms(2)] s(2), of 0] ms(1) assms(3)
    by (simp add: purge_pending_identity_messages_def s(1) del: set_filter) blast
qed

lemma no_identity_stays:
  assumes "\<nexists>j. normalize_lookup_identity (rc_registry C) i w = Inr (Some j)"
  shows "\<exists>q. migrate_pending_identity_device C i f t r w = (q, w)" and "\<exists>q. purge_pending_identity_messages C i d r w = (q, w)"
  using assms unfolding migrate_pending_identity_device_def purge_pending_identity_messages_def
  by (cases "normalize_lookup_identity (rc_registry C) i w"; cases "projr (normalize_lookup_identity (rc_registry C) i w)"; auto)+

lemma side_effect_ok:
  assumes "hosted B C" and "holds C w M A G"
  shows "\<exists>r w' M' A'. apply_registry_side_effect C effect w = (r, w') \<and> later w w' \<and> holds C w' M' A' G \<and> accounted M A M' A'"
proof -
  let ?ok = "\<lambda>p. \<exists>r w' M' A'. p = (r, w') \<and> later w w' \<and> holds C w' M' A' G \<and> accounted M A M' A'"
  have stay: "?ok (q, w)" for q :: "string + 'x" using assms(2) accounted_refl later_refl by blast
  have mig: "?ok (migrate_pending_identity_device C i f t r w)" for i f t r
  proof (cases "\<exists>j. normalize_lookup_identity (rc_registry C) i w = Inr (Some j)")
    case True
    then obtain j where "normalize_lookup_identity (rc_registry C) i w = Inr (Some j)" by blast
    from migrate_exact [OF assms this, of f t r] show ?thesis by blast
  next
    case False
    from no_identity_stays(1) [OF False, of f t r] show ?thesis by (elim exE) (simp only: stay)
  qed
  have pur: "?ok (purge_pending_identity_messages C i d ''identity_queue_purged'' w)" for i d
  proof (cases "\<exists>j. normalize_lookup_identity (rc_registry C) i w = Inr (Some j)")
    case True
    then obtain j where "normalize_lookup_identity (rc_registry C) i w = Inr (Some j)" by blast
    from purge_exact [OF assms this, of d] show ?thesis by blast
  next
    case False
    from no_identity_stays(2) [OF False, of d "''identity_queue_purged''"] show ?thesis by (elim exE) (simp only: stay)
  qed
  have map: "?ok (and_then p (\<lambda>_ w. (Inr (), w)))" if "?ok p" for p :: "(string + nat) \<times> 's world"
  proof -
    obtain r w' where p: "p = (r, w')" by fastforce
    then show ?thesis using that by (cases r) (simp_all only: and_then_simps prod.inject, blast+)
  qed
  show ?thesis unfolding apply_registry_side_effect_def by (cases effect) (simp_all only: registry_side_effect.case stay map [OF mig] map [OF pur])
qed

lemma side_effect_fine:
  assumes "hosted B C" and "holds C w M A G"
  shows "fine C w M A (apply_registry_side_effect C effect w)"
  using side_effect_ok [OF assms, of effect] by (elim exE conjE) (simp add: fineI)

lemma register_identity_fine:
  assumes "hosted B C" and "holds C w M A G"
  shows "fine C w M A (register_identity C i d s w)"
proof -
  obtain r w' G' where "register (rc_registry C) i d s w = (r, w')" "later w w'" "holds C w' M A G'"
    using registration_ok [OF assms, of i d s] by (elim exE conjE) (rule that)
  then have "fine C w M A (register (rc_registry C) i d s w)" using fineI [OF _ _ accounted_refl] by simp
  then show ?thesis unfolding register_identity_def
    by (rule fine_bind) (auto intro!: fine_bind [OF side_effect_fine [OF assms(1)]] intro: fine_stay)
qed

lemma deregister_identity_fine:
  assumes "hosted B C" and "holds C w M A G"
  shows "fine C w M A (deregister_identity C i d t w)"
proof -
  obtain r w' G' where "deregister (rc_registry C) i d t w = (r, w')" "later w w'" "holds C w' M A G'"
    using deregister_ok [OF assms, of i d t] by (elim exE conjE) (rule that)
  then have "fine C w M A (deregister (rc_registry C) i d t w)" using fineI [OF _ _ accounted_refl] by simp
  then show ?thesis unfolding deregister_identity_def
    by (rule fine_bind) (auto intro!: fine_bind [OF side_effect_fine [OF assms(1)]] intro: fine_stay)
qed

end

section \<open>Runs\<close>

text \<open>The requests a relay serves, and what a run of them leaves.\<close>

datatype custody_op =
    Accept_Custody string string string bytes "string option" "string option"
  | Mark_Dispatching string string string
  | Mark_Dispatch_Failed string string string
  | Mark_Delivered string string string
  | Converge_Delivered string string string
  | Enforce_Pressure
  | Register_Identity string string u64
  | Deregister_Identity string string "string option"

fun custody_step :: "'s relay_custody \<Rightarrow> custody_op \<Rightarrow> 's world \<Rightarrow> 's world" where
  "custody_step C (Accept_Custody s d i bs r v) w = snd (accept_custody C s d i bs r v w)"
| "custody_step C (Mark_Dispatching d i r) w = snd (mark_dispatching C d i r w)"
| "custody_step C (Mark_Dispatch_Failed d i r) w = snd (mark_dispatch_failed C d i r w)"
| "custody_step C (Mark_Delivered d i r) w = snd (mark_delivered C d i r w)"
| "custody_step C (Converge_Delivered d i r) w = snd (converge_delivered_for_message C d i r w)"
| "custody_step C Enforce_Pressure w = snd (enforce_storage_pressure C w)"
| "custody_step C (Register_Identity i d s) w = snd (register_identity C i d s w)"
| "custody_step C (Deregister_Identity i d t) w = snd (deregister_identity C i d t w)"

definition custody_run :: "'s relay_custody \<Rightarrow> custody_op list \<Rightarrow> 's world \<Rightarrow> 's world" where
  "custody_run C ops w = fold (custody_step C) ops w"

fun addressed :: "custody_op \<Rightarrow> bool" where
  "addressed (Accept_Custody s d i bs r v) \<longleftrightarrow> plain_id d"
| "addressed (Converge_Delivered d i r) \<longleftrightarrow> plain_id d"
| "addressed _ \<longleftrightarrow> True"

context reliable_backend
begin

lemma step_fine:
  assumes "hosted B C" and "holds C w M A G" and "addressed op"
  shows "fine C w M A ((), custody_step C op w)"
proof -
  have s: "fine C w M A ((), snd p)" if "fine C w M A p" for p :: "'r \<times> 's world"
    using that by (simp add: fine_def)
  show ?thesis
    using assms(3)
    by (cases op)
      (auto intro!: s accept_fine [OF assms(1,2)] mark_dispatching_fine [OF assms(1,2)] mark_dispatch_failed_fine [OF assms(1,2)]
        mark_delivered_fine [OF assms(1,2)] converge_fine [OF assms(1,2)] register_identity_fine [OF assms(1,2)]
        deregister_identity_fine [OF assms(1,2)] pressure_internal_fine [OF assms(1,2)] simp: enforce_storage_pressure_def)
qed

lemma run_fine:
  "hosted B C \<Longrightarrow> holds C w M A G \<Longrightarrow> list_all addressed ops \<Longrightarrow> fine C w M A ((), custody_run C ops w)"
proof (induction ops arbitrary: w M A G)
  case Nil
  then show ?case by (simp add: custody_run_def fine_stay)
next
  case (Cons op ops)
  obtain M1 A1 G1 where s: "later w (custody_step C op w)" "holds C (custody_step C op w) M1 A1 G1" "accounted M A M1 A1"
    using step_fine [OF Cons.prems(1,2), of op] Cons.prems(3) by (auto simp: fine_def)
  have "fine C (custody_step C op w) M1 A1 ((), custody_run C ops (custody_step C op w))"
    using Cons.IH [OF Cons.prems(1) s(2)] Cons.prems(3) by simp
  then show ?case using fine_trans [OF s(1,3)] by (simp add: custody_run_def)
qed

lemma get_message_ok:
  assumes "hosted B C" and "holds C w M A G"
  shows "get_message C d i w = Inr (M (slot d i))"
proof -
  have g: "w_get B (custody_key d i) w = Inr (map_option (bytes_of (rc_ser_message C)) (M (slot d i)))"
    using w_get_ok [OF holds_sound [OF assms(2)]] assms(2) by (simp add: holds_def table_def custody_key_slot)
  show ?thesis
    by (cases "M (slot d i)") (simp_all add: get_message_def hostedD(1) [OF assms(1)] g codec_de [OF hostedD(2) [OF assms(1)]])
qed

lemma transitions_ok:
  assumes "hosted B C" and "holds C w M A G"
  shows "set (transitions_for_custody C i w) = {t \<in> ran A. ct_custody_id t = i}"
proof -
  obtain es where es: "bk_scan_prefix B (as_bytes CUSTODY_AUDIT_PREFIX) (w_store w) = Inr es"
    "set es = {(k, v). entries (w_store w) k = Some v \<and> starts_with (as_bytes CUSTODY_AUDIT_PREFIX) k}"
    by (rule scanE [OF holds_sound [OF assms(2)]])
  note de = codec_de [OF hostedD(3) [OF assms(1)]]
  have t: "table CUSTODY_AUDIT_PREFIX (bytes_of (rc_ser_transition C)) (entries (w_store w)) A" using assms(2) by (simp add: holds_def)
  have im: "set es = (\<lambda>(k, t). (table_key CUSTODY_AUDIT_PREFIX k, bytes_of (rc_ser_transition C) t)) ` {(k, t). A k = Some t}"
    unfolding es(2) by (auto simp: starts_with_table tableD [OF t])
  have "map snd (decoded (rc_de_transition C) es) = map (\<lambda>(k, v). projr (rc_de_transition C v)) es"
    by (rule decoded_values) (use im de in auto)
  then have "set (map snd (decoded (rc_de_transition C) es)) = (\<lambda>(k, v). projr (rc_de_transition C v)) ` set es" by simp
  also have "\<dots> = ran A" unfolding im by (force simp: de ran_def image_iff)
  finally show ?thesis by (simp add: transitions_for_custody_def scan_or_empty_def hostedD(1) [OF assms(1)] es(1))
qed

lemma run_accounted:
  assumes "hosted B C" and "holds C w M A G" and "list_all addressed ops" and "get_message C d i w = Inr (Some m)"
  shows "(\<exists>d' m'. get_message C d' (cm_custody_id m) (custody_run C ops w) = Inr (Some m')) \<or>
    (\<exists>t \<in> set (transitions_for_custody C (cm_custody_id m) (custody_run C ops w)). closing t)"
proof -
  let ?w = "custody_run C ops w" and ?i = "cm_custody_id m"
  obtain M' A' G' where h: "holds C ?w M' A' G'" "accounted M A M' A'" using run_fine [OF assms(1-3)] by (auto simp: fine_def)
  have "in_custody M ?i" using assms(4) get_message_ok [OF assms(1,2)] by (auto simp: in_custody_def intro: ranI)
  then have "in_custody M' ?i \<or> was_closed A' ?i" using h(2) by (simp add: accounted_def)
  moreover have "get_message C (cm_destination_peer_id m') ?i ?w = Inr (Some m')" if "m' \<in> ran M'" "cm_custody_id m' = ?i" for m'
    using keyed_ran [OF holdsD(1) [OF h(1)] that(1)] that(2) by (simp add: get_message_ok [OF assms(1) h(1)])
  moreover have "set (transitions_for_custody C ?i ?w) = {t \<in> ran A'. ct_custody_id t = ?i}" by (rule transitions_ok [OF assms(1) h(1)])
  ultimately show ?thesis unfolding in_custody_def was_closed_def by blast
qed

end

section \<open>Identities in their stored form\<close>

lemma visible_trim:
  assumes "\<And>c. c \<in> set s \<Longrightarrow> 33 \<le> (of_char c :: nat) \<and> (of_char c :: nat) \<le> 127"
  shows "str_trim s = s"
proof -
  have white: "\<not> (33 \<le> (of_char c :: nat) \<and> (of_char c :: nat) \<le> 127)" if "w \<in> set white_space" "c \<in> set w" for w c
    using that by (auto simp: white_space_def)
  have none: "begins_with ws t = None" if t: "set t = set s" and ws: "\<And>w. w \<in> set ws \<Longrightarrow> \<exists>v \<in> set white_space. set w = set v" for ws t
  proof (cases "begins_with ws t")
    case (Some w)
    then have w: "w \<noteq> []" "w \<in> set ws" "t = w @ drop (length w) t" by (auto dest: begins_withD)
    then have "hd w \<in> set w" "set w \<subseteq> set t" by (auto, metis UnI1 set_append)
    then show ?thesis using ws [OF w(2)] white assms t by blast
  qed simp
  have "begins_with white_space s = None" by (rule none) auto
  moreover have "begins_with (map rev white_space) (rev s) = None" by (rule none) auto
  ultimately show ?thesis by (simp add: str_trim_def strip_all_id)
qed

lemma hex_visible: "is_hexdigit c \<Longrightarrow> 33 \<le> (of_char c :: nat) \<and> (of_char c :: nat) \<le> 127"
  by (auto simp: is_hexdigit_def Let_def)

lemma ascii_lower_idem [simp]: "ascii_lower (ascii_lower c) = ascii_lower c"
  by (simp add: ascii_lower_def Let_def)

lemma normalize_identity_idem: "normalize_identity_id i = Inr j \<Longrightarrow> normalize_identity_id j = Inr j \<and> is_hex_64 j \<and> lower_trim i = j \<and> lower_trim j = j"
proof -
  assume "normalize_identity_id i = Inr j"
  then have j: "j = lower_trim i" "is_hex_64 j" by (auto simp: normalize_identity_id_def Let_def split: if_splits)
  have "str_trim j = j" using j(2) hex_visible by (intro visible_trim) (auto simp: is_hex_64_def list_all_iff)
  moreover have "map ascii_lower j = j" unfolding j(1) lower_trim_def by simp
  ultimately have "lower_trim j = j" by (simp add: lower_trim_def)
  then show ?thesis using j by (simp add: normalize_identity_id_def)
qed

context reliable_backend
begin

lemma lookup_known:
  assumes "hosted B C" and "holds C w M A G" and "normalize_identity_id i = Inr j" and "G j \<noteq> None"
  shows "normalize_lookup_identity (rc_registry C) i w = Inr (Some j)"
proof -
  have n: "lower_trim i = j" "is_hex_64 j" using normalize_identity_idem [OF assms(3)] by simp_all
  have R: "rg_backend (rc_registry C) = B" using hostedD(4) [OF assms(1)] by (simp add: hosted_registry_def)
  have "w_get B (registration_key j) w = Inr (map_option (bytes_of (rg_ser_record (rc_registry C))) (G j))"
    using w_get_ok [OF holds_sound [OF assms(2)]] assms(2) by (simp add: holds_def table_def registration_key_def table_key_def)
  then have "record_exists (rc_registry C) j w = Inr True" using assms(4) R by (simp add: record_exists_def)
  moreover have "j \<noteq> []" using n(2) by (auto simp: is_hex_64_def)
  ultimately show ?thesis using n by (simp add: normalize_lookup_identity_def)
qed

lemma deregistration_effect:
  assumes "hosted B C" and "holds C w M A G" and i: "normalize_identity_id i = Inr j" and act: "G j = Some rec" "rr_state rec = Active a s"
    and dev: "normalize_uuid_v4 (rc_registry C) d ''deregistration_from_device_id_invalid'' = Inr a"
    and tgt: "normalize_target (rc_registry C) target = Inr t" "t \<noteq> Some a"
  shows "\<exists>u w' M' A' G'.
    deregister_identity C i d target w = (Inr (case t of None \<Rightarrow> Abandoned a u | Some b \<Rightarrow> Handover a b u), w') \<and> holds C w' M' A' G' \<and>
    (case t of
       None \<Rightarrow> M' = M |` (- slot_of ` owed M j None)
     | Some b \<Rightarrow> (\<forall>k. k \<notin> slot_of ` owed M j (Some a) \<longrightarrow> M' k = M k) \<and>
         (\<forall>m \<in> owed M j (Some a). \<exists>v. M' (slot_of m) = Some (m\<lparr>cm_intended_device_id := Some b, cm_updated_at_ms := v\<rparr>)))"
proof -
  from deregister_ok [OF assms(1,2), of i d target] obtain res w1 G1
    where g: "deregister (rc_registry C) i d target w = (res, w1)" "holds C w1 M A G1"
      and q: "\<forall>i' rec a s. normalize_identity_id i = Inr i' \<longrightarrow> G i' = Some rec \<longrightarrow> rr_state rec = Active a s \<longrightarrow>
       (normalize_uuid_v4 (rc_registry C) d ''deregistration_from_device_id_invalid'' \<noteq> Inr a \<longrightarrow> G1 = G \<and> (\<exists>e. res = Inl e)) \<and>
       (\<forall>t. normalize_uuid_v4 (rc_registry C) d ''deregistration_from_device_id_invalid'' = Inr a \<longrightarrow>
          normalize_target (rc_registry C) target = Inr t \<longrightarrow> t \<noteq> Some a \<longrightarrow>
          (\<exists>u. let st = (case t of None \<Rightarrow> Abandoned a u | Some b \<Rightarrow> Handover a b u)
               in res = Inr \<lparr>uo_state = st, uo_side_effect = (case t of None \<Rightarrow> Purge i' None | Some b \<Rightarrow> Migrate i' a b)\<rparr> \<and>
                  G1 = G(i' \<mapsto> \<lparr>rr_identity_id = i', rr_state = st, rr_updated_at_ms = u\<rparr>)))"
    by (elim exE conjE) (rule that)
  from q [rule_format, OF i act, THEN conjunct2, rule_format, OF dev tgt] obtain u
    where res: "res = Inr \<lparr>uo_state = (case t of None \<Rightarrow> Abandoned a u | Some b \<Rightarrow> Handover a b u),
                    uo_side_effect = (case t of None \<Rightarrow> Purge j None | Some b \<Rightarrow> Migrate j a b)\<rparr>" and G1: "G1 j \<noteq> None"
    unfolding Let_def by force
  have l: "normalize_lookup_identity (rc_registry C) j w1 = Inr (Some j)"
    using lookup_known [OF assms(1) g(2) _ G1] normalize_identity_idem [OF i] by blast
  show ?thesis
  proof (cases t)
    case None
    from purge_exact [OF assms(1) g(2) l, of None] obtain n w' A'
      where "purge_pending_identity_messages C j None ''identity_queue_purged'' w1 = (Inr n, w')"
        "holds C w' (M |` (- slot_of ` owed M j None)) A' G1" by blast
    then show ?thesis using g(1) res None by (simp add: deregister_identity_def apply_registry_side_effect_def) blast
  next
    case (Some b)
    from migrate_exact [OF assms(1) g(2) l, of a b "''identity_handover_queue_migrated''"] obtain n w' M' A'
      where m: "migrate_pending_identity_device C j a b ''identity_handover_queue_migrated'' w1 = (Inr n, w')" "holds C w' M' A' G1"
        "\<forall>k. k \<notin> slot_of ` owed M j (Some a) \<longrightarrow> M' k = M k"
        "\<forall>m \<in> owed M j (Some a). \<exists>v. M' (slot_of m) = Some (m\<lparr>cm_intended_device_id := Some b, cm_updated_at_ms := v\<rparr>)" by blast
    have "deregister_identity C i d target w = (Inr (Handover a b u), w')"
      using g(1) res Some m(1) by (simp add: deregister_identity_def apply_registry_side_effect_def)
    then show ?thesis using m(2-4) Some by (simp only: option.case) blast
  qed
qed

end

section \<open>A fresh device keeps its identity\<close>

text \<open>A request that registers or deregisters some identity, but does not name the device \<open>a\<close> where it names the identity \<open>i\<close>.\<close>

fun foreign :: "'s relay_registry \<Rightarrow> string \<Rightarrow> string \<Rightarrow> custody_op \<Rightarrow> bool" where
  "foreign R i a (Register_Identity i' d s) \<longleftrightarrow>
     (if normalize_identity_id i' = Inr i then normalize_uuid_v4 R d ''registration_device_id_invalid'' \<noteq> Inr a else True)"
| "foreign R i a (Deregister_Identity i' d t) \<longleftrightarrow>
     (if normalize_identity_id i' = Inr i then normalize_uuid_v4 R d ''deregistration_from_device_id_invalid'' \<noteq> Inr a else True)"
| "foreign R i a _ \<longleftrightarrow> False"

context reliable_backend
begin

lemma outcome_keeps:
  assumes "hosted B C" and "later w w1" and "holds C w1 M A G1"
  shows "\<exists>w' M' A'. snd (and_then (res, w1) (\<lambda>outcome w. and_then (apply_registry_side_effect C (uo_side_effect outcome) w)
           (\<lambda>_ w. (Inr (uo_state outcome), w)))) = w' \<and> later w w' \<and> holds C w' M' A' G1"
proof (cases res)
  case (Inl e)
  then show ?thesis using assms(2,3) by auto
next
  case (Inr out)
  obtain r w' M' A' where s: "apply_registry_side_effect C (uo_side_effect out) w1 = (r, w')" "later w1 w'" "holds C w' M' A' G1"
    using side_effect_ok [OF assms(1,3), of "uo_side_effect out"] by blast
  then show ?thesis using Inr later_trans [OF assms(2) s(2)] by (cases r) auto
qed

lemma foreign_step:
  assumes "hosted B C" and "holds C w M A G" and act: "G i = Some rec" "rr_state rec = Active a s"
    and fresh: "sat_sub (w_clock w (w_reads w)) (rr_updated_at_ms rec) \<le> REGISTRATION_STALE_TAKEOVER_MS"
    and "foreign (rc_registry C) i a op"
  shows "\<exists>M' A' G'. later w (custody_step C op w) \<and> holds C (custody_step C op w) M' A' G' \<and> G' i = Some rec"
proof (cases op)
  case (Register_Identity i' d sn)
  from registration_ok [OF assms(1,2), of i' d sn] obtain res w1 G1
    where g: "register (rc_registry C) i' d sn w = (res, w1)" "later w w1" "holds C w1 M A G1"
      "\<forall>j. normalize_identity_id i' \<noteq> Inr j \<longrightarrow> G1 j = G j"
      "\<forall>i rec a s. normalize_identity_id i' = Inr i \<longrightarrow> G i = Some rec \<longrightarrow> rr_state rec = Active a s \<longrightarrow>
         normalize_uuid_v4 (rc_registry C) d ''registration_device_id_invalid'' \<noteq> Inr a \<longrightarrow>
         sat_sub (w_clock w (w_reads w)) (rr_updated_at_ms rec) \<le> REGISTRATION_STALE_TAKEOVER_MS \<longrightarrow> G1 = G \<and> (\<exists>e. res = Inl e)"
    by (elim exE conjE) (rule that)
  have "G1 i = Some rec" using g(4,5) act fresh assms(6) Register_Identity by (cases "normalize_identity_id i' = Inr i") auto
  then show ?thesis using outcome_keeps [OF assms(1) g(2,3), of res] g(1) Register_Identity by (auto simp: register_identity_def)
next
  case (Deregister_Identity i' d t)
  from deregister_ok [OF assms(1,2), of i' d t] obtain res w1 G1
    where g: "deregister (rc_registry C) i' d t w = (res, w1)" "later w w1" "holds C w1 M A G1"
      "\<forall>j. normalize_identity_id i' \<noteq> Inr j \<longrightarrow> G1 j = G j"
      "\<forall>i rec a s. normalize_identity_id i' = Inr i \<longrightarrow> G i = Some rec \<longrightarrow> rr_state rec = Active a s \<longrightarrow>
         normalize_uuid_v4 (rc_registry C) d ''deregistration_from_device_id_invalid'' \<noteq> Inr a \<longrightarrow> G1 = G"
    by (elim exE conjE) (rule that, assumption+, blast)
  have "G1 i = Some rec" using g(4,5) act assms(6) Deregister_Identity by (cases "normalize_identity_id i' = Inr i") auto
  then show ?thesis using outcome_keeps [OF assms(1) g(2,3), of res] g(1) Deregister_Identity by (auto simp: deregister_identity_def)
qed (use assms(6) in simp_all)

lemma foreign_run:
  assumes "hosted B C" and "holds C w M A G" and "G i = Some rec" and act: "rr_state rec = Active a s"
    and "\<And>n. sat_sub (w_clock w n) (rr_updated_at_ms rec) \<le> REGISTRATION_STALE_TAKEOVER_MS"
    and "list_all (foreign (rc_registry C) i a) ops"
  shows "\<exists>M' A' G'. holds C (custody_run C ops w) M' A' G' \<and> G' i = Some rec"
  using assms(2,3,5,6)
proof (induction ops arbitrary: w M A G)
  case Nil
  then show ?case by (auto simp: custody_run_def)
next
  case (Cons op ops)
  have f: "foreign (rc_registry C) i a op" "list_all (foreign (rc_registry C) i a) ops" using Cons.prems(4) by simp_all
  obtain M1 A1 G1 where s: "later w (custody_step C op w)" "holds C (custody_step C op w) M1 A1 G1" "G1 i = Some rec"
    using foreign_step [OF assms(1) Cons.prems(1,2) act Cons.prems(3) f(1)] by blast
  have "sat_sub (w_clock (custody_step C op w) n) (rr_updated_at_ms rec) \<le> REGISTRATION_STALE_TAKEOVER_MS" for n
    using Cons.prems(3) [of n] s(1) by (simp add: later_def)
  from Cons.IH [OF s(2,3) this f(2)] show ?case by (simp add: custody_run_def)
qed

lemma active_served:
  assumes "hosted B C" and "holds C w M A G" and "normalize_identity_id i = Inr i" and "G i = Some rec" and "rr_state rec = Active a s"
  shows "fst (enforce_custody (rc_registry C) i d w) =
    (case normalize_uuid_v4 (rc_registry C) d ''registration_device_id_invalid'' of
       Inl _ \<Rightarrow> Inl NoRegistration
     | Inr d' \<Rightarrow> if d' = a then Inr (Enforced_Active i a) else Inl DeviceMismatch)"
proof -
  have l: "normalize_lookup_identity (rc_registry C) i w = Inr (Some i)" using lookup_known [OF assms(1-3)] assms(4) by simp
  obtain w' r G' where g: "get_record_by_identity_id (rc_registry C) i w = (Inr r, w')" "r = Some rec"
    by (rule get_activeE [OF assms(1,2), of i]) (use assms(4,5) in blast)
  then have "registry_get_state (rc_registry C) i w = (Inr (Some (Active a s)), w')" using l assms(5) by (simp add: registry_get_state_def)
  then show ?thesis using l by (auto simp: enforce_custody_def split: sum.split)
qed

end

section \<open>Which records are purged\<close>

lemma purge_count_le: "purge_count cs req \<le> length cs"
  by (induction cs req rule: purge_count.induct) auto

abbreviation total_size :: "(custody_message \<times> u64) list \<Rightarrow> nat" where
  "total_size cs \<equiv> sum_list (map (\<lambda>c. unat (snd c)) cs)"

lemma purge_count_enough: "purge_count cs req < length cs \<Longrightarrow> unat req \<le> total_size (take (purge_count cs req) cs)"
proof (induction cs req rule: purge_count.induct)
  case (2 m sz cs required)
  show ?case
  proof (cases "required = 0")
    case False
    then show ?thesis using 2 by (auto simp: unat_sat_sub)
  qed simp
qed simp

lemma purge_count_least: "n < purge_count cs req \<Longrightarrow> total_size (take n cs) < unat req"
proof (induction cs req arbitrary: n rule: purge_count.induct)
  case (2 m sz cs required)
  have r: "required \<noteq> 0" and n: "n < Suc (purge_count cs (sat_sub required sz))" using "2.prems" by (auto split: if_splits)
  show ?case
  proof (cases n)
    case 0
    then show ?thesis using r by (simp add: unat_gt_0)
  next
    case (Suc k)
    then show ?thesis using "2.IH" [OF r, of k] n by (simp add: unat_sat_sub)
  qed
qed simp

definition record_size :: "'s relay_custody \<Rightarrow> custody_message \<Rightarrow> nat" where
  "record_size C m = unat (word_of_nat (msg_len C m) :: u64)"

context reliable_backend
begin

lemma purge_policy_ok:
  assumes "hosted B C" and "holds C w M A G" and "r \<in> purge_reasons"
  shows "\<exists>victims rest bytes w' A'. distinct (victims @ rest) \<and> set (victims @ rest) = ran M \<and> sorted (map (purge_rank C) (victims @ rest)) \<and>
    purge_oldest_by_policy C req r w = (Inr (length victims, bytes), w') \<and> holds C w' (M |` (- slot_of ` set victims)) A' G \<and>
    (if rest = [] then True else unat req \<le> sum_list (map (record_size C) victims)) \<and>
    (if victims = [] then True else sum_list (map (record_size C) (butlast victims)) < unat req)"
proof -
  obtain cs w' A' where cs: "distinct (map fst cs)" "set cs = sized C ` ran M" "sorted (map (\<lambda>c. purge_rank C (fst c)) cs)"
    "purge_oldest_by_policy C req r w = (Inr (purge_count cs req, freed (take (purge_count cs req) cs) 0), w')"
    "holds C w' (without M (take (purge_count cs req) cs)) A' G"
    by (rule purge_oldest_ok [OF assms])
  let ?k = "purge_count cs req"
  let ?v = "map fst (take ?k cs)" and ?r = "map fst (drop ?k cs)"
  have app: "?v @ ?r = map fst cs" by (simp flip: map_append)
  have sz: "map (record_size C) (map fst xs) = map (\<lambda>c. unat (snd c)) xs" if "set xs \<subseteq> set cs" for xs
    using that cs(2) by (auto simp: record_size_def)
  have parts: "distinct (?v @ ?r)" "set (?v @ ?r) = ran M" "sorted (map (purge_rank C) (?v @ ?r))"
    unfolding app using cs(1-3) by (force simp: image_iff comp_def)+
  have len: "length ?v = ?k" using purge_count_le [of cs req] by simp
  have left: "holds C w' (M |` (- slot_of ` set ?v)) A' G" using cs(5) by (simp add: without_def)
  have enough: "if ?r = [] then True else unat req \<le> sum_list (map (record_size C) ?v)"
    unfolding sz [OF set_take_subset] using purge_count_enough [of cs req] by simp
  have least: "if ?v = [] then True else sum_list (map (record_size C) (butlast ?v)) < unat req"
  proof (cases "?k = 0")
    case False
    have "butlast ?v = map fst (take (?k - 1) cs)" using purge_count_le [of cs req] by (simp add: butlast_take map_butlast [symmetric])
    then show ?thesis unfolding \<open>butlast ?v = _\<close> sz [OF set_take_subset] using purge_count_least [of "?k - 1" cs req] False by simp
  qed simp
  from cs(4) have "purge_oldest_by_policy C req r w = (Inr (length ?v, freed (take ?k cs) 0), w')" unfolding len .
  with parts left enough least show ?thesis by blast
qed

end

section \<open>What a relay promises\<close>

text \<open>
  C9. A message taken into custody is never lost silently: after any run of the relay's operations, whatever they return, it is
  still in custody or the audit trail has an entry that closes it, as delivered or purged.
\<close>

theorem custody_accounted:
  assumes "hosted memory_backend C" and "custody_holds (\<lambda>data. hm_wf data) hm_get C w M A G" and "list_all addressed ops"
    and "get_message C d i w = Inr (Some m)"
  shows "(\<exists>d' m'. get_message C d' (cm_custody_id m) (custody_run C ops w) = Inr (Some m')) \<or>
    (\<exists>t \<in> set (transitions_for_custody C (cm_custody_id m) (custody_run C ops w)). closing t)"
  by (rule memory.run_accounted [OF assms])

text \<open>
  C12. Under storage pressure the purge removes a least set of records: in the order of the policy (records of other peers first, then delivered
  ones, then the oldest), no more than needed to free the required bytes, and everything only if that is not enough.
\<close>

theorem purge_follows_policy:
  assumes "hosted memory_backend C" and "custody_holds (\<lambda>data. hm_wf data) hm_get C w M A G" and "reason \<in> purge_reasons"
  shows "\<exists>victims rest bytes w' A'. distinct (victims @ rest) \<and> set (victims @ rest) = ran M \<and> sorted (map (purge_rank C) (victims @ rest)) \<and>
    purge_oldest_by_policy C required reason w = (Inr (length victims, bytes), w') \<and>
    custody_holds (\<lambda>data. hm_wf data) hm_get C w' (M |` (- slot_of ` set victims)) A' G \<and>
    (if rest = [] then True else unat required \<le> sum_list (map (record_size C) victims)) \<and>
    (if victims = [] then True else sum_list (map (record_size C) (butlast victims)) < unat required)"
  by (rule memory.purge_policy_ok [OF assms])

text \<open>
  C11. When the active device of an identity deregisters, its queue follows: without a target every undelivered record of the identity is
  purged and nothing else, with a target exactly the undelivered records intended for the old device are retargeted to the new one.
\<close>

theorem deregistration_moves_queue:
  assumes "hosted memory_backend C" and "custody_holds (\<lambda>data. hm_wf data) hm_get C w M A G" and "normalize_identity_id i = Inr j"
    and "G j = Some rec" and "rr_state rec = Active a s"
    and "normalize_uuid_v4 (rc_registry C) d ''deregistration_from_device_id_invalid'' = Inr a"
    and "normalize_target (rc_registry C) target = Inr t" and "t \<noteq> Some a"
  shows "\<exists>u w' M' A' G'.
    deregister_identity C i d target w = (Inr (case t of None \<Rightarrow> Abandoned a u | Some b \<Rightarrow> Handover a b u), w') \<and>
    custody_holds (\<lambda>data. hm_wf data) hm_get C w' M' A' G' \<and>
    (case t of
       None \<Rightarrow> M' = M |` (- slot_of ` owed M j None)
     | Some b \<Rightarrow> (\<forall>k. k \<notin> slot_of ` owed M j (Some a) \<longrightarrow> M' k = M k) \<and>
         (\<forall>m \<in> owed M j (Some a). \<exists>v. M' (slot_of m) = Some (m\<lparr>cm_intended_device_id := Some b, cm_updated_at_ms := v\<rparr>)))"
  by (rule memory.deregistration_effect [OF assms])

text \<open>
  C10. No sequence of registrations and deregistrations that do not name the active device takes an identity away from it while its
  registration is fresh: the relay still accepts messages for that device and refuses every other.
\<close>

theorem active_device_protected:
  assumes "hosted memory_backend C" and "custody_holds (\<lambda>data. hm_wf data) hm_get C w M A G" and "normalize_identity_id i = Inr i"
    and "G i = Some rec" and "rr_state rec = Active a s"
    and "\<And>n. sat_sub (w_clock w n) (rr_updated_at_ms rec) \<le> REGISTRATION_STALE_TAKEOVER_MS"
    and "list_all (foreign (rc_registry C) i a) ops"
  shows "fst (enforce_custody (rc_registry C) i d (custody_run C ops w)) =
    (case normalize_uuid_v4 (rc_registry C) d ''registration_device_id_invalid'' of
       Inl _ \<Rightarrow> Inl NoRegistration
     | Inr d' \<Rightarrow> if d' = a then Inr (Enforced_Active i a) else Inl DeviceMismatch)"
proof -
  obtain M' A' G' where "custody_holds (\<lambda>data. hm_wf data) hm_get C (custody_run C ops w) M' A' G'" "G' i = Some rec"
    using memory.foreign_run [OF assms(1,2,4-7)] by blast
  then show ?thesis by (rule memory.active_served [OF assms(1) _ assms(3) _ assms(5)])
qed

section \<open>Concrete inputs\<close>

definition u64_field :: "u64 \<Rightarrow> bytes" where
  "u64_field x = nat_to_le 8 (unat x)"

definition field_u64 :: "bytes \<Rightarrow> u64" where
  "field_u64 bs = word_of_nat (nat_of_le bs)"

lemma field_u64 [simp]: "field_u64 (u64_field x) = x"
  by (simp add: field_u64_def u64_field_def le64_inverse)

definition opt_field :: "string option \<Rightarrow> bytes" where
  "opt_field x = unary_opt (map_option as_bytes x)"

definition field_opt :: "bytes \<Rightarrow> string option" where
  "field_opt bs = map_option str_of (fst (dec_opt bs))"

lemma field_opt [simp]: "field_opt (opt_field x) = x"
  using dec_opt [of "map_option as_bytes x" "[]"] by (simp add: field_opt_def opt_field_def option.map_comp comp_def option.map_ident)

definition fields :: "bytes \<Rightarrow> bytes list" where
  "fields bs = fst (dec_list bs)"

lemma fields [simp]: "fields (unary_list xs) = xs"
  using dec_list [of xs "[]"] by (simp add: fields_def)

definition state_field :: "custody_state \<Rightarrow> bytes" where
  "state_field st = (case st of Accepted \<Rightarrow> [0] | Dispatching \<Rightarrow> [1] | Delivered \<Rightarrow> [2])"

definition field_state :: "bytes \<Rightarrow> custody_state" where
  "field_state bs = (if bs = [0] then Accepted else if bs = [1] then Dispatching else Delivered)"

lemma field_state [simp]: "field_state (state_field st) = st"
  by (cases st) (simp_all add: field_state_def state_field_def)

lemma state_field_nonempty: "state_field st \<noteq> []"
  by (cases st) (simp_all add: state_field_def)

definition message_ser :: "custody_message \<Rightarrow> bytes" where
  "message_ser m = unary_list [as_bytes (cm_custody_id m), as_bytes (cm_relay_message_id m), as_bytes (cm_source_peer_id m),
     as_bytes (cm_destination_peer_id m), opt_field (cm_recipient_identity_id m), opt_field (cm_intended_device_id m), cm_envelope_data m,
     state_field (cm_state m), u64_field (cm_accepted_at_ms m), u64_field (cm_updated_at_ms m), u64_field (ucast (cm_delivery_attempts m))]"

definition message_deser :: "bytes \<Rightarrow> custody_message" where
  "message_deser bs = (let f = fields bs in
     \<lparr>cm_custody_id = str_of (f ! 0), cm_relay_message_id = str_of (f ! 1), cm_source_peer_id = str_of (f ! 2),
      cm_destination_peer_id = str_of (f ! 3), cm_recipient_identity_id = field_opt (f ! 4), cm_intended_device_id = field_opt (f ! 5),
      cm_envelope_data = f ! 6, cm_state = field_state (f ! 7), cm_accepted_at_ms = field_u64 (f ! 8), cm_updated_at_ms = field_u64 (f ! 9),
      cm_delivery_attempts = ucast (field_u64 (f ! 10))\<rparr>)"

lemma message_deser_ser: "message_deser (message_ser m) = m"
proof -
  have "ucast (ucast a :: u64) = a" for a :: u32 by transfer simp
  then show ?thesis by (simp add: message_deser_def message_ser_def)
qed

definition transition_ser :: "custody_transition \<Rightarrow> bytes" where
  "transition_ser t = unary_list [as_bytes (ct_custody_id t), as_bytes (ct_relay_message_id t), as_bytes (ct_source_peer_id t),
     as_bytes (ct_destination_peer_id t), (case ct_from_state t of None \<Rightarrow> [] | Some st \<Rightarrow> state_field st), state_field (ct_to_state t),
     as_bytes (ct_reason t), u64_field (ct_at_ms t), u64_field (ct_sequence t)]"

definition transition_deser :: "bytes \<Rightarrow> custody_transition" where
  "transition_deser bs = (let f = fields bs in
     \<lparr>ct_custody_id = str_of (f ! 0), ct_relay_message_id = str_of (f ! 1), ct_source_peer_id = str_of (f ! 2),
      ct_destination_peer_id = str_of (f ! 3), ct_from_state = (if f ! 4 = [] then None else Some (field_state (f ! 4))),
      ct_to_state = field_state (f ! 5), ct_reason = str_of (f ! 6), ct_at_ms = field_u64 (f ! 7), ct_sequence = field_u64 (f ! 8)\<rparr>)"

lemma transition_deser_ser: "transition_deser (transition_ser t) = t"
  by (cases t; cases "ct_from_state t") (simp_all add: transition_deser_def transition_ser_def state_field_nonempty)

definition reg_field :: "registration_state \<Rightarrow> bytes" where
  "reg_field st = (case st of
     Active d t \<Rightarrow> unary_list [[0], as_bytes d, u64_field t]
   | Handover f t i \<Rightarrow> unary_list [[1], as_bytes f, as_bytes t, u64_field i]
   | Abandoned d t \<Rightarrow> unary_list [[2], as_bytes d, u64_field t])"

definition field_reg :: "bytes \<Rightarrow> registration_state" where
  "field_reg bs = (let f = fields bs in
     if f ! 0 = [0] then Active (str_of (f ! 1)) (field_u64 (f ! 2))
     else if f ! 0 = [1] then Handover (str_of (f ! 1)) (str_of (f ! 2)) (field_u64 (f ! 3))
     else Abandoned (str_of (f ! 1)) (field_u64 (f ! 2)))"

lemma field_reg [simp]: "field_reg (reg_field st) = st"
  by (cases st) (simp_all add: field_reg_def reg_field_def)

lemma reg_field_nonempty: "reg_field st \<noteq> []"
  by (cases st) (simp_all add: reg_field_def unary_list_def unary_def)

definition registration_ser :: "registration_record \<Rightarrow> bytes" where
  "registration_ser r = unary_list [as_bytes (rr_identity_id r), reg_field (rr_state r), u64_field (rr_updated_at_ms r)]"

definition registration_deser :: "bytes \<Rightarrow> registration_record" where
  "registration_deser bs = (let f = fields bs in
     \<lparr>rr_identity_id = str_of (f ! 0), rr_state = field_reg (f ! 1), rr_updated_at_ms = field_u64 (f ! 2)\<rparr>)"

lemma registration_deser_ser: "registration_deser (registration_ser r) = r"
  by (simp add: registration_deser_def registration_ser_def)

definition reg_transition_ser :: "registration_transition \<Rightarrow> bytes" where
  "reg_transition_ser t = unary_list [as_bytes (rt_identity_id t), (case rt_from_state t of None \<Rightarrow> [] | Some st \<Rightarrow> reg_field st),
     reg_field (rt_to_state t), as_bytes (rt_reason t), u64_field (rt_at_ms t), u64_field (rt_sequence t)]"

definition reg_transition_deser :: "bytes \<Rightarrow> registration_transition" where
  "reg_transition_deser bs = (let f = fields bs in
     \<lparr>rt_identity_id = str_of (f ! 0), rt_from_state = (if f ! 1 = [] then None else Some (field_reg (f ! 1))), rt_to_state = field_reg (f ! 2),
      rt_reason = str_of (f ! 3), rt_at_ms = field_u64 (f ! 4), rt_sequence = field_u64 (f ! 5)\<rparr>)"

lemma reg_transition_deser_ser: "reg_transition_deser (reg_transition_ser t) = t"
  by (cases t; cases "rt_from_state t") (simp_all add: reg_transition_deser_def reg_transition_ser_def reg_field_nonempty)

definition sample_registry :: "memory_storage relay_registry" where
  "sample_registry =
     \<lparr>rg_backend = memory_backend, rg_ser_record = Inr \<circ> registration_ser, rg_de_record = Inr \<circ> registration_deser,
      rg_ser_transition = Inr \<circ> reg_transition_ser, rg_de_transition = Inr \<circ> reg_transition_deser,
      rg_uuid_version = (\<lambda>s. if hd s = CHR ''d'' then Some 4 else None), rg_hex_decode = (\<lambda>s. Inr (as_bytes s)), rg_hash_hex = str_of\<rparr>"

definition sample_custody :: "memory_storage relay_custody" where
  "sample_custody =
     \<lparr>rc_backend = memory_backend, rc_registry = sample_registry, rc_local_identity = Some ''me'', rc_compat_mode = PhaseA,
      rc_probe = (\<lambda>n. None), rc_env = (\<lambda>v. None), rc_ser_message = Inr \<circ> message_ser, rc_de_message = Inr \<circ> message_deser,
      rc_ser_transition = Inr \<circ> transition_ser, rc_de_transition = Inr \<circ> transition_deser\<rparr>"

definition sample_identity :: string where
  "sample_identity = replicate 64 (CHR ''a'')"

definition sample_message :: custody_message where
  "sample_message =
     \<lparr>cm_custody_id = ''m-1-0'', cm_relay_message_id = ''m'', cm_source_peer_id = ''alice'', cm_destination_peer_id = ''bob'',
      cm_recipient_identity_id = Some sample_identity, cm_intended_device_id = Some ''d1'', cm_envelope_data = [1, 2, 3], cm_state = Accepted,
      cm_accepted_at_ms = 1, cm_updated_at_ms = 1, cm_delivery_attempts = 0\<rparr>"

definition sample_registration :: registration_record where
  "sample_registration = \<lparr>rr_identity_id = sample_identity, rr_state = Active ''d1'' 5, rr_updated_at_ms = 10\<rparr>"

definition sample_world :: "memory_storage world" where
  "sample_world =
     \<lparr>w_store = [(table_key CUSTODY_MSG_PREFIX (slot_of sample_message), message_ser sample_message),
                 (table_key REGISTRATION_STATE_PREFIX sample_identity, registration_ser sample_registration)],
      w_sequence = 0, w_ws13_requests = 0, w_legacy_requests = 0, w_clock = (\<lambda>n. 20), w_reads = 0\<rparr>"

lemma sample_hosted: "hosted memory_backend sample_custody"
  by (simp add: hosted_def hosted_registry_def codec_def sample_custody_def sample_registry_def message_deser_ser transition_deser_ser
      registration_deser_ser reg_transition_deser_ser)

lemma sample_custody_holds:
  "custody_holds (\<lambda>data. hm_wf data) hm_get sample_custody sample_world [slot_of sample_message \<mapsto> sample_message] Map.empty
     [sample_identity \<mapsto> sample_registration]"
  by (simp add: custody_holds_def keyed_def audit_keyed_def table_def sample_world_def sample_custody_def sample_registry_def
      plain_id_def sample_message_def)

theorem custody_accounted_witness:
  "(\<exists>d' m'. get_message sample_custody d' ''m-1-0'' (custody_run sample_custody
      [Mark_Dispatching ''bob'' ''m-1-0'' ''dispatch'', Enforce_Pressure, Mark_Delivered ''bob'' ''m-1-0'' ''ack''] sample_world) = Inr (Some m')) \<or>
   (\<exists>t \<in> set (transitions_for_custody sample_custody ''m-1-0'' (custody_run sample_custody
      [Mark_Dispatching ''bob'' ''m-1-0'' ''dispatch'', Enforce_Pressure, Mark_Delivered ''bob'' ''m-1-0'' ''ack''] sample_world)). closing t)"
  using custody_accounted [OF sample_hosted sample_custody_holds, of
      "[Mark_Dispatching ''bob'' ''m-1-0'' ''dispatch'', Enforce_Pressure, Mark_Delivered ''bob'' ''m-1-0'' ''ack'']" "''bob''" "''m-1-0''" sample_message]
    memory.get_message_ok [OF sample_hosted sample_custody_holds, of "''bob''" "''m-1-0''"]
  by (simp add: sample_message_def)

theorem purge_follows_policy_witness:
  "\<exists>victims rest bytes w' A'. distinct (victims @ rest) \<and> set (victims @ rest) = ran [slot_of sample_message \<mapsto> sample_message] \<and>
    sorted (map (purge_rank sample_custody) (victims @ rest)) \<and>
    purge_oldest_by_policy sample_custody 40 ''storage_pressure_emergency'' sample_world = (Inr (length victims, bytes), w') \<and>
    custody_holds (\<lambda>data. hm_wf data) hm_get sample_custody w' ([slot_of sample_message \<mapsto> sample_message] |` (- slot_of ` set victims)) A'
      [sample_identity \<mapsto> sample_registration] \<and>
    (if rest = [] then True else unat (40 :: u64) \<le> sum_list (map (record_size sample_custody) victims)) \<and>
    (if victims = [] then True else sum_list (map (record_size sample_custody) (butlast victims)) < unat (40 :: u64))"
  by (rule purge_follows_policy [OF sample_hosted sample_custody_holds]) (simp add: purge_reasons_def)

lemma sample_lower: "normalize_identity_id sample_identity = Inr sample_identity"
proof -
  have "str_trim sample_identity = sample_identity" by (rule visible_trim) (auto simp: sample_identity_def)
  then show ?thesis
    by (simp add: normalize_identity_id_def lower_trim_def is_hex_64_def sample_identity_def ascii_lower_def list_all_iff is_hexdigit_def Let_def)
qed

lemma sample_device: "str_trim ''d1'' = ''d1''" "str_trim ''d2'' = ''d2''"
  by (rule visible_trim; auto)+

theorem deregistration_moves_queue_witness:
  "\<exists>u w' M' A' G'. deregister_identity sample_custody sample_identity ''d1'' (Some ''d2'') sample_world = (Inr (Handover ''d1'' ''d2'' u), w') \<and>
    custody_holds (\<lambda>data. hm_wf data) hm_get sample_custody w' M' A' G' \<and>
    (\<exists>v. M' (slot_of sample_message) = Some (sample_message\<lparr>cm_intended_device_id := Some ''d2'', cm_updated_at_ms := v\<rparr>))"
proof -
  have o: "sample_message \<in> owed [slot_of sample_message \<mapsto> sample_message] sample_identity (Some ''d1'')"
    by (simp add: owed_def sample_message_def)
  have d: "normalize_uuid_v4 (rc_registry sample_custody) ''d1'' ''deregistration_from_device_id_invalid'' = Inr ''d1''"
    "normalize_target (rc_registry sample_custody) (Some ''d2'') = Inr (Some ''d2'')"
    by (simp_all add: normalize_target_def normalize_uuid_v4_def sample_device sample_custody_def sample_registry_def)
  from deregistration_moves_queue [OF sample_hosted sample_custody_holds sample_lower _ _ d, of sample_registration 5] show ?thesis
    using o by (simp add: sample_registration_def) blast
qed

theorem active_device_protected_witness:
  "fst (enforce_custody (rc_registry sample_custody) sample_identity ''d1'' (custody_run sample_custody
     [Register_Identity sample_identity ''d2'' 7, Deregister_Identity sample_identity ''d2'' None] sample_world)) = Inr (Enforced_Active sample_identity ''d1'')"
proof -
  have n: "normalize_uuid_v4 (rc_registry sample_custody) ''d1'' e = Inr ''d1''" "normalize_uuid_v4 (rc_registry sample_custody) ''d2'' e = Inr ''d2''" for e
    by (simp_all add: normalize_uuid_v4_def sample_device sample_custody_def sample_registry_def)
  from active_device_protected [OF sample_hosted sample_custody_holds sample_lower, of sample_registration "''d1''" 5
      "[Register_Identity sample_identity ''d2'' 7, Deregister_Identity sample_identity ''d2'' None]" "''d1''"] show ?thesis
    by (simp add: n sample_registration_def sample_world_def REGISTRATION_STALE_TAKEOVER_MS_def sat_sub_def)
qed

end
