(* ===== verification/Spec2Isabelle.thy ===== *)
theory Spec2Isabelle
  imports Drift_Frame Drift_Envelope Message_Codec Drift_Reconcile Drift_Sync Drift_Policy Privacy_Traffic Drift_Relay
    Privacy_Onion Store_Inbox Store_Maintenance Store_Blocked Store_Contacts Crypto_Encrypt Custody_Duty
begin

text \<open>
  A verification library for SCMessenger, a mesh messenger written in Rust. Paths below are relative to \<open>src/core/src/\<close>. Messages travel as
  envelopes between nodes that meet: a node stores the envelopes it carries, compares its store with
  that of a peer by an invertible Bloom lookup table, exchanges what is missing, and relays what is not for itself
  within limits; a relay also keeps messages in custody for recipients that are offline. Around this core stand message encryption with its
  ratchet, a layer that hides traffic, and the stores of the application: queues, history, contacts, blocks.

  \<^bold>\<open>Conventions.\<close> A Rust function becomes a HOL function of the same name where HOL allows it. A method with
  \<open>&mut self\<close> returns the new state next to its result; \<open>Result\<close> is a sum with \<open>Inl\<close> for \<open>Err\<close>, and \<open>?\<close> is
  \<open>try_res\<close>, or \<open>and_then\<close> between steps that change a store. Machine integers are words and wrap as in a release build; \<open>usize\<close> counters
  that cannot overflow are natural numbers. A \<open>HashMap\<close> is an association list with distinct keys, in the order in which the map
  would iterate, so a statement about all such lists holds for every iteration order. A \<open>String\<close> is the list
  of its UTF-8 bytes. The clock, random draws, and third-party code (BLAKE3, SHA-512, X25519, Ed25519, XChaCha20-Poly1305, LZ4, CRC32,
  bincode, JSON, hex, UUIDs) are arguments; what a theorem needs of them is a named hypothesis, and
  its witness instantiates them. Floating point is idealised as real numbers, and an operation of the mesh store reads the clock once.
  A loop that may not end is a partial function with value \<open>None\<close> for divergence; a panic is \<open>None\<close> as well.

  \<^bold>\<open>Exchange between nodes.\<close>
  \<^item> \<open>Drift_Prelude\<close>: results, little-endian encodings, saturating arithmetic, hash maps, decimal text. \<open>Drift_Error\<close>: \<open>DriftError\<close>
    of \<open>drift/mod.rs\<close> and what it prints.
  \<^item> \<open>Drift_Frame\<close>: \<open>drift/frame.rs\<close>. Framing on a byte stream: the codec accepts exactly what it
    produces, and a reader takes exactly one frame from the stream, whatever follows it.
  \<^item> \<open>Drift_Envelope\<close>: \<open>drift/envelope.rs\<close>, \<open>drift/compress.rs\<close> and the legacy conversion. Round trips, and the signed bytes
    determine every field but the signature, so also the hop count and the compression flag.
  \<^item> \<open>Message_Codec\<close>: \<open>message/types.rs\<close> and \<open>message/codec.rs\<close>, the two wire formats and the fallback between them.
  \<^item> \<open>Drift_Sketch\<close>: the table of \<open>drift/sketch.rs\<close>. \<open>Drift_Reconcile\<close>: tables represent multisets of signed keys in an abelian group
    of cells; when the difference peels without false positives, decoding returns it exactly.
  \<^item> \<open>Drift_Store\<close>: the mesh store of \<open>drift/store.rs\<close>: capacity, eviction by score, merging, expiry. Saving never deletes, so
    loading gives the union of all saves, the last version of each message.
  \<^item> \<open>Drift_Sync\<close>: the session of \<open>drift/sync.rs\<close>. Offer, response and completion compose the sketch, the
    store and the wire format; a whole run transfers exactly the difference. As a state machine a session only moves forward and holds the
    table it offered.
  \<^item> \<open>Drift_Policy\<close>: \<open>drift/policy.rs\<close> and \<open>drift/rate_limit.rs\<close>, with a sliding-window bound over every trace. \<open>Drift_Relay\<close>: the
    decision of \<open>drift/relay.rs\<close> over envelope, store, policy and cover traffic, exactly, and its hourly budget.

  \<^bold>\<open>Privacy and encryption.\<close>
  \<^item> \<open>Privacy_Traffic\<close>: \<open>privacy/padding.rs\<close>, \<open>timing.rs\<close>, \<open>cover.rs\<close>. \<open>Privacy_Onion\<close>: \<open>privacy/onion.rs\<close>, \<open>privacy/circuit.rs\<close> and
    the two onion operations of \<open>iron_core.rs\<close>: an onion is delivered along its path, the core's own forwarding refuses it, and
    the selection of diverse relays ends or does not. Secrecy of onions is not a theorem here.
  \<^item> \<open>Crypto_Ratchet\<close>: \<open>crypto/ratchet.rs\<close>, sessions with Diffie-Hellman and chain steps: the messages of a chain decrypt in any
    order, and one forged message breaks a session. \<open>Crypto_Sessions\<close>: \<open>crypto/session_manager.rs\<close>, with saving and loading.
    \<open>Crypto_Encrypt\<close>: \<open>crypto/encrypt.rs\<close>, ephemeral and ratcheted encryption, signatures, and a correspondence of two
    parties over both.

  \<^bold>\<open>Stores of the application.\<close>
  \<^item> \<open>Store_Backend\<close>: the trait of \<open>store/backend.rs\<close> as a record of operations, \<open>MemoryStorage\<close>, and the locale
    \<open>reliable_backend\<close>, the contract that persistent components rely on, interpreted on \<open>MemoryStorage\<close>. \<open>Store_Table\<close>: records
    under a common prefix as a table, and that tables with different prefixes do not interfere. \<open>Core_Error\<close>: \<open>IronCoreError\<close> of \<open>lib.rs\<close>.
  \<^item> \<open>Store_Outbox\<close>: \<open>store/outbox.rs\<close> with both backends; the persistent one refines an abstract queue.
    \<open>Store_Inbox\<close>: \<open>store/inbox.rs\<close> and \<open>store/dedup.rs\<close>; the window in which the inbox in memory refuses replays.
  \<^item> \<open>Store_History\<close>: \<open>store/history.rs\<close>; conversations as an exact listing, hiding. \<open>Store_Logs\<close>: \<open>store/logs.rs\<close>.
    \<open>Store_Maintenance\<close>: \<open>store/storage.rs\<close>, which enforces the retention policy exactly.
  \<^item> \<open>Store_Blocked\<close>: \<open>store/blocked.rs\<close>; which identities are blocked after any operations.
    \<open>Store_Contacts\<close>: \<open>store/contacts.rs\<close>; contacts, their migration and recovery.

  \<^bold>\<open>Custody on relays\<close> (\<open>store/relay_custody.rs\<close>).
  \<^item> \<open>Custody_Registry\<close>: which device of an identity a relay serves. \<open>Custody_Store\<close>: records in custody, their audit trail, quotas by storage pressure.
    The world of an operation is the storage, the sequence counter and the clock, which may give a new value at each reading.
  \<^item> \<open>Custody_Effects\<close>: what the primitives do to the tables. \<open>Custody_Audit\<close>: no operation removes a record without an entry that closes it.
    \<open>Custody_Duty\<close>: this for runs of all operations, the order of purging, what a change of device does to the queue, and that a fresh device
    keeps its identity. These theorems are for a store and a registry on one backend, as \<open>in_memory\<close>, \<open>persistent\<close> and \<open>for_local_peer\<close>
    build them; the two databases of \<open>for_service_storage\<close> are not covered.

  \<^bold>\<open>Bounds and fuel.\<close> No definition uses fuel. The peeling loop of the sketch, the eviction loop of the store,
  the encoders and trimming terminate by measures; the reader, the selection of relays in a circuit and the eviction of seen ids
  can diverge in the code and have an optional result, with theorems that say when they return.

  \<^bold>\<open>Not modelled.\<close> The libp2p swarm, the radio transports, the mobile, web and command-line front ends are event loops
  around libraries. Left out too, though pure in part, are the route tables, the connection management of the swarm, the relay protocol over sockets and
  abuse scores; of the core object \<open>iron_core.rs\<close> only the operations named above. The manifest lists every part left out with its reason.
\<close>

end
